(* ===== verification/Memlane_Prelude.thy ===== *)
theory Memlane_Prelude
  imports Main "HOL-Library.Word"
begin

text \<open>
  Shared vocabulary of the development: the machine integer types of the Rust code, byte
  strings, the outcome of a computation that may panic, slices, and the generic facts on lists,
  maps and words that the component theories use.

  Lengths and array indices (Rust \<open>usize\<close>) are \<open>nat\<close>; every other integer keeps its width as
  a word.  Arithmetic on words wraps, which is what the release profile of \<open>Cargo.toml\<close> does
  (it does not turn overflow checks on).
\<close>

unbundle bit_operations_syntax

section \<open>Types\<close>

type_synonym u8 = "8 word"
type_synonym u32 = "32 word"
type_synonym u64 = "64 word"
type_synonym i64 = "64 word" \<comment> \<open>read with \<^const>\<open>sint\<close>\<close>
type_synonym bytes = "u8 list"

text \<open>A Rust \<open>Result\<close> of code that can also panic.\<close>

datatype ('a, 'e) rresult = Ok 'a | Err 'e | Panic

section \<open>Named collections\<close>

named_theorems model_consts \<open>definitions of the numeric constants of the source\<close>
named_theorems slot_simps \<open>effect of the slot operations on the fields of a slot\<close>
named_theorems arena_simps \<open>effect of the arena operations on slots and header\<close>
named_theorems wf_intros \<open>preservation of well-formedness\<close>
named_theorems resp_simps \<open>equations of the wire protocol's printers and parsers\<close>

section \<open>Byte strings\<close>

text \<open>An ASCII literal of the source as its bytes.\<close>

definition ascii :: "string \<Rightarrow> bytes" where
  "ascii s = map of_char s"

lemma length_ascii [simp]: "length (ascii s) = length s"
  by (simp add: ascii_def)

lemma ascii_append: "ascii (s @ t) = ascii s @ ascii t"
  by (simp add: ascii_def)

text \<open>\<open>dst[..xs.len()].copy_from_slice(xs)\<close>: overwrite a prefix of a buffer.\<close>

definition copy_prefix :: "'a list \<Rightarrow> 'a list \<Rightarrow> 'a list" where
  "copy_prefix dst xs = xs @ drop (length xs) dst"

lemma length_copy_prefix [simp]:
  "length xs \<le> length dst \<Longrightarrow> length (copy_prefix dst xs) = length dst"
  by (simp add: copy_prefix_def)

lemma take_copy_prefix [simp]: "take (length xs) (copy_prefix dst xs) = xs"
  by (simp add: copy_prefix_def)

text \<open>\<open>&buf[from..to]\<close>: Rust panics unless \<open>from <= to <= buf.len()\<close>.\<close>

definition slice :: "nat \<Rightarrow> nat \<Rightarrow> 'a list \<Rightarrow> 'a list option" where
  "slice lo hi xs = (if lo \<le> hi \<and> hi \<le> length xs then Some (take (hi - lo) (drop lo xs)) else None)"

lemma slice_Some_iff [simp]: "(\<exists>ys. slice lo hi xs = Some ys) \<longleftrightarrow> lo \<le> hi \<and> hi \<le> length xs"
  by (simp add: slice_def)

lemma slice_append: "hi \<le> length xs \<Longrightarrow> slice lo hi (xs @ ys) = slice lo hi xs"
  by (auto simp: slice_def)

section \<open>Words\<close>

lemma unat_of_nat_u64 [simp]: "n < 2 ^ 64 \<Longrightarrow> unat (of_nat n :: u64) = n"
  by (simp add: unat_of_nat take_bit_nat_eq_self)

lemma xor_cancel_right [simp]: "(x XOR y) XOR y = x" for x y :: "'a::len word"
  by (simp add: xor.assoc)

text \<open>Masking with \<open>2 ^ n - 1\<close> is the remainder, on natural numbers.\<close>

lemma nat_and_mask: "x AND (2 ^ n - 1) = x mod 2 ^ n" for x :: nat
  using take_bit_eq_mask [of n x] by (simp add: mask_eq_exp_minus_1 take_bit_eq_mod)

lemma shift_mod_inj_le:
  assumes "(s + i) mod n = (s + j) mod n" "i \<le> j" "j < n"
  shows "i = (j::nat)"
proof -
  have "(s + j) mod n = (s + i) mod n \<longleftrightarrow> n dvd s + j - (s + i)"
    using assms(2) by (intro mod_eq_dvd_iff_nat) simp
  with assms(1) have "n dvd j - i" by simp
  with assms(2,3) show ?thesis by (auto dest: dvd_imp_le)
qed

lemma shift_mod_inj:
  assumes "(s + i) mod n = (s + j) mod n" "i < n" "j < n"
  shows "i = (j::nat)"
  using shift_mod_inj_le [of s i n j] shift_mod_inj_le [of s j n i] assms
  by (cases "i \<le> j") auto

lemma shift_mod_surj:
  assumes "p < (n::nat)"
  shows "\<exists>i<n. (s + i) mod n = p"
proof -
  have "(\<lambda>i. (s + i) mod n) ` {..<n} = {..<n}"
  proof (rule endo_inj_surj)
    show "inj_on (\<lambda>i. (s + i) mod n) {..<n}"
      by (auto intro!: inj_onI dest: shift_mod_inj)
  qed (use assms in auto)
  with assms show ?thesis by (metis (no_types, lifting) image_iff lessThan_iff)
qed

section \<open>Maps\<close>

lemma map_upd_None_same [simp]: "m k = None \<Longrightarrow> m(k := None) = m"
  by auto

end
