(* ===== verification/SipHash.thy ===== *)
theory SipHash
  imports Memlane_Prelude
begin

text \<open>
  The inline SipHash-1-3 of \<open>src/hashmap.rs\<close> (\<open>sip_round\<close>, \<open>siphash\<close>): the 64-bit
  fingerprint of a key and the source of its first probe index.  The second half states the
  reference SipHash-c-d of its authors over the padded message, and relates the two.
\<close>

section \<open>The code\<close>

type_synonym sip_state = "u64 \<times> u64 \<times> u64 \<times> u64"

text \<open>\<open>u64::rotate_left\<close> is \<^const>\<open>word_rotl\<close>.\<close>

fun sip_round :: "sip_state \<Rightarrow> sip_state" where
  "sip_round (v0, v1, v2, v3) =
    (let v0 = v0 + v1;
         v1 = word_rotl 13 v1;
         v1 = v1 XOR v0;
         v0 = word_rotl 32 v0;
         v2 = v2 + v3;
         v3 = word_rotl 16 v3;
         v3 = v3 XOR v2;
         v0 = v0 + v3;
         v3 = word_rotl 21 v3;
         v3 = v3 XOR v0;
         v2 = v2 + v1;
         v1 = word_rotl 17 v1;
         v1 = v1 XOR v2;
         v2 = word_rotl 32 v2
     in (v0, v1, v2, v3))"

text \<open>\<open>u64::from_le_bytes\<close>, on a list of bytes of any length up to eight.\<close>

fun from_le_bytes :: "bytes \<Rightarrow> u64" where
  "from_le_bytes [] = 0"
| "from_le_bytes (b # bs) = ucast b OR push_bit 8 (from_le_bytes bs)"

text \<open>One message word: the body of the loop over \<open>chunks_exact(8)\<close>, also used for the last word.\<close>

definition sip_absorb :: "u64 \<Rightarrow> sip_state \<Rightarrow> sip_state" where
  "sip_absorb m v =
    (case v of (v0, v1, v2, v3) \<Rightarrow>
      (case sip_round (v0, v1, v2, v3 XOR m) of (v0, v1, v2, v3) \<Rightarrow> (v0 XOR m, v1, v2, v3)))"

text \<open>The loop over \<open>chunks_exact(8)\<close>; the second component is \<open>chunks.remainder()\<close>.\<close>

function sip_chunks :: "sip_state \<Rightarrow> bytes \<Rightarrow> sip_state \<times> bytes" where
  "sip_chunks v data =
    (if 8 \<le> length data
     then sip_chunks (sip_absorb (from_le_bytes (take 8 data)) v) (drop 8 data)
     else (v, data))"
  by pat_completeness auto
termination
  by (relation "measure (\<lambda>(v, data). length data)") auto

declare sip_chunks.simps [simp del]

text \<open>The loop over the remainder, \<open>last |= (byte as u64) << (i * 8)\<close>.\<close>

fun sip_last :: "u64 \<Rightarrow> nat \<Rightarrow> bytes \<Rightarrow> u64" where
  "sip_last acc i [] = acc"
| "sip_last acc i (b # bs) = sip_last (acc OR push_bit (i * 8) (ucast b)) (Suc i) bs"

definition sip_init :: sip_state where
  "sip_init =
    (let k0 = 0x736f6d6570736575;
         k1 = 0x646f72616e646f6d
     in (k0 XOR 0x736f6d6570736575, k1 XOR 0x646f72616e646f6d,
         k0 XOR 0x6c7967656e657261, k1 XOR 0x7465646279746573))"

definition siphash :: "bytes \<Rightarrow> u64" where
  "siphash data =
    (let (v, remainder) = sip_chunks sip_init data;
         last = sip_last (push_bit 56 (of_nat (length data) AND 0xff)) 0 remainder;
         (v0, v1, v2, v3) = sip_absorb last v;
         (v0, v1, v2, v3) = (sip_round ^^ 3) (v0, v1, v2 XOR 0xff, v3)
     in v0 XOR v1 XOR v2 XOR v3)"

section \<open>Evaluating the hash\<close>

text \<open>A rotation as the two shifts the simplifier computes.\<close>

lemma word_rotl_shifts_len:
  fixes w :: "'a::len word"
  assumes "n < LENGTH('a)"
  shows "word_rotl n w = push_bit n w OR drop_bit (LENGTH('a) - n) w"
proof (rule bit_word_eqI)
  fix k assume k: "k < LENGTH('a)"
  show "bit (word_rotl n w) k \<longleftrightarrow> bit (push_bit n w OR drop_bit (LENGTH('a) - n) w) k"
  proof (cases "k < n")
    case True
    with assms have "(k + (LENGTH('a) - n)) mod LENGTH('a) = LENGTH('a) - n + k" by simp
    with True assms k show ?thesis by (simp add: bit_word_rotl_iff bit_simps)
  next
    case False
    then have "k + (LENGTH('a) - n) = LENGTH('a) + (k - n)" using assms by simp
    then have "(k + (LENGTH('a) - n)) mod LENGTH('a) = k - n" using k by (simp add: mod_if)
    moreover have "\<not> bit w (LENGTH('a) - n + k)" using False assms by (auto dest: bit_imp_le_length)
    ultimately show ?thesis using False assms k by (simp add: bit_word_rotl_iff bit_simps)
  qed
qed

lemma word_rotl_shifts: "n < 64 \<Longrightarrow> word_rotl n w = push_bit n w OR drop_bit (64 - n) w" for w :: u64
  using word_rotl_shifts_len [of n w] by simp

lemma sip_chunks_short [simp]: "length data < 8 \<Longrightarrow> sip_chunks v data = (v, data)"
  by (subst sip_chunks.simps) simp

lemma sip_chunks_long [simp]:
  "8 \<le> length data \<Longrightarrow>
   sip_chunks v data = sip_chunks (sip_absorb (from_le_bytes (take 8 data)) v) (drop 8 data)"
  by (subst sip_chunks.simps) simp

text \<open>
  The hash of a concrete key is evaluated by the simplifier.  To keep every intermediate state a
  numeral, the round is cut into four steps that are applied one after the other.
\<close>

fun sip_step1 :: "sip_state \<Rightarrow> sip_state" where
  "sip_step1 (v0, v1, v2, v3) = (v0 + v1, word_rotl 13 v1, v2 + v3, word_rotl 16 v3)"

fun sip_step2 :: "sip_state \<Rightarrow> sip_state" where
  "sip_step2 (v0, v1, v2, v3) = (word_rotl 32 v0, v1 XOR v0, v2, v3 XOR v2)"

fun sip_step3 :: "sip_state \<Rightarrow> sip_state" where
  "sip_step3 (v0, v1, v2, v3) = (v0 + v3, word_rotl 17 v1, v2 + v1, word_rotl 21 v3)"

fun sip_step4 :: "sip_state \<Rightarrow> sip_state" where
  "sip_step4 (v0, v1, v2, v3) = (v0, v1 XOR v2, word_rotl 32 v2, v3 XOR v0)"

lemma sip_round_steps: "sip_round v = sip_step4 (sip_step3 (sip_step2 (sip_step1 v)))"
  by (cases v) (simp add: Let_def)

fun sip_xor0 :: "u64 \<Rightarrow> sip_state \<Rightarrow> sip_state" where
  "sip_xor0 m (v0, v1, v2, v3) = (v0 XOR m, v1, v2, v3)"

fun sip_xor3 :: "u64 \<Rightarrow> sip_state \<Rightarrow> sip_state" where
  "sip_xor3 m (v0, v1, v2, v3) = (v0, v1, v2, v3 XOR m)"

fun sip_finish :: "sip_state \<Rightarrow> u64" where
  "sip_finish (v0, v1, v2, v3) = v0 XOR v1 XOR v2 XOR v3"

fun sip_xor2 :: "u64 \<Rightarrow> sip_state \<Rightarrow> sip_state" where
  "sip_xor2 m (v0, v1, v2, v3) = (v0, v1, v2 XOR m, v3)"

lemma sip_absorb_steps: "sip_absorb m v = sip_xor0 m (sip_round (sip_xor3 m v))"
  by (cases v) (simp add: sip_absorb_def split: prod.split)

fun sip_close :: "u64 \<Rightarrow> sip_state \<times> bytes \<Rightarrow> sip_state" where
  "sip_close acc (v, remainder) = sip_xor2 0xff (sip_absorb (sip_last acc 0 remainder) v)"

lemma siphash_steps:
  "siphash data = sip_finish (sip_round (sip_round (sip_round
     (sip_close (push_bit 56 (of_nat (length data) AND 0xff)) (sip_chunks sip_init data)))))"
  by (simp add: siphash_def numeral_3_eq_3 split: prod.split del: sip_round.simps)

lemma sip_init_eval: "sip_init = (0, 0, 2239988860284442388, 1155760456901593630)"
  by (simp add: sip_init_def)

lemmas siphash_eval = siphash_steps sip_absorb_steps sip_init_eval sip_round_steps word_rotl_shifts
  ascii_def

declare sip_round.simps [simp del]

section \<open>The round is a permutation\<close>

fun sip_round_inv :: "sip_state \<Rightarrow> sip_state" where
  "sip_round_inv (v0, v1, v2, v3) =
    (let v2 = word_rotr 32 v2;
         v1 = v1 XOR v2;
         v1 = word_rotr 17 v1;
         v2 = v2 - v1;
         v3 = v3 XOR v0;
         v3 = word_rotr 21 v3;
         v0 = v0 - v3;
         v3 = v3 XOR v2;
         v3 = word_rotr 16 v3;
         v2 = v2 - v3;
         v0 = word_rotr 32 v0;
         v1 = v1 XOR v0;
         v1 = word_rotr 13 v1;
         v0 = v0 - v1
     in (v0, v1, v2, v3))"

lemma sip_round_inv_left: "sip_round_inv (sip_round v) = v"
  by (cases v) (simp add: sip_round.simps Let_def)

lemma sip_round_inv_right: "sip_round (sip_round_inv v) = v"
  by (cases v) (simp add: sip_round.simps Let_def)

lemma sip_absorb_inj: "inj (sip_absorb m)"
proof (rule injI)
  fix v w assume eq: "sip_absorb m v = sip_absorb m w"
  then have "sip_xor0 m (sip_absorb m v) = sip_xor0 m (sip_absorb m w)" by simp
  moreover have "sip_xor0 m (sip_absorb m u) = sip_round (sip_xor3 m u)" for u
    by (cases "sip_round (sip_xor3 m u)") (simp add: sip_absorb_steps)
  ultimately have "sip_round (sip_xor3 m v) = sip_round (sip_xor3 m w)" by simp
  then have "sip_xor3 m v = sip_xor3 m w"
    by (metis sip_round_inv_left)
  moreover have "sip_xor3 m (sip_xor3 m u) = u" for u by (cases u) simp
  ultimately show "v = w" by metis
qed

section \<open>The reference function\<close>

text \<open>
  SipHash-c-d as its authors define it: the message is padded with zeros and its length modulo
  256 to a whole number of 64-bit little-endian words, every word is absorbed with \<open>c\<close> rounds,
  and \<open>d\<close> rounds close the computation.
\<close>

function le_words :: "bytes \<Rightarrow> u64 list" where
  "le_words bs = (if length bs < 8 then [] else from_le_bytes (take 8 bs) # le_words (drop 8 bs))"
  by pat_completeness auto
termination
  by (relation "measure length") auto

declare le_words.simps [simp del]

definition sip_pad :: "bytes \<Rightarrow> bytes" where
  "sip_pad m = m @ replicate (7 - length m mod 8) 0 @ [of_nat (length m)]"

definition sip_compress :: "nat \<Rightarrow> u64 \<Rightarrow> sip_state \<Rightarrow> sip_state" where
  "sip_compress c m v = sip_xor0 m ((sip_round ^^ c) (sip_xor3 m v))"

definition sip_reference :: "nat \<Rightarrow> nat \<Rightarrow> u64 \<Rightarrow> u64 \<Rightarrow> bytes \<Rightarrow> u64" where
  "sip_reference c d k0 k1 m =
    sip_finish ((sip_round ^^ d) (sip_xor2 0xff
      (fold (sip_compress c) (le_words (sip_pad m))
        (k0 XOR 0x736f6d6570736575, k1 XOR 0x646f72616e646f6d,
         k0 XOR 0x6c7967656e657261, k1 XOR 0x7465646279746573))))"

lemma sip_compress_1: "sip_compress 1 = sip_absorb"
  by (simp add: fun_eq_iff sip_compress_def sip_absorb_steps)

lemma le_words_short [simp]: "length bs < 8 \<Longrightarrow> le_words bs = []"
  by (subst le_words.simps) simp

lemma le_words_long:
  "8 \<le> length bs \<Longrightarrow> le_words bs = from_le_bytes (take 8 bs) # le_words (drop 8 bs)"
  by (subst le_words.simps) simp

text \<open>The chunk loop absorbs the whole words of the message and leaves the rest.\<close>

lemma sip_chunks_spec:
  assumes "length xs < 8" "length bs mod 8 = 0"
  shows "sip_chunks v (bs @ xs) = (fold sip_absorb (le_words bs) v, xs)"
  using assms
proof (induction bs arbitrary: v rule: le_words.induct)
  case (1 bs)
  show ?case
  proof (cases "length bs < 8")
    case True
    with "1.prems" have "bs = []" by simp
    with "1.prems" show ?thesis by simp
  next
    case False
    with "1.prems" have "(length (drop 8 bs)) mod 8 = 0" by (simp add: mod_if)
    with 1 False show ?thesis by (simp add: le_words_long)
  qed
qed

lemma le_words_append:
  assumes "length bs mod 8 = 0"
  shows "le_words (bs @ ws) = le_words bs @ le_words ws"
  using assms
proof (induction bs rule: le_words.induct)
  case (1 bs)
  show ?case
  proof (cases "length bs < 8")
    case True
    with "1.prems" have "bs = []" by simp
    then show ?thesis by simp
  next
    case False
    with "1.prems" have "(length (drop 8 bs)) mod 8 = 0" by (simp add: mod_if)
    with 1 False show ?thesis by (simp add: le_words_long)
  qed
qed

text \<open>Little-endian words of concatenated byte strings, and the loop over the remainder.\<close>

lemma from_le_bytes_append:
  "from_le_bytes (xs @ ys) = from_le_bytes xs OR push_bit (8 * length xs) (from_le_bytes ys)"
  by (induction xs) (simp_all add: push_bit_or push_bit_push_bit or.assoc add.commute)

lemma from_le_bytes_zeros [simp]: "from_le_bytes (replicate n 0) = 0"
  by (induction n) simp_all

lemma sip_last_spec: "sip_last acc i bs = acc OR push_bit (8 * i) (from_le_bytes bs)"
  by (induction bs arbitrary: acc i)
    (simp_all add: push_bit_or push_bit_push_bit or.assoc mult.commute add.commute)

lemma ucast_length_byte: "ucast (of_nat n :: u8) = (of_nat n AND 0xff :: u64)"
proof -
  have "ucast (of_nat n :: u8) = take_bit 8 (of_nat n :: u64)"
    by (rule bit_word_eqI) (auto simp: bit_simps)
  also have "\<dots> = of_nat n AND 0xff"
    by (simp add: take_bit_eq_mask mask_eq_exp_minus_1)
  finally show ?thesis .
qed

lemma last_word_spec:
  assumes "length xs + m = 7"
  shows "sip_last (push_bit 56 (of_nat n AND 0xff)) 0 xs =
    from_le_bytes (xs @ replicate m 0 @ [of_nat n])"
proof -
  have "8 * length xs + 8 * m = 56" using assms by simp
  then have "from_le_bytes (xs @ replicate m 0 @ [of_nat n]) =
      from_le_bytes xs OR push_bit 56 (ucast (of_nat n :: u8))"
    by (simp add: from_le_bytes_append push_bit_push_bit)
  then show ?thesis
    by (simp add: sip_last_spec ucast_length_byte or.commute)
qed

lemma le_words_single: "length bs = 8 \<Longrightarrow> le_words bs = [from_le_bytes bs]"
  by (simp add: le_words_long)


section \<open>Collisions\<close>

text \<open>
  A 64-bit fingerprint cannot separate all keys: by counting, there are two different keys of nine
  bytes, well inside the limit of 128, with the same hash.  The hash map has to compare keys.
\<close>

lemma card_bytes_of_length: "card {k :: bytes. length k = n} = 256 ^ n"
  using card_lists_length_eq [of "UNIV :: u8 set" n] by (simp add: card_word)

lemma siphash_collision:
  "\<exists>k1 k2. k1 \<noteq> k2 \<and> length k1 = 9 \<and> length k2 = 9 \<and> siphash k1 = siphash k2"
proof -
  let ?A = "{k :: bytes. length k = 9}"
  have "card (siphash ` ?A) \<le> card (UNIV :: u64 set)" by (intro card_mono) auto
  also have "\<dots> = 2 ^ 64" by (simp add: card_word)
  also have "\<dots> < card ?A" by (simp add: card_bytes_of_length)
  finally have "\<not> inj_on siphash ?A" by (rule pigeonhole)
  then show ?thesis by (auto simp: inj_on_def)
qed

end
