(* ===== verification/Slot.thy ===== *)
theory Slot
  imports Memlane_Prelude
begin

text \<open>
  \<open>src/slot.rs\<close>: one fixed-size slot of the shared array, its state flag, its accessors, and the
  \<open>repr(C)\<close> layout its size follows from.  The padding arrays \<open>_pad0\<close> and \<open>_pad1\<close> are never read
  or written and appear in the layout only.
\<close>

section \<open>The slot\<close>

definition MAX_KEY_LEN :: nat where [model_consts]: "MAX_KEY_LEN = 128"
definition MAX_VAL_LEN :: nat where [model_consts]: "MAX_VAL_LEN = 1024"

definition STATE_EMPTY :: u8 where [model_consts]: "STATE_EMPTY = 0"
definition STATE_OCCUPIED :: u8 where [model_consts]: "STATE_OCCUPIED = 1"
definition STATE_TOMBSTONE :: u8 where [model_consts]: "STATE_TOMBSTONE = 2"

record slot =
  state :: u8
  fingerprint :: u64
  expires_at_ms :: u64
  key_len :: u64
  val_len :: u64
  key_buf :: bytes
  val_buf :: bytes

definition init :: "slot \<Rightarrow> slot" where
  "init s = s\<lparr>state := STATE_EMPTY, fingerprint := 0, expires_at_ms := 0, key_len := 0, val_len := 0\<rparr>"

definition is_empty :: "slot \<Rightarrow> bool" where
  "is_empty s \<longleftrightarrow> state s = STATE_EMPTY"

definition is_occupied :: "slot \<Rightarrow> bool" where
  "is_occupied s \<longleftrightarrow> state s = STATE_OCCUPIED"

definition is_tombstone :: "slot \<Rightarrow> bool" where
  "is_tombstone s \<longleftrightarrow> state s = STATE_TOMBSTONE"

definition read_key :: "slot \<Rightarrow> bytes" where
  "read_key s = (let len = unat (key_len s) in take (min len MAX_KEY_LEN) (key_buf s))"

definition read_value :: "slot \<Rightarrow> bytes" where
  "read_value s = (let len = unat (val_len s) in take (min len MAX_VAL_LEN) (val_buf s))"

definition write_key :: "bytes \<Rightarrow> slot \<Rightarrow> slot" where
  "write_key key s =
    (let len = min (length key) MAX_KEY_LEN
     in s\<lparr>key_buf := copy_prefix (key_buf s) (take len key), key_len := of_nat len\<rparr>)"

definition write_value :: "bytes \<Rightarrow> slot \<Rightarrow> slot" where
  "write_value val s =
    (let len = min (length val) MAX_VAL_LEN
     in s\<lparr>val_buf := copy_prefix (val_buf s) (take len val), val_len := of_nat len\<rparr>)"

text \<open>
  \<open>AtomicU8::compare_exchange\<close> on the state flag: the new state and whether the exchange took
  place (\<open>Ok\<close>) or not (\<open>Err\<close>).
\<close>

definition compare_exchange_state :: "u8 \<Rightarrow> u8 \<Rightarrow> slot \<Rightarrow> slot \<times> bool" where
  "compare_exchange_state cur new s = (if state s = cur then (s\<lparr>state := new\<rparr>, True) else (s, False))"

section \<open>Well-formed slots\<close>

text \<open>The buffers are Rust arrays, so their lengths are fixed; the recorded lengths fit them.\<close>

definition slot_wf :: "slot \<Rightarrow> bool" where
  "slot_wf s \<longleftrightarrow> length (key_buf s) = MAX_KEY_LEN \<and> length (val_buf s) = MAX_VAL_LEN \<and>
    unat (key_len s) \<le> MAX_KEY_LEN \<and> unat (val_len s) \<le> MAX_VAL_LEN"

text \<open>The slot that a page of zeros is, as the operating system hands it out.\<close>

definition blank_slot :: slot where
  "blank_slot = \<lparr>state = 0, fingerprint = 0, expires_at_ms = 0, key_len = 0, val_len = 0,
    key_buf = replicate MAX_KEY_LEN 0, val_buf = replicate MAX_VAL_LEN 0\<rparr>"

lemma slot_wf_blank [wf_intros]: "slot_wf blank_slot"
  by (simp add: slot_wf_def blank_slot_def)

lemma state_distinct [simp]:
  "STATE_EMPTY \<noteq> STATE_OCCUPIED" "STATE_EMPTY \<noteq> STATE_TOMBSTONE" "STATE_OCCUPIED \<noteq> STATE_TOMBSTONE"
  "STATE_OCCUPIED \<noteq> STATE_EMPTY" "STATE_TOMBSTONE \<noteq> STATE_EMPTY" "STATE_TOMBSTONE \<noteq> STATE_OCCUPIED"
  by (simp_all add: model_consts)

lemma slot_wf_state [simp]: "slot_wf (s\<lparr>state := x\<rparr>) = slot_wf s"
  by (simp add: slot_wf_def)

lemma slot_wf_fingerprint [simp]: "slot_wf (s\<lparr>fingerprint := x\<rparr>) = slot_wf s"
  by (simp add: slot_wf_def)

lemma slot_wf_expires [simp]: "slot_wf (s\<lparr>expires_at_ms := x\<rparr>) = slot_wf s"
  by (simp add: slot_wf_def)

lemma slot_wf_init [wf_intros]: "slot_wf s \<Longrightarrow> slot_wf (init s)"
  by (simp add: slot_wf_def init_def)

lemma slot_wf_write_key [wf_intros]: "slot_wf s \<Longrightarrow> slot_wf (write_key key s)"
  by (simp add: slot_wf_def write_key_def Let_def model_consts)

lemma slot_wf_write_value [wf_intros]: "slot_wf s \<Longrightarrow> slot_wf (write_value val s)"
  by (simp add: slot_wf_def write_value_def Let_def model_consts)

section \<open>Reading back what was written\<close>

lemma read_key_frame [slot_simps]:
  "read_key (s\<lparr>state := a\<rparr>) = read_key s"
  "read_key (s\<lparr>fingerprint := b\<rparr>) = read_key s"
  "read_key (s\<lparr>expires_at_ms := b\<rparr>) = read_key s"
  "read_key (write_value v s) = read_key s"
  by (simp_all add: read_key_def write_value_def Let_def)

lemma read_value_frame [slot_simps]:
  "read_value (s\<lparr>state := a\<rparr>) = read_value s"
  "read_value (s\<lparr>fingerprint := b\<rparr>) = read_value s"
  "read_value (s\<lparr>expires_at_ms := b\<rparr>) = read_value s"
  "read_value (write_key v s) = read_value s"
  by (simp_all add: read_value_def write_key_def Let_def)

lemma write_fields [slot_simps]:
  "state (write_key k s) = state s" "state (write_value v s) = state s"
  "fingerprint (write_key k s) = fingerprint s" "fingerprint (write_value v s) = fingerprint s"
  "expires_at_ms (write_key k s) = expires_at_ms s" "expires_at_ms (write_value v s) = expires_at_ms s"
  by (simp_all add: write_key_def write_value_def Let_def)

lemma init_fields [slot_simps]:
  "state (init s) = STATE_EMPTY" "fingerprint (init s) = 0" "expires_at_ms (init s) = 0"
  "read_key (init s) = []" "read_value (init s) = []"
  by (simp_all add: init_def read_key_def read_value_def)

lemma min_of_nat_u64: "m \<le> 1024 \<Longrightarrow> unat (of_nat (min n m) :: u64) = min n m"
  by (rule unat_of_nat_u64) (simp add: min_def)

lemma read_write_key [slot_simps]: "read_key (write_key key s) = take MAX_KEY_LEN key"
proof -
  have "unat (of_nat (min (length key) MAX_KEY_LEN) :: u64) = min (length key) MAX_KEY_LEN"
    by (rule min_of_nat_u64) (simp add: model_consts)
  then show ?thesis
    by (simp add: read_key_def write_key_def Let_def copy_prefix_def min_def)
qed

lemma read_write_value [slot_simps]: "read_value (write_value val s) = take MAX_VAL_LEN val"
proof -
  have "unat (of_nat (min (length val) MAX_VAL_LEN) :: u64) = min (length val) MAX_VAL_LEN"
    by (rule min_of_nat_u64) (simp add: model_consts)
  then show ?thesis
    by (simp add: read_value_def write_value_def Let_def copy_prefix_def min_def)
qed

text \<open>
  Writing a key and a value into a slot, in the order of \<open>claim_slot\<close>, and reading them back
  gives the first 128 bytes of the key and the first 1024 bytes of the value (the silent
  truncation of the accessors), whatever the buffers held before, and keeps the slot well-formed.
\<close>

theorem slot_roundtrip:
  "read_key (write_value val (write_key key s)) = take MAX_KEY_LEN key \<and>
   read_value (write_value val (write_key key s)) = take MAX_VAL_LEN val \<and>
   (slot_wf s \<longrightarrow> slot_wf (write_value val (write_key key s)))"
  by (simp add: slot_simps wf_intros)

text \<open>An example with a key of one byte more than the limit.\<close>

theorem slot_roundtrip_witness:
  "read_key (write_value [7] (write_key (replicate 129 1) blank_slot)) = replicate 128 1 \<and>
   slot_wf (write_value [7] (write_key (replicate 129 1) blank_slot))"
  using slot_roundtrip [of "[7]" "replicate 129 1" blank_slot]
  by (simp add: slot_wf_blank MAX_KEY_LEN_def)

section \<open>Layout in memory\<close>

text \<open>
  \<open>repr(C)\<close>: fields in declaration order, each at the next multiple of its alignment, the whole
  rounded up to the largest alignment.  A field is given by its size and its alignment.
\<close>

definition align_up :: "nat \<Rightarrow> nat \<Rightarrow> nat" where
  "align_up n a = (n + a - 1) div a * a"

fun repr_c_offsets :: "nat \<Rightarrow> (nat \<times> nat) list \<Rightarrow> nat list" where
  "repr_c_offsets off [] = []"
| "repr_c_offsets off ((sz, al) # fs) =
    align_up off al # repr_c_offsets (align_up off al + sz) fs"

definition repr_c_align :: "(nat \<times> nat) list \<Rightarrow> nat" where
  "repr_c_align fs = foldr max (map snd fs) 1"

definition repr_c_size :: "(nat \<times> nat) list \<Rightarrow> nat" where
  "repr_c_size fs =
    (if fs = [] then 0
     else align_up (last (repr_c_offsets 0 fs) + fst (last fs)) (repr_c_align fs))"

text \<open>
  \<open>state, _pad0, fingerprint, expires_at_ms, key_len, val_len, key_buf, val_buf, _pad1\<close>.
\<close>

definition slot_layout :: "(nat \<times> nat) list" where
  "slot_layout = [(1, 1), (7, 1), (8, 8), (8, 8), (8, 8), (8, 8),
     (MAX_KEY_LEN, 1), (MAX_VAL_LEN, 1), (32, 1)]"

definition SLOT_SIZE :: nat where "SLOT_SIZE = repr_c_size slot_layout"

lemma slot_offsets: "repr_c_offsets 0 slot_layout = [0, 1, 8, 16, 24, 32, 40, 168, 1192]"
  by (simp add: slot_layout_def align_up_def model_consts)

lemma SLOT_SIZE_value [model_consts]: "SLOT_SIZE = 1224"
  by (simp add: SLOT_SIZE_def repr_c_size_def slot_offsets)
    (simp add: slot_layout_def repr_c_align_def align_up_def)

end
