(* ===== verification/Ttl.thy ===== *)
theory Ttl
  imports Slot
begin

text \<open>
  \<open>src/ttl.rs\<close>: expiry of slots.  The reading of the clock (\<open>now_ms\<close>, the system time in Unix
  milliseconds) is an argument \<open>now\<close> of every operation that takes one.  The \<open>u64\<close> arithmetic wraps,
  as in the release profile.
\<close>

text \<open>
  The system time is given in nanoseconds from the Unix epoch, negative before it, where \<open>expect\<close>
  panics; the milliseconds, a \<open>u128\<close>, are cut to 64 bits.
\<close>

definition now_ms :: "int \<Rightarrow> u64 option" where
  "now_ms system_time = (if system_time < 0 then None else Some (of_int (system_time div 1000000)))"

definition ttl_to_expiry :: "u64 \<Rightarrow> u64 \<Rightarrow> u64" where
  "ttl_to_expiry now ttl_secs = (if ttl_secs = 0 then 0 else now + ttl_secs * 1000)"

definition is_expired :: "u64 \<Rightarrow> slot \<Rightarrow> bool" where
  "is_expired now s = (let expiry = expires_at_ms s in if expiry = 0 then False else expiry \<le> now)"

definition lazy_evict_if_expired :: "u64 \<Rightarrow> slot \<Rightarrow> slot \<times> bool" where
  "lazy_evict_if_expired now s =
    (if \<not> is_expired now s then (s, False)
     else (fst (compare_exchange_state STATE_OCCUPIED STATE_TOMBSTONE s), True))"

definition remaining_ttl_ms :: "u64 \<Rightarrow> slot \<Rightarrow> u64 option" where
  "remaining_ttl_ms now s =
    (let expiry = expires_at_ms s
     in if expiry = 0 then None else if expiry \<le> now then None else Some (expiry - now))"

section \<open>Properties\<close>

text \<open>
  Readings of a clock that does not go back do not go back either, for 584 million years; this is
  what properties that compare readings ask for.
\<close>

lemma now_ms_reading: "0 \<le> t \<Longrightarrow> t div 1000000 < 2 ^ 64 \<Longrightarrow> \<exists>w. now_ms t = Some w \<and> uint w = t div 1000000"
  by (simp add: now_ms_def unsigned_of_int take_bit_int_eq_self)

lemma now_ms_mono:
  assumes "0 \<le> s" "s \<le> t" "t div 1000000 < 2 ^ 64" "now_ms s = Some v" "now_ms t = Some w"
  shows "v \<le> w"
proof -
  have "s div 1000000 \<le> t div 1000000" using assms(2) by (simp add: zdiv_mono1)
  then show ?thesis
    using now_ms_reading [of s] now_ms_reading [of t] assms by (auto simp: word_le_def)
qed

text \<open>Expiry of a stored timestamp, without the slot around it.\<close>

definition expired_at :: "u64 \<Rightarrow> u64 \<Rightarrow> bool" where
  "expired_at now e \<longleftrightarrow> e \<noteq> 0 \<and> e \<le> now"

lemma is_expired_iff: "is_expired now s \<longleftrightarrow> expired_at now (expires_at_ms s)"
  by (simp add: is_expired_def expired_at_def Let_def)

lemma expired_at_0 [simp]: "\<not> expired_at now 0"
  by (simp add: expired_at_def)

lemma expired_at_mono: "expired_at now e \<Longrightarrow> now \<le> later \<Longrightarrow> expired_at later e"
  by (auto simp: expired_at_def)

lemma is_expired_state [slot_simps]: "is_expired now (s\<lparr>state := x\<rparr>) = is_expired now s"
  by (simp add: is_expired_def)

lemma lazy_evict_result [slot_simps]: "snd (lazy_evict_if_expired now s) = is_expired now s"
  by (simp add: lazy_evict_if_expired_def)

lemma lazy_evict_live [slot_simps]: "\<not> is_expired now s \<Longrightarrow> lazy_evict_if_expired now s = (s, False)"
  by (simp add: lazy_evict_if_expired_def)

lemma lazy_evict_expired [slot_simps]:
  "is_expired now s \<Longrightarrow> state s = STATE_OCCUPIED \<Longrightarrow>
   lazy_evict_if_expired now s = (s\<lparr>state := STATE_TOMBSTONE\<rparr>, True)"
  by (simp add: lazy_evict_if_expired_def compare_exchange_state_def)

text \<open>
  As long as the sum stays below \<open>2 ^ 64\<close>, an entry stored with a time to live of \<open>ttl\<close>
  seconds at \<open>now\<close> is expired exactly from \<open>now + 1000 * ttl\<close> milliseconds on, and before that the
  remaining time is the distance to that instant.
\<close>

theorem ttl_to_expiry_exact:
  assumes "unat now + unat ttl * 1000 < 2 ^ 64" "ttl \<noteq> 0" "0 < now"
  shows "(is_expired t (s\<lparr>expires_at_ms := ttl_to_expiry now ttl\<rparr>) \<longleftrightarrow>
      unat now + unat ttl * 1000 \<le> unat t) \<and>
    (remaining_ttl_ms t (s\<lparr>expires_at_ms := ttl_to_expiry now ttl\<rparr>) =
      (if unat now + unat ttl * 1000 \<le> unat t then None
       else Some (of_nat (unat now + unat ttl * 1000 - unat t))))"
proof -
  have mult: "unat (ttl * 1000) = unat ttl * 1000"
    using assms(1) by (simp add: unat_word_ariths)
  then have sum: "unat (now + ttl * 1000) = unat now + unat ttl * 1000"
    using assms(1) by (simp add: unat_word_ariths)
  then have "now + ttl * 1000 \<noteq> 0"
    using assms(3) by (metis add_is_0 unat_eq_zero unat_0 word_gt_0)
  then show ?thesis
    using sum assms(2)
    by (simp add: is_expired_def remaining_ttl_ms_def ttl_to_expiry_def word_le_nat_alt
        not_le of_nat_diff flip: sum)
qed

theorem ttl_to_expiry_exact_witness:
  "\<not> is_expired 1700000001999 (blank_slot\<lparr>expires_at_ms := ttl_to_expiry 1700000000000 2\<rparr>) \<and>
   is_expired 1700000002000 (blank_slot\<lparr>expires_at_ms := ttl_to_expiry 1700000000000 2\<rparr>)"
  using ttl_to_expiry_exact [of 1700000000000 2 1700000001999 blank_slot]
    ttl_to_expiry_exact [of 1700000000000 2 1700000002000 blank_slot] by simp

text \<open>
  Without the bound the sum wraps: a time to live of 18446744073709551 seconds (584 million
  years), set at any present-day instant, is stored as an expiry in the past, so the entry is
  expired from the moment it is written.
\<close>

theorem ttl_overflow_expires_at_once:
  assumes "616 < now"
  shows "is_expired now (s\<lparr>expires_at_ms := ttl_to_expiry now 18446744073709551\<rparr>)"
proof -
  have "ttl_to_expiry now 18446744073709551 = now - 616"
    by (simp add: ttl_to_expiry_def)
  moreover have "now - 616 \<noteq> 0" "now - 616 \<le> now"
    using assms by (auto intro: word_sub_le order.strict_implies_order)
  ultimately show ?thesis by (simp add: is_expired_def)
qed

theorem ttl_overflow_expires_at_once_witness:
  "is_expired 1700000000000
    (blank_slot\<lparr>expires_at_ms := ttl_to_expiry 1700000000000 18446744073709551\<rparr>)"
  by (rule ttl_overflow_expires_at_once) simp

end
