(* ===== verification/Shm.thy ===== *)
theory Shm
  imports Slot
begin

text \<open>
  \<open>src/shm.rs\<close>: the shared memory region, a header page and a flat array of slots, its byte layout,
  and the functions that create, open and drop a mapping of it.

  A mapped region is a value of type \<open>arena\<close>: the header fields and the slot at each index (the
  array has no length in the source either: \<open>slot_ptr\<close> is pointer arithmetic, and indices from
  \<open>SLOT_COUNT\<close> on are outside the mapping).  The system calls are not part of the repository: what
  they return is an argument of the functions that make them, and the calls made are recorded.
\<close>

section \<open>The region\<close>

definition ARENA_MAGIC :: u64 where [model_consts]: "ARENA_MAGIC = 0x4D454D4C414E4500"
definition ARENA_VERSION :: u32 where [model_consts]: "ARENA_VERSION = 1"
definition SLOT_COUNT :: nat where "SLOT_COUNT = 65536"
definition PAGE_SIZE :: nat where [model_consts]: "PAGE_SIZE = 4096"
definition ARENA_SIZE :: nat where "ARENA_SIZE = PAGE_SIZE + SLOT_COUNT * SLOT_SIZE"

record arena_header =
  magic :: u64
  version :: u32
  slot_count :: u32
  used_count :: u64

record arena =
  header :: arena_header
  slots :: "nat \<Rightarrow> slot"

text \<open>Byte offset of a slot from the start of the mapping, as \<open>Arena::slot_ptr\<close> computes it.\<close>

definition slot_ptr :: "nat \<Rightarrow> nat" where
  "slot_ptr index = PAGE_SIZE + index * SLOT_SIZE"

text \<open>Access to a slot, and the effect of a change made through \<open>Arena::slot_mut\<close>.\<close>

definition slot :: "arena \<Rightarrow> nat \<Rightarrow> slot" where
  "slot a index = slots a index"

definition slot_mut :: "nat \<Rightarrow> (slot \<Rightarrow> slot) \<Rightarrow> arena \<Rightarrow> arena" where
  "slot_mut index f a = a\<lparr>slots := (slots a)(index := f (slots a index))\<rparr>"

lemma SLOT_COUNT_pos [simp]: "0 < SLOT_COUNT"
  by (simp add: SLOT_COUNT_def)

lemma slot_slot_mut [arena_simps]: "slot (slot_mut i f a) j = (if j = i then f (slot a i) else slot a j)"
  by (simp add: slot_def slot_mut_def)

lemma header_slot_mut [arena_simps]: "header (slot_mut i f a) = header a"
  by (simp add: slot_mut_def)

section \<open>Creating, opening and dropping a mapping\<close>

datatype syscall = ShmOpen bool | Ftruncate int nat | Mmap int nat | Munmap nat | Close int
  | UnmapViewOfFile | CloseHandle int

text \<open>The error strings of the source, one constructor each.\<close>

datatype shm_error = ShmOpenFailed int | FtruncateFailed | MmapFailed
  | ShmOpenMissing | MmapFailedOnOpen | InvalidMagic u64 | WindowsUnsupported

text \<open>The mapped region with the descriptor of the object, on Windows its handle.\<close>

record mapping =
  mem :: arena
  fd :: int

definition init_header :: "arena_header \<Rightarrow> arena_header" where
  "init_header h = h\<lparr>magic := ARENA_MAGIC, version := ARENA_VERSION,
     slot_count := of_nat SLOT_COUNT, used_count := 0\<rparr>"

text \<open>The loop over \<open>0..SLOT_COUNT\<close> that calls \<open>Slot::init\<close>.\<close>

definition init_slots :: "arena \<Rightarrow> arena" where
  "init_slots a = fold (\<lambda>i. slot_mut i init) [0..<SLOT_COUNT] a"

text \<open>
  \<open>create_arena\<close>: \<open>ret_open\<close>, \<open>errno\<close>, \<open>ret_trunc\<close> and \<open>ret_mmap\<close> are what \<open>shm_open\<close>,
  \<open>errno\<close>, \<open>ftruncate\<close> and \<open>mmap\<close> give; \<open>mmap\<close> gives \<open>None\<close> for \<open>MAP_FAILED\<close> and otherwise
  the content of the named object, which may already exist.
\<close>

definition create_arena ::
  "int \<Rightarrow> int \<Rightarrow> int \<Rightarrow> arena option \<Rightarrow> syscall list \<times> (shm_error + mapping)" where
  "create_arena ret_open errno ret_trunc ret_mmap =
    (if ret_open < 0 then ([ShmOpen True], Inl (ShmOpenFailed errno))
     else if ret_trunc < 0
       then ([ShmOpen True, Ftruncate ret_open ARENA_SIZE], Inl FtruncateFailed)
     else
       (case ret_mmap of
         None \<Rightarrow> ([ShmOpen True, Ftruncate ret_open ARENA_SIZE, Mmap ret_open ARENA_SIZE],
                  Inl MmapFailed)
       | Some m \<Rightarrow> ([ShmOpen True, Ftruncate ret_open ARENA_SIZE, Mmap ret_open ARENA_SIZE],
                  Inr \<lparr>mem = init_slots (m\<lparr>header := init_header (header m)\<rparr>), fd = ret_open\<rparr>)))"

definition open_arena :: "int \<Rightarrow> arena option \<Rightarrow> syscall list \<times> (shm_error + mapping)" where
  "open_arena ret_open ret_mmap =
    (if ret_open < 0 then ([ShmOpen False], Inl ShmOpenMissing)
     else
       (case ret_mmap of
         None \<Rightarrow> ([ShmOpen False, Mmap ret_open ARENA_SIZE], Inl MmapFailedOnOpen)
       | Some m \<Rightarrow>
           ([ShmOpen False, Mmap ret_open ARENA_SIZE],
            if magic (header m) \<noteq> ARENA_MAGIC then Inl (InvalidMagic (magic (header m)))
            else Inr \<lparr>mem = m, fd = ret_open\<rparr>)))"

text \<open>\<open>Drop for Arena\<close>.\<close>

definition drop_arena :: "mapping \<Rightarrow> syscall list" where
  "drop_arena m = [Munmap ARENA_SIZE, Close (fd m)]"

text \<open>
  The same functions as they are compiled for Windows: there are no arenas, so that the code that
  would release one never runs.
\<close>

definition create_arena_windows :: "syscall list \<times> (shm_error + mapping)" where
  "create_arena_windows = ([], Inl WindowsUnsupported)"

definition open_arena_windows :: "syscall list \<times> (shm_error + mapping)" where
  "open_arena_windows = ([], Inl WindowsUnsupported)"

definition drop_arena_windows :: "mapping \<Rightarrow> syscall list" where
  "drop_arena_windows m = [UnmapViewOfFile, CloseHandle (fd m)]"

lemma no_arena_on_windows: "snd create_arena_windows \<noteq> Inr m" "snd open_arena_windows \<noteq> Inr m"
  by (simp_all add: create_arena_windows_def open_arena_windows_def)

text \<open>
  \<open>build.rs\<close>: the lines it prints for Cargo.  It is compiled for the machine that builds, so the
  branches follow the host and not the system the library is built for.
\<close>

datatype host_os = WindowsHost | LinuxHost | OtherHost

definition build_script :: "host_os \<Rightarrow> bytes list" where
  "build_script host =
    [ascii ''cargo:rerun-if-changed=src/'', ascii ''cargo:rerun-if-changed=build.rs''] @
    (if host = WindowsHost then [ascii ''cargo:rustc-link-lib=kernel32''] else []) @
    (if host = LinuxHost then [ascii ''cargo:rustc-link-lib=rt''] else [])"

text \<open>The library with \<open>shm_open\<close> is linked exactly on Linux.\<close>

lemma build_script_links_rt: "ascii ''cargo:rustc-link-lib=rt'' \<in> set (build_script host) \<longleftrightarrow> host = LinuxHost"
  by (simp add: build_script_def ascii_def)

section \<open>A fresh region\<close>

lemma fold_slot_mut:
  "slot (fold (\<lambda>i. slot_mut i f) [lo..<hi] a) j = (if lo \<le> j \<and> j < hi then f (slot a j) else slot a j)"
  by (induction hi) (auto simp: arena_simps less_Suc_eq)

lemma header_fold_slot_mut [arena_simps]: "header (fold (\<lambda>i. slot_mut i f) is a) = header a"
  by (induction "is" arbitrary: a) (simp_all add: arena_simps)

lemma slot_init_slots [arena_simps]:
  "slot (init_slots a) i = (if i < SLOT_COUNT then init (slot a i) else slot a i)"
  by (simp add: init_slots_def fold_slot_mut)

lemma slot_header_update [arena_simps]: "slot (header_update f a) = slot a"
  by (simp add: fun_eq_iff slot_def)

lemma header_init_slots [arena_simps]: "header (init_slots a) = header a"
  by (simp add: init_slots_def arena_simps)

lemma create_arena_ok:
  "snd (create_arena ret_open errno ret_trunc ret_mmap) = Inr m \<longleftrightarrow>
   (0 \<le> ret_open \<and> 0 \<le> ret_trunc \<and> (\<exists>m0. ret_mmap = Some m0 \<and>
     m = \<lparr>mem = init_slots (m0\<lparr>header := init_header (header m0)\<rparr>), fd = ret_open\<rparr>))"
  by (auto simp: create_arena_def split: option.split)

text \<open>
  Creating an arena wipes it.  Whenever \<open>create_arena\<close> succeeds, whatever the named object
  held before (it is opened without \<open>O_EXCL\<close>, so it may be one that other processes use), every slot
  of the result is empty, the header is valid with a count of zero, and \<open>open_arena\<close> accepts the
  region and leaves it as it is.
\<close>

theorem create_arena_initialises:
  assumes "snd (create_arena ret_open errno ret_trunc ret_mmap) = Inr m"
  shows "(\<forall>i<SLOT_COUNT. is_empty (slot (mem m) i)) \<and>
    header (mem m) = \<lparr>magic = ARENA_MAGIC, version = ARENA_VERSION,
      slot_count = 65536, used_count = 0\<rparr> \<and>
    (0 \<le> ret \<longrightarrow> snd (open_arena ret (Some (mem m))) = Inr \<lparr>mem = mem m, fd = ret\<rparr>)"
proof -
  obtain m0 where m: "m = \<lparr>mem = init_slots (m0\<lparr>header := init_header (header m0)\<rparr>), fd = ret_open\<rparr>"
    using assms by (auto simp: create_arena_ok)
  show ?thesis
    unfolding m by (auto simp: arena_simps slot_simps is_empty_def init_header_def open_arena_def
        SLOT_COUNT_def)
qed

definition blank_arena :: arena where
  "blank_arena = \<lparr>header = \<lparr>magic = 0, version = 0, slot_count = 0, used_count = 0\<rparr>,
    slots = (\<lambda>_. blank_slot)\<rparr>"

theorem create_arena_initialises_witness:
  "is_empty (slot (mem \<lparr>mem = init_slots (blank_arena\<lparr>header := init_header (header blank_arena)\<rparr>),
     fd = 3\<rparr>) 7)"
  using create_arena_initialises [of 3 0 0 "Some blank_arena"
      "\<lparr>mem = init_slots (blank_arena\<lparr>header := init_header (header blank_arena)\<rparr>), fd = 3\<rparr>" 0]
  by (simp add: create_arena_ok SLOT_COUNT_def)

text \<open>
  A failure after \<open>shm_open\<close> leaks the descriptor.  Whenever \<open>create_arena\<close> or \<open>open_arena\<close>
  has opened the object and then returns an error, no call of the trace closes what was opened.
\<close>

theorem failed_mapping_leaks_fd:
  assumes "0 \<le> ret_open"
    and "(tr, Inl e) = create_arena ret_open errno ret_trunc ret_mmap \<or>
         (tr, Inl e) = open_arena ret_open ret_mmap"
  shows "(\<exists>c. ShmOpen c \<in> set tr) \<and> (\<forall>f. Close f \<notin> set tr)"
  using assms by (auto simp: create_arena_def open_arena_def split: if_splits option.splits)

theorem failed_mapping_leaks_fd_witness:
  "\<forall>f. Close f \<notin> set [ShmOpen True, Ftruncate 3 ARENA_SIZE]"
  using failed_mapping_leaks_fd [of 3 "[ShmOpen True, Ftruncate 3 ARENA_SIZE]" FtruncateFailed 0 "- 1" None]
  by (simp add: create_arena_def)

text \<open>The version and the slot count of a region that is opened are not looked at.\<close>

lemma open_arena_ignores_version:
  assumes "0 \<le> ret_open" "magic (header m) = ARENA_MAGIC"
  shows "snd (open_arena ret_open (Some (m\<lparr>header := (header m)\<lparr>version := v, slot_count := n\<rparr>\<rparr>))) =
    Inr \<lparr>mem = m\<lparr>header := (header m)\<lparr>version := v, slot_count := n\<rparr>\<rparr>, fd = ret_open\<rparr>"
  using assms by (simp add: open_arena_def)

section \<open>Layout\<close>

text \<open>\<open>magic, version, slot_count, used_count, _pad\<close>.\<close>

definition header_layout :: "(nat \<times> nat) list" where
  "header_layout = [(8, 8), (4, 4), (4, 4), (8, 8), (PAGE_SIZE - 24, 1)]"

lemma header_size: "repr_c_size header_layout = PAGE_SIZE"
  by (simp add: header_layout_def repr_c_size_def align_up_def repr_c_align_def model_consts)

text \<open>
  The header fills exactly one page, and the slots are laid out behind it without overlap,
  within the mapping and aligned for their 64-bit atomics: for two indices below \<open>SLOT_COUNT\<close> the
  byte ranges of the slots are disjoint, start at or after the header page, end within
  \<open>ARENA_SIZE\<close>, and start at a multiple of the alignment of \<open>Slot\<close>.
\<close>

theorem arena_layout:
  assumes "i < SLOT_COUNT" "j < SLOT_COUNT" "i \<noteq> j"
  shows "repr_c_size header_layout = PAGE_SIZE \<and>
    {slot_ptr i..<slot_ptr i + SLOT_SIZE} \<inter> {slot_ptr j..<slot_ptr j + SLOT_SIZE} = {} \<and>
    repr_c_size header_layout \<le> slot_ptr i \<and> slot_ptr i + SLOT_SIZE \<le> ARENA_SIZE \<and>
    slot_ptr i mod repr_c_align slot_layout = 0"
proof -
  have step: "slot_ptr m + SLOT_SIZE \<le> slot_ptr n" if "m < n" for m n
    using that by (simp add: slot_ptr_def SLOT_SIZE_value)
  consider "slot_ptr i + SLOT_SIZE \<le> slot_ptr j" | "slot_ptr j + SLOT_SIZE \<le> slot_ptr i"
    using step [of i j] step [of j i] assms(3) by linarith
  then have "{slot_ptr i..<slot_ptr i + SLOT_SIZE} \<inter> {slot_ptr j..<slot_ptr j + SLOT_SIZE} = {}"
    by cases auto
  moreover have "slot_ptr i + SLOT_SIZE \<le> ARENA_SIZE"
    using assms(1) by (simp add: slot_ptr_def ARENA_SIZE_def SLOT_SIZE_value)
  moreover have "repr_c_align slot_layout = 8"
    by (simp add: repr_c_align_def slot_layout_def)
  then have "slot_ptr i mod repr_c_align slot_layout = 0"
    by (simp add: slot_ptr_def model_consts mod_simps)
  ultimately show ?thesis by (simp add: header_size) (simp add: slot_ptr_def)
qed

theorem arena_layout_witness:
  "{slot_ptr 0..<slot_ptr 0 + SLOT_SIZE} \<inter> {slot_ptr 65535..<slot_ptr 65535 + SLOT_SIZE} = {}"
  using arena_layout [of 0 65535] by (simp add: SLOT_COUNT_def)

end
