(* ===== verification/Hashmap.thy ===== *)
theory Hashmap
  imports SipHash Ttl Shm
begin

text \<open>
  \<open>src/hashmap.rs\<close>: the open-addressing hash map over the slot array.  Every operation takes the
  arena and returns it with its result; \<open>now\<close> is the reading of the system clock, taken once per
  operation (the operations last far less than the millisecond the clock counts).  The probe loops
  \<open>for i in 0..SLOT_COUNT\<close> are recursive functions of the loop index.

  The operations are modelled as one thread runs them, so a compare-and-exchange sees the state
  that was just loaded; its failure branch is in the model all the same.
\<close>

section \<open>Probe sequence\<close>

definition probe_start :: "u64 \<Rightarrow> nat" where
  "probe_start hash = unat hash AND (SLOT_COUNT - 1)"

definition probe :: "u64 \<Rightarrow> nat \<Rightarrow> nat" where
  "probe hash i = (probe_start hash + i) AND (SLOT_COUNT - 1)"

definition primary_index :: "bytes \<Rightarrow> nat" where
  "primary_index key = unat (siphash key) AND (SLOT_COUNT - 1)"

section \<open>Results\<close>

datatype get_result = Found bytes | NotFound | Expired
datatype set_result = Inserted | Updated | Full
datatype del_result = Deleted | DelNotFound

section \<open>Operations\<close>

function get_loop :: "u64 \<Rightarrow> u64 \<Rightarrow> bytes \<Rightarrow> nat \<Rightarrow> arena \<Rightarrow> arena \<times> get_result" where
  "get_loop now hash key i a =
    (if i < SLOT_COUNT then
       let idx = probe hash i;
           st = state (slot a idx)
       in if st = STATE_EMPTY then (a, NotFound)
          else if st = STATE_TOMBSTONE then get_loop now hash key (Suc i) a
          else if st = STATE_OCCUPIED then
            (if fingerprint (slot a idx) \<noteq> hash then get_loop now hash key (Suc i) a
             else if snd (lazy_evict_if_expired now (slot a idx))
               then (slot_mut idx (\<lambda>s. fst (lazy_evict_if_expired now s)) a, Expired)
             else if read_key (slot a idx) \<noteq> key then get_loop now hash key (Suc i) a
             else (a, Found (read_value (slot a idx))))
          else get_loop now hash key (Suc i) a
     else (a, NotFound))"
  by pat_completeness auto
termination
  by (relation "measure (\<lambda>(now, hash, key, i, a). SLOT_COUNT - i)") auto

definition hashmap_get :: "u64 \<Rightarrow> bytes \<Rightarrow> arena \<Rightarrow> arena \<times> get_result" where
  "hashmap_get now key a = get_loop now (siphash key) key 0 a"

definition claim_slot :: "u64 \<Rightarrow> bytes \<Rightarrow> bytes \<Rightarrow> u64 \<Rightarrow> slot \<Rightarrow> slot" where
  "claim_slot fp key val expiry s =
    (let s = write_key key s;
         s = write_value val s;
         s = s\<lparr>fingerprint := fp\<rparr>;
         s = s\<lparr>expires_at_ms := expiry\<rparr>
     in s\<lparr>state := STATE_OCCUPIED\<rparr>)"

text \<open>\<open>fetch_add\<close> and \<open>fetch_sub\<close> on \<open>used_count\<close> wrap around.\<close>

definition add_used :: "u64 \<Rightarrow> arena \<Rightarrow> arena" where
  "add_used d a = a\<lparr>header := (header a)\<lparr>used_count := used_count (header a) + d\<rparr>\<rparr>"

function set_loop ::
  "u64 \<Rightarrow> u64 \<Rightarrow> bytes \<Rightarrow> bytes \<Rightarrow> u64 \<Rightarrow> nat option \<Rightarrow> nat \<Rightarrow> arena \<Rightarrow> arena \<times> set_result" where
  "set_loop now hash key val expiry first_tombstone i a =
    (if i < SLOT_COUNT then
       let idx = probe hash i;
           st = state (slot a idx);
           or_idx = (case first_tombstone of None \<Rightarrow> Some idx | Some t \<Rightarrow> Some t)
       in if st = STATE_EMPTY then
            let target_idx = (case first_tombstone of None \<Rightarrow> idx | Some t \<Rightarrow> t)
            in (add_used 1 (slot_mut target_idx (claim_slot hash key val expiry) a), Inserted)
          else if st = STATE_TOMBSTONE then
            set_loop now hash key val expiry or_idx (Suc i) a
          else if st = STATE_OCCUPIED then
            (if fingerprint (slot a idx) \<noteq> hash
               then set_loop now hash key val expiry first_tombstone (Suc i) a
             else if snd (lazy_evict_if_expired now (slot a idx))
               then set_loop now hash key val expiry or_idx (Suc i)
                 (slot_mut idx (\<lambda>s. fst (lazy_evict_if_expired now s)) a)
             else if read_key (slot a idx) \<noteq> key
               then set_loop now hash key val expiry first_tombstone (Suc i) a
             else (slot_mut idx (\<lambda>s. (write_value val s)\<lparr>expires_at_ms := expiry\<rparr>) a, Updated))
          else set_loop now hash key val expiry first_tombstone (Suc i) a
     else
       (case first_tombstone of
         Some t_idx \<Rightarrow> (slot_mut t_idx (claim_slot hash key val expiry) a, Inserted)
       | None \<Rightarrow> (a, Full)))"
  by pat_completeness auto
termination
  by (relation "measure (\<lambda>(now, hash, key, val, expiry, ft, i, a). SLOT_COUNT - i)") auto

definition hashmap_set :: "u64 \<Rightarrow> bytes \<Rightarrow> bytes \<Rightarrow> u64 \<Rightarrow> arena \<Rightarrow> arena \<times> set_result" where
  "hashmap_set now key val ttl_secs a =
    set_loop now (siphash key) key val (ttl_to_expiry now ttl_secs) None 0 a"

function del_loop :: "u64 \<Rightarrow> bytes \<Rightarrow> nat \<Rightarrow> arena \<Rightarrow> arena \<times> del_result" where
  "del_loop hash key i a =
    (if i < SLOT_COUNT then
       let idx = probe hash i;
           st = state (slot a idx)
       in if st = STATE_EMPTY then (a, DelNotFound)
          else if st = STATE_TOMBSTONE then del_loop hash key (Suc i) a
          else if st = STATE_OCCUPIED then
            (if fingerprint (slot a idx) \<noteq> hash then del_loop hash key (Suc i) a
             else if read_key (slot a idx) \<noteq> key then del_loop hash key (Suc i) a
             else
               let cas = compare_exchange_state STATE_OCCUPIED STATE_TOMBSTONE
               in if snd (cas (slot a idx))
                  then (add_used (- 1) (slot_mut idx (\<lambda>s. fst (cas s)) a), Deleted)
                  else del_loop hash key (Suc i) a)
          else del_loop hash key (Suc i) a
     else (a, DelNotFound))"
  by pat_completeness auto
termination
  by (relation "measure (\<lambda>(hash, key, i, a). SLOT_COUNT - i)") auto

definition hashmap_del :: "bytes \<Rightarrow> arena \<Rightarrow> arena \<times> del_result" where
  "hashmap_del key a = del_loop (siphash key) key 0 a"

definition hashmap_exists :: "u64 \<Rightarrow> bytes \<Rightarrow> arena \<Rightarrow> arena \<times> bool" where
  "hashmap_exists now key a = (case hashmap_get now key a of (a', r) \<Rightarrow> (a', case r of Found _ \<Rightarrow> True | _ \<Rightarrow> False))"

definition flush_slot :: "slot \<Rightarrow> slot" where
  "flush_slot s = s\<lparr>state := STATE_EMPTY, fingerprint := 0, expires_at_ms := 0, key_len := 0, val_len := 0\<rparr>"

definition flush_all :: "arena \<Rightarrow> arena" where
  "flush_all a =
    (let a = fold (\<lambda>i. slot_mut i flush_slot) [0..<SLOT_COUNT] a
     in a\<lparr>header := (header a)\<lparr>used_count := 0\<rparr>\<rparr>)"

definition hashmap_used_count :: "arena \<Rightarrow> u64" where
  "hashmap_used_count a = used_count (header a)"

definition hashmap_capacity :: "arena \<Rightarrow> nat" where
  "hashmap_capacity a = SLOT_COUNT"

declare get_loop.simps [simp del] set_loop.simps [simp del] del_loop.simps [simp del]

section \<open>The probe sequence visits every slot once\<close>

lemma probe_start_mod: "probe_start hash = unat hash mod SLOT_COUNT"
  using nat_and_mask [of "unat hash" 16] by (simp add: probe_start_def SLOT_COUNT_def)

lemma probe_mod: "probe hash i = (probe_start hash + i) mod SLOT_COUNT"
  using nat_and_mask [of "probe_start hash + i" 16] by (simp add: probe_def SLOT_COUNT_def)

lemma probe_lt [simp]: "probe hash i < SLOT_COUNT"
  by (simp add: probe_mod)

lemma probe_inj: "probe hash i = probe hash j \<Longrightarrow> i < SLOT_COUNT \<Longrightarrow> j < SLOT_COUNT \<Longrightarrow> i = j"
  unfolding probe_mod by (rule shift_mod_inj)

lemma probe_inj_iff [simp]:
  "i < SLOT_COUNT \<Longrightarrow> j < SLOT_COUNT \<Longrightarrow> probe hash i = probe hash j \<longleftrightarrow> i = j"
  by (auto dest: probe_inj)

lemma probe_surj: "p < SLOT_COUNT \<Longrightarrow> \<exists>i<SLOT_COUNT. probe hash i = p"
  unfolding probe_mod by (rule shift_mod_surj)

section \<open>One iteration of each loop\<close>

lemma get_loop_end: "SLOT_COUNT \<le> i \<Longrightarrow> get_loop now hash key i a = (a, NotFound)"
  by (subst get_loop.simps) simp

lemma get_loop_empty:
  "i < SLOT_COUNT \<Longrightarrow> state (slot a (probe hash i)) = STATE_EMPTY \<Longrightarrow>
   get_loop now hash key i a = (a, NotFound)"
  by (subst get_loop.simps) (simp add: Let_def)

definition get_passes :: "u64 \<Rightarrow> u64 \<Rightarrow> bytes \<Rightarrow> slot \<Rightarrow> bool" where
  "get_passes now hash key s \<longleftrightarrow> state s \<noteq> STATE_EMPTY \<and>
    \<not> (state s = STATE_OCCUPIED \<and> fingerprint s = hash \<and> (is_expired now s \<or> read_key s = key))"

lemma get_loop_pass:
  "i < SLOT_COUNT \<Longrightarrow> get_passes now hash key (slot a (probe hash i)) \<Longrightarrow>
   get_loop now hash key i a = get_loop now hash key (Suc i) a"
  by (subst get_loop.simps) (auto simp: Let_def get_passes_def slot_simps)

lemma get_loop_expired:
  "i < SLOT_COUNT \<Longrightarrow> state (slot a (probe hash i)) = STATE_OCCUPIED \<Longrightarrow>
   fingerprint (slot a (probe hash i)) = hash \<Longrightarrow> is_expired now (slot a (probe hash i)) \<Longrightarrow>
   get_loop now hash key i a =
     (slot_mut (probe hash i) (\<lambda>s. fst (lazy_evict_if_expired now s)) a, Expired)"
  by (subst get_loop.simps) (simp add: Let_def slot_simps)

lemma get_loop_found:
  "i < SLOT_COUNT \<Longrightarrow> state (slot a (probe hash i)) = STATE_OCCUPIED \<Longrightarrow>
   fingerprint (slot a (probe hash i)) = hash \<Longrightarrow> \<not> is_expired now (slot a (probe hash i)) \<Longrightarrow>
   read_key (slot a (probe hash i)) = key \<Longrightarrow>
   get_loop now hash key i a = (a, Found (read_value (slot a (probe hash i))))"
  by (subst get_loop.simps) (simp add: Let_def slot_simps)

lemmas get_loop_step = get_loop_end get_loop_empty get_loop_pass get_loop_expired get_loop_found

lemma set_loop_end_none:
  "SLOT_COUNT \<le> i \<Longrightarrow> set_loop now hash key val e None i a = (a, Full)"
  by (subst set_loop.simps) simp

lemma set_loop_end_some:
  "SLOT_COUNT \<le> i \<Longrightarrow>
   set_loop now hash key val e (Some t) i a = (slot_mut t (claim_slot hash key val e) a, Inserted)"
  by (subst set_loop.simps) simp

lemma set_loop_empty:
  "i < SLOT_COUNT \<Longrightarrow> state (slot a (probe hash i)) = STATE_EMPTY \<Longrightarrow>
   set_loop now hash key val e ft i a =
     (add_used 1 (slot_mut (case ft of None \<Rightarrow> probe hash i | Some t \<Rightarrow> t)
       (claim_slot hash key val e) a), Inserted)"
  by (subst set_loop.simps) (simp add: Let_def)

definition first_some :: "nat option \<Rightarrow> nat \<Rightarrow> nat option" where
  "first_some ft idx = (case ft of None \<Rightarrow> Some idx | Some t \<Rightarrow> Some t)"

lemma set_loop_tombstone:
  "i < SLOT_COUNT \<Longrightarrow> state (slot a (probe hash i)) = STATE_TOMBSTONE \<Longrightarrow>
   set_loop now hash key val e ft i a =
     set_loop now hash key val e (first_some ft (probe hash i)) (Suc i) a"
  by (subst set_loop.simps) (simp add: Let_def first_some_def)

lemma set_loop_evict:
  "i < SLOT_COUNT \<Longrightarrow> state (slot a (probe hash i)) = STATE_OCCUPIED \<Longrightarrow>
   fingerprint (slot a (probe hash i)) = hash \<Longrightarrow> is_expired now (slot a (probe hash i)) \<Longrightarrow>
   set_loop now hash key val e ft i a =
     set_loop now hash key val e (first_some ft (probe hash i)) (Suc i)
       (slot_mut (probe hash i) (\<lambda>s. fst (lazy_evict_if_expired now s)) a)"
  by (subst set_loop.simps) (simp add: Let_def slot_simps first_some_def)

lemma set_loop_update:
  "i < SLOT_COUNT \<Longrightarrow> state (slot a (probe hash i)) = STATE_OCCUPIED \<Longrightarrow>
   fingerprint (slot a (probe hash i)) = hash \<Longrightarrow> \<not> is_expired now (slot a (probe hash i)) \<Longrightarrow>
   read_key (slot a (probe hash i)) = key \<Longrightarrow>
   set_loop now hash key val e ft i a =
     (slot_mut (probe hash i) (\<lambda>s. (write_value val s)\<lparr>expires_at_ms := e\<rparr>) a, Updated)"
  by (subst set_loop.simps) (simp add: Let_def slot_simps)

lemma set_loop_pass:
  "i < SLOT_COUNT \<Longrightarrow> get_passes now hash key (slot a (probe hash i)) \<Longrightarrow>
   state (slot a (probe hash i)) \<noteq> STATE_TOMBSTONE \<Longrightarrow>
   set_loop now hash key val e ft i a = set_loop now hash key val e ft (Suc i) a"
  by (subst set_loop.simps) (auto simp: Let_def get_passes_def slot_simps)

lemma del_loop_end: "SLOT_COUNT \<le> i \<Longrightarrow> del_loop hash key i a = (a, DelNotFound)"
  by (subst del_loop.simps) simp

lemma del_loop_empty:
  "i < SLOT_COUNT \<Longrightarrow> state (slot a (probe hash i)) = STATE_EMPTY \<Longrightarrow>
   del_loop hash key i a = (a, DelNotFound)"
  by (subst del_loop.simps) (simp add: Let_def)

definition del_hits :: "u64 \<Rightarrow> bytes \<Rightarrow> slot \<Rightarrow> bool" where
  "del_hits hash key s \<longleftrightarrow> state s = STATE_OCCUPIED \<and> fingerprint s = hash \<and> read_key s = key"

lemma del_loop_hit:
  "i < SLOT_COUNT \<Longrightarrow> del_hits hash key (slot a (probe hash i)) \<Longrightarrow>
   del_loop hash key i a =
     (add_used (- 1) (slot_mut (probe hash i) (\<lambda>s. s\<lparr>state := STATE_TOMBSTONE\<rparr>) a), Deleted)"
  by (subst del_loop.simps)
    (simp add: Let_def del_hits_def compare_exchange_state_def slot_mut_def slot_def)

lemma del_loop_pass:
  "i < SLOT_COUNT \<Longrightarrow> \<not> del_hits hash key (slot a (probe hash i)) \<Longrightarrow>
   state (slot a (probe hash i)) \<noteq> STATE_EMPTY \<Longrightarrow>
   del_loop hash key i a = del_loop hash key (Suc i) a"
  by (subst del_loop.simps) (auto simp: Let_def del_hits_def)

end
