(* ===== verification/ArenaInv.thy ===== *)
theory ArenaInv
  imports Hashmap
begin

text \<open>
  The invariant of the arena and its abstraction.  \<open>arena_wf\<close> is what the hash map of
  \<open>src/hashmap.rs\<close> relies on between operations: well-formed slots, fingerprints that belong to
  their keys, no empty slot between the start of a key's probe sequence and the slot that holds
  it, and no key held twice.  \<open>entry\<close> reads an arena as a finite map from keys to values with
  their expiry.  The lemmas give the effect on both of the three ways a slot changes: turned into
  a tombstone, updated in place, claimed for a new key.
\<close>

section \<open>Invariant and abstraction\<close>

definition holds :: "arena \<Rightarrow> nat \<Rightarrow> bytes \<Rightarrow> bool" where
  "holds a i k \<longleftrightarrow> i < SLOT_COUNT \<and> state (slot a i) = STATE_OCCUPIED \<and> read_key (slot a i) = k"

definition arena_wf :: "arena \<Rightarrow> bool" where
  "arena_wf a \<longleftrightarrow>
    (\<forall>i<SLOT_COUNT. slot_wf (slot a i)) \<and>
    (\<forall>i k. holds a i k \<longrightarrow> fingerprint (slot a i) = siphash k) \<and>
    (\<forall>j k. j < SLOT_COUNT \<and> holds a (probe (siphash k) j) k \<longrightarrow>
      (\<forall>j'<j. state (slot a (probe (siphash k) j')) \<noteq> STATE_EMPTY)) \<and>
    (\<forall>i i' k. holds a i k \<and> holds a i' k \<longrightarrow> i = i')"

definition entry :: "arena \<Rightarrow> bytes \<Rightarrow> (bytes \<times> u64) option" where
  "entry a k = map_option (\<lambda>i. (read_value (slot a i), expires_at_ms (slot a i)))
    (List.find (\<lambda>i. holds a i k) [0..<SLOT_COUNT])"

lemma arena_wfI:
  assumes "\<And>i. i < SLOT_COUNT \<Longrightarrow> slot_wf (slot a i)"
    and "\<And>i k. holds a i k \<Longrightarrow> fingerprint (slot a i) = siphash k"
    and "\<And>j k j'. j < SLOT_COUNT \<Longrightarrow> holds a (probe (siphash k) j) k \<Longrightarrow> j' < j \<Longrightarrow>
      state (slot a (probe (siphash k) j')) \<noteq> STATE_EMPTY"
    and "\<And>i i' k. holds a i k \<Longrightarrow> holds a i' k \<Longrightarrow> i = i'"
  shows "arena_wf a"
  using assms unfolding arena_wf_def by blast

lemma wf_slot: "arena_wf a \<Longrightarrow> i < SLOT_COUNT \<Longrightarrow> slot_wf (slot a i)"
  by (simp add: arena_wf_def)

lemma wf_fingerprint: "arena_wf a \<Longrightarrow> holds a i k \<Longrightarrow> fingerprint (slot a i) = siphash k"
  by (simp add: arena_wf_def)

lemma wf_chain:
  "arena_wf a \<Longrightarrow> holds a (probe (siphash k) j) k \<Longrightarrow> j < SLOT_COUNT \<Longrightarrow> j' < j \<Longrightarrow>
   state (slot a (probe (siphash k) j')) \<noteq> STATE_EMPTY"
  unfolding arena_wf_def by blast

lemma wf_unique: "arena_wf a \<Longrightarrow> holds a i k \<Longrightarrow> holds a i' k \<Longrightarrow> i = i'"
  unfolding arena_wf_def by blast

lemma holds_lt: "holds a i k \<Longrightarrow> i < SLOT_COUNT"
  by (simp add: holds_def)

lemma holds_occupied: "i < SLOT_COUNT \<Longrightarrow> state (slot a i) = STATE_OCCUPIED \<Longrightarrow>
  holds a i (read_key (slot a i))"
  by (simp add: holds_def)

lemma holds_key: "holds a i k \<Longrightarrow> holds a i k' \<Longrightarrow> k' = k"
  by (simp add: holds_def)

lemma holds_probe: "holds a i k \<Longrightarrow> \<exists>j<SLOT_COUNT. i = probe hash j \<and> holds a (probe hash j) k"
  using probe_surj [of i hash] by (auto simp: holds_def)

subsection \<open>Reading the abstraction\<close>

lemma entry_None_iff: "entry a k = None \<longleftrightarrow> (\<forall>i. \<not> holds a i k)"
  by (auto simp: entry_def find_None_iff holds_def)

lemma entry_SomeD:
  assumes "entry a k = Some e"
  obtains i where "holds a i k" "e = (read_value (slot a i), expires_at_ms (slot a i))"
  using assms by (auto simp: entry_def find_Some_iff)

lemma entry_holds:
  assumes "arena_wf a" "holds a i k"
  shows "entry a k = Some (read_value (slot a i), expires_at_ms (slot a i))"
proof -
  have "entry a k \<noteq> None" using assms(2) by (auto simp: entry_None_iff)
  then obtain e where "entry a k = Some e" by blast
  then show ?thesis
    by (metis assms entry_SomeD wf_unique)
qed

text \<open>Two arenas that hold a key in the same slots, with the same contents, agree on its entry.\<close>

lemma entry_cong:
  assumes "\<And>i. holds a i k = holds a' i k"
    and "\<And>i. holds a i k \<Longrightarrow> read_value (slot a i) = read_value (slot a' i) \<and>
      expires_at_ms (slot a i) = expires_at_ms (slot a' i)"
  shows "entry a k = entry a' k"
proof (cases "entry a' k")
  case None
  with assms(1) have "entry a k = None" by (simp add: entry_None_iff)
  with None show ?thesis by simp
next
  case (Some e)
  then obtain i where i: "List.find (\<lambda>i. holds a' i k) [0..<SLOT_COUNT] = Some i"
    and e: "e = (read_value (slot a' i), expires_at_ms (slot a' i))"
    by (auto simp: entry_def)
  from i have "holds a i k" using assms(1) by (auto simp: find_Some_iff)
  moreover have "entry a k = Some (read_value (slot a i), expires_at_ms (slot a i))"
    using i assms(1) by (simp add: entry_def)
  ultimately show ?thesis using Some e assms(2) by simp
qed

section \<open>Changes of one slot\<close>

text \<open>
  An arena in which occupied slots only disappear or keep their key and fingerprint, and no slot
  becomes empty, is well-formed again.
\<close>

lemma arena_wf_shrink:
  assumes wf: "arena_wf a"
    and slots: "\<And>i. i < SLOT_COUNT \<Longrightarrow> slot_wf (slot a' i)"
    and holds: "\<And>i k. holds a' i k \<Longrightarrow> holds a i k \<and> fingerprint (slot a' i) = fingerprint (slot a i)"
    and empty: "\<And>i. i < SLOT_COUNT \<Longrightarrow> state (slot a' i) = STATE_EMPTY \<Longrightarrow> state (slot a i) = STATE_EMPTY"
  shows "arena_wf a'"
proof (rule arena_wfI)
  fix j k j' assume "j < SLOT_COUNT" "holds a' (probe (siphash k) j) k" "j' < j"
  then show "state (slot a' (probe (siphash k) j')) \<noteq> STATE_EMPTY"
    using wf_chain [OF wf, of k j j'] holds empty [of "probe (siphash k) j'"] by auto
next
  fix i i' k assume "holds a' i k" "holds a' i' k"
  then show "i = i'" using holds wf_unique [OF wf] by blast
qed (use slots holds wf_fingerprint [OF wf] in auto)

subsection \<open>The header does not matter\<close>

lemma slot_add_used [arena_simps]: "slot (add_used d a) = slot a"
  by (simp add: add_used_def arena_simps)

lemma holds_slot_cong:
  assumes "slot a = slot b"
  shows "holds a = holds b"
  by (intro ext) (simp add: holds_def assms)

lemma wf_slot_cong:
  assumes "slot a = slot b"
  shows "arena_wf a = arena_wf b"
  by (simp add: arena_wf_def assms holds_slot_cong [OF assms])

lemma entry_slot_cong:
  assumes "slot a = slot b"
  shows "entry a = entry b"
  by (intro ext) (simp add: entry_def assms holds_slot_cong [OF assms])

lemma holds_add_used [arena_simps]: "holds (add_used d a) = holds a"
  by (rule holds_slot_cong) (simp add: arena_simps)

lemma wf_add_used [arena_simps]: "arena_wf (add_used d a) = arena_wf a"
  by (rule wf_slot_cong) (simp add: arena_simps)

lemma entry_add_used [arena_simps]: "entry (add_used d a) = entry a"
  by (rule entry_slot_cong) (simp add: arena_simps)

subsection \<open>Tombstones\<close>

definition bury :: "nat \<Rightarrow> arena \<Rightarrow> arena" where
  "bury i a = slot_mut i (\<lambda>s. s\<lparr>state := STATE_TOMBSTONE\<rparr>) a"

lemma slot_bury [arena_simps]:
  "slot (bury i a) j = (if j = i then (slot a i)\<lparr>state := STATE_TOMBSTONE\<rparr> else slot a j)"
  by (simp add: bury_def arena_simps)

lemma header_bury [arena_simps]: "header (bury i a) = header a"
  by (simp add: bury_def arena_simps)

lemma holds_bury: "holds (bury i a) j k \<longleftrightarrow> j \<noteq> i \<and> holds a j k"
  by (auto simp: holds_def arena_simps)

lemma wf_bury [wf_intros]: "arena_wf a \<Longrightarrow> arena_wf (bury i a)"
  by (rule arena_wf_shrink [of a]) (auto simp: holds_bury arena_simps wf_slot split: if_splits)

lemma entry_bury:
  assumes "arena_wf a" "holds a i k"
  shows "entry (bury i a) = (entry a)(k := None)"
proof
  fix k'
  have "holds (bury i a) j k' = holds a j k'" if "k' \<noteq> k" for j
    using that assms(2) by (auto simp: holds_bury dest: holds_key)
  then have "entry (bury i a) k' = entry a k'" if "k' \<noteq> k"
    using that by (intro entry_cong) (auto simp: arena_simps holds_bury)
  moreover have "entry (bury i a) k = None"
    using assms wf_unique by (fastforce simp: entry_None_iff holds_bury)
  ultimately show "entry (bury i a) k' = ((entry a)(k := None)) k'" by simp
qed

subsection \<open>Update in place\<close>

definition update_slot :: "bytes \<Rightarrow> u64 \<Rightarrow> slot \<Rightarrow> slot" where
  "update_slot val e s = (write_value val s)\<lparr>expires_at_ms := e\<rparr>"

lemma update_slot_simps [slot_simps]:
  "state (update_slot val e s) = state s" "fingerprint (update_slot val e s) = fingerprint s"
  "read_key (update_slot val e s) = read_key s" "expires_at_ms (update_slot val e s) = e"
  "read_value (update_slot val e s) = take MAX_VAL_LEN val"
  "slot_wf s \<Longrightarrow> slot_wf (update_slot val e s)"
  by (simp_all add: update_slot_def slot_simps wf_intros)

lemma holds_update: "holds (slot_mut i (update_slot val e) a) j k \<longleftrightarrow> holds a j k"
  by (auto simp: holds_def arena_simps slot_simps)

lemma wf_update [wf_intros]: "arena_wf a \<Longrightarrow> arena_wf (slot_mut i (update_slot val e) a)"
  by (rule arena_wf_shrink [of a])
    (auto simp: holds_update arena_simps slot_simps wf_slot split: if_splits)

lemma entry_update:
  assumes "arena_wf a" "holds a i k"
  shows "entry (slot_mut i (update_slot val e) a) = (entry a)(k \<mapsto> (take MAX_VAL_LEN val, e))"
proof
  fix k' let ?a' = "slot_mut i (update_slot val e) a"
  have "entry ?a' k' = entry a k'" if "k' \<noteq> k"
    using that assms(2) by (intro entry_cong) (auto simp: holds_update arena_simps holds_def slot_simps)
  moreover have "entry ?a' k = Some (take MAX_VAL_LEN val, e)"
    using entry_holds [of ?a' i k] assms by (simp add: holds_update wf_intros arena_simps slot_simps)
  ultimately show "entry ?a' k' = ((entry a)(k \<mapsto> (take MAX_VAL_LEN val, e))) k'" by simp
qed

subsection \<open>Claiming a slot\<close>

lemma claim_slot_simps [slot_simps]:
  "state (claim_slot h key val e s) = STATE_OCCUPIED"
  "fingerprint (claim_slot h key val e s) = h"
  "expires_at_ms (claim_slot h key val e s) = e"
  "read_key (claim_slot h key val e s) = take MAX_KEY_LEN key"
  "read_value (claim_slot h key val e s) = take MAX_VAL_LEN val"
  "slot_wf s \<Longrightarrow> slot_wf (claim_slot h key val e s)"
  by (simp_all add: claim_slot_def Let_def slot_simps wf_intros)

text \<open>Where a key may be put: a free slot with no empty slot before it, the key held nowhere.\<close>

definition can_claim :: "arena \<Rightarrow> bytes \<Rightarrow> nat \<Rightarrow> bool" where
  "can_claim a key j \<longleftrightarrow> j < SLOT_COUNT \<and> length key \<le> MAX_KEY_LEN \<and>
    state (slot a (probe (siphash key) j)) \<in> {STATE_EMPTY, STATE_TOMBSTONE} \<and>
    (\<forall>j'<j. state (slot a (probe (siphash key) j')) \<noteq> STATE_EMPTY) \<and> (\<forall>i. \<not> holds a i key)"

definition claim :: "bytes \<Rightarrow> bytes \<Rightarrow> u64 \<Rightarrow> nat \<Rightarrow> arena \<Rightarrow> arena" where
  "claim key val e i a = slot_mut i (claim_slot (siphash key) key val e) a"

lemma slot_claim [arena_simps]:
  "slot (claim key val e i a) j =
    (if j = i then claim_slot (siphash key) key val e (slot a i) else slot a j)"
  by (simp add: claim_def arena_simps)

lemma header_claim [arena_simps]: "header (claim key val e i a) = header a"
  by (simp add: claim_def arena_simps)

lemma holds_claim:
  assumes "can_claim a key j"
  shows "holds (claim key val e (probe (siphash key) j) a) i k \<longleftrightarrow>
    (if i = probe (siphash key) j then k = key else holds a i k)"
  using assms by (auto simp: holds_def arena_simps slot_simps can_claim_def)

lemma wf_claim:
  assumes wf: "arena_wf a" and can: "can_claim a key j"
  shows "arena_wf (claim key val e (probe (siphash key) j) a)" (is "arena_wf ?a'")
proof (rule arena_wfI)
  fix i assume "i < SLOT_COUNT"
  then show "slot_wf (slot ?a' i)" by (simp add: arena_simps slot_simps wf_slot [OF wf])
next
  fix i k assume "holds ?a' i k"
  then show "fingerprint (slot ?a' i) = siphash k"
    by (simp add: holds_claim [OF can] arena_simps slot_simps wf_fingerprint [OF wf] split: if_splits)
next
  fix m k m' assume m: "m < SLOT_COUNT" "holds ?a' (probe (siphash k) m) k" "m' < m"
  show "state (slot ?a' (probe (siphash k) m')) \<noteq> STATE_EMPTY"
  proof (cases "probe (siphash k) m = probe (siphash key) j")
    case True
    with m(2) have "k = key" by (simp add: holds_claim [OF can])
    with True m can have "m = j" by (auto simp: can_claim_def)
    with \<open>k = key\<close> m(3) can show ?thesis by (simp add: can_claim_def arena_simps slot_simps)
  next
    case False
    with m have "state (slot a (probe (siphash k) m')) \<noteq> STATE_EMPTY"
      using wf_chain [OF wf, of k m m'] by (simp add: holds_claim [OF can])
    then show ?thesis by (simp add: arena_simps slot_simps)
  qed
next
  fix i i' k assume "holds ?a' i k" "holds ?a' i' k"
  then show "i = i'"
    using can wf_unique [OF wf] by (auto simp: holds_claim [OF can] can_claim_def split: if_splits)
qed

lemma entry_claim:
  assumes wf: "arena_wf a" and can: "can_claim a key j"
  shows "entry (claim key val e (probe (siphash key) j) a) =
    (entry a)(key \<mapsto> (take MAX_VAL_LEN val, e))" (is "entry ?a' = _")
proof
  fix k
  have "\<not> holds a (probe (siphash key) j) k" using can by (auto simp: can_claim_def holds_def)
  then have "entry ?a' k = entry a k" if "k \<noteq> key"
    using that by (intro entry_cong) (auto simp: holds_claim [OF can] arena_simps split: if_splits)
  moreover have "entry ?a' key = Some (take MAX_VAL_LEN val, e)"
    using entry_holds [OF wf_claim [OF wf can, of val e], of "probe (siphash key) j" key]
    by (simp add: holds_claim [OF can] arena_simps slot_simps)
  ultimately show "entry ?a' k = ((entry a)(key \<mapsto> (take MAX_VAL_LEN val, e))) k" by simp
qed

end
