(* ===== verification/HashmapProofs.thy ===== *)
theory HashmapProofs
  imports ArenaInv
begin

text \<open>
  What the loops of \<open>src/hashmap.rs\<close> compute, in terms of the invariant and the abstraction of
  \<open>ArenaInv\<close>.  Each loop is characterised once, by induction on the iterations left; the
  behaviour of the operations follows.
\<close>

section \<open>The GET loop\<close>

text \<open>
  The iteration at which \<open>get\<close> stops: the first slot of the probe sequence that is empty, or
  occupied with the fingerprint of the key and expired or holding the key.
\<close>

definition get_outcome ::
  "u64 \<Rightarrow> u64 \<Rightarrow> bytes \<Rightarrow> arena \<Rightarrow> nat \<Rightarrow> arena \<times> get_result \<Rightarrow> bool" where
  "get_outcome now hash key a j res \<longleftrightarrow>
    (\<forall>j'<j. get_passes now hash key (slot a (probe hash j'))) \<and>
    (j = SLOT_COUNT \<and> res = (a, NotFound) \<or>
     j < SLOT_COUNT \<and> state (slot a (probe hash j)) = STATE_EMPTY \<and> res = (a, NotFound) \<or>
     j < SLOT_COUNT \<and> state (slot a (probe hash j)) = STATE_OCCUPIED \<and>
       fingerprint (slot a (probe hash j)) = hash \<and>
       (is_expired now (slot a (probe hash j)) \<and> res = (bury (probe hash j) a, Expired) \<or>
        \<not> is_expired now (slot a (probe hash j)) \<and> read_key (slot a (probe hash j)) = key \<and>
          res = (a, Found (read_value (slot a (probe hash j))))))"

lemma evict_is_bury:
  "state (slot a i) = STATE_OCCUPIED \<Longrightarrow> is_expired now (slot a i) \<Longrightarrow>
   slot_mut i (\<lambda>s. fst (lazy_evict_if_expired now s)) a = bury i a"
  by (simp add: slot_mut_def bury_def slot_simps slot_def)

lemma get_loop_outcome:
  assumes "\<forall>j<i. get_passes now hash key (slot a (probe hash j))" "i \<le> SLOT_COUNT"
  shows "\<exists>j. get_outcome now hash key a j (get_loop now hash key i a)"
  using assms
proof (induction "SLOT_COUNT - i" arbitrary: i)
  case 0
  then have "i = SLOT_COUNT" by simp
  with "0.prems" show ?case
    by (intro exI [of _ i]) (simp add: get_outcome_def get_loop_end)
next
  case (Suc n)
  let ?s = "slot a (probe hash i)"
  have i: "i < SLOT_COUNT" using Suc.hyps(2) by simp
  show ?case
  proof (cases "get_passes now hash key ?s")
    case True
    with Suc.prems i Suc.hyps(1) [of "Suc i"] Suc.hyps(2)
    have "\<exists>j. get_outcome now hash key a j (get_loop now hash key (Suc i) a)"
      by (auto simp: less_Suc_eq)
    with True i show ?thesis by (simp add: get_loop_pass)
  next
    case False
    then consider (empty) "state ?s = STATE_EMPTY"
      | (exp) "state ?s = STATE_OCCUPIED" "fingerprint ?s = hash" "is_expired now ?s"
      | (hit) "state ?s = STATE_OCCUPIED" "fingerprint ?s = hash" "\<not> is_expired now ?s" "read_key ?s = key"
      by (auto simp: get_passes_def)
    then have "get_outcome now hash key a i (get_loop now hash key i a)"
      using Suc.prems(1) i
      by cases (simp_all add: get_outcome_def get_loop_empty get_loop_expired get_loop_found evict_is_bury)
    then show ?thesis by blast
  qed
qed

text \<open>A key that the loop did not meet is not in the arena.\<close>

lemma chain_absent:
  assumes wf: "arena_wf a" and j: "j \<le> SLOT_COUNT"
    and before: "\<forall>j'<j. \<not> holds a (probe (siphash key) j') key"
    and stop: "j < SLOT_COUNT \<Longrightarrow> state (slot a (probe (siphash key) j)) = STATE_EMPTY"
  shows "\<not> holds a i key"
proof
  assume "holds a i key"
  then obtain m where m: "m < SLOT_COUNT" "holds a (probe (siphash key) m) key"
    using holds_probe by blast
  show False
  proof (cases "m < j")
    case True
    with m before show False by blast
  next
    case False
    with m(1) have "j < SLOT_COUNT" by simp
    with stop have "state (slot a (probe (siphash key) j)) = STATE_EMPTY" by simp
    moreover have "m = j \<or> j < m" using False by auto
    ultimately show False using wf_chain [OF wf m(2) m(1)] m(2) by (auto simp: holds_def)
  qed
qed

lemma passes_not_holds:
  "arena_wf a \<Longrightarrow> get_passes now (siphash key) key (slot a i) \<Longrightarrow> \<not> holds a i key"
  using wf_fingerprint [of a i key] by (auto simp: get_passes_def holds_def)

text \<open>The three outcomes of GET on a well-formed arena.\<close>

lemma hashmap_get_cases:
  assumes wf: "arena_wf a" and get: "hashmap_get now key a = (a', r)"
  obtains (absent) "r = NotFound" "a' = a" "\<forall>i. \<not> holds a i key"
  | (expired) i where "r = Expired" "a' = bury i a" "holds a i (read_key (slot a i))"
      "siphash (read_key (slot a i)) = siphash key" "is_expired now (slot a i)"
  | (found) i where "r = Found (read_value (slot a i))" "a' = a" "holds a i key"
      "\<not> is_expired now (slot a i)"
proof -
  from get have "get_loop now (siphash key) key 0 a = (a', r)" by (simp add: hashmap_get_def)
  then obtain j where out: "get_outcome now (siphash key) key a j (a', r)"
    using get_loop_outcome [of 0 now "siphash key" key a] by auto
  let ?i = "probe (siphash key) j"
  consider (1) "j \<le> SLOT_COUNT" "j < SLOT_COUNT \<longrightarrow> state (slot a ?i) = STATE_EMPTY" "a' = a" "r = NotFound"
    | (2) "holds a ?i (read_key (slot a ?i))" "fingerprint (slot a ?i) = siphash key"
        "is_expired now (slot a ?i)" "a' = bury ?i a" "r = Expired"
    | (3) "holds a ?i key" "\<not> is_expired now (slot a ?i)" "a' = a" "r = Found (read_value (slot a ?i))"
    using out unfolding get_outcome_def holds_def by fastforce
  then show thesis
  proof cases
    case 1
    have "\<forall>j'<j. \<not> holds a (probe (siphash key) j') key"
      using out passes_not_holds [OF wf] by (auto simp: get_outcome_def)
    with 1 have "\<not> holds a i key" for i by (intro chain_absent [OF wf, of j]) auto
    with 1 absent show thesis by blast
  next
    case 2
    with expired [of ?i] show thesis by (simp add: wf_fingerprint [OF wf])
  next
    case 3
    with found show thesis by blast
  qed
qed

section \<open>The SET loop\<close>

text \<open>
  The arenas a SET passes through before it writes: some occupied slots with the fingerprint of
  the key that have expired are turned into tombstones.
\<close>

definition evictable :: "u64 \<Rightarrow> u64 \<Rightarrow> slot \<Rightarrow> bool" where
  "evictable now hash s \<longleftrightarrow> state s = STATE_OCCUPIED \<and> fingerprint s = hash \<and> is_expired now s"

definition evicts :: "u64 \<Rightarrow> u64 \<Rightarrow> arena \<Rightarrow> arena \<Rightarrow> bool" where
  "evicts now hash a a' \<longleftrightarrow> header a' = header a \<and>
    (\<forall>i. slot a' i = slot a i \<or> (i < SLOT_COUNT \<and> state (slot a i) = STATE_OCCUPIED \<and>
      fingerprint (slot a i) = hash \<and> is_expired now (slot a i) \<and>
      slot a' i = (slot a i)\<lparr>state := STATE_TOMBSTONE\<rparr>))"

lemma evicts_refl [simp]: "evicts now hash a a"
  by (simp add: evicts_def)

lemma evicts_bury:
  assumes "i < SLOT_COUNT" "state (slot a i) = STATE_OCCUPIED" "fingerprint (slot a i) = hash"
    "is_expired now (slot a i)" "evicts now hash (bury i a) b"
  shows "evicts now hash a b"
proof -
  have h: "header b = header a" using assms(5) by (simp add: evicts_def arena_simps)
  have b: "slot b j = slot (bury i a) j \<or> (j < SLOT_COUNT \<and> state (slot (bury i a) j) = STATE_OCCUPIED \<and>
      fingerprint (slot (bury i a) j) = hash \<and> is_expired now (slot (bury i a) j) \<and>
      slot b j = (slot (bury i a) j)\<lparr>state := STATE_TOMBSTONE\<rparr>)" for j
    using assms(5) by (simp add: evicts_def)
  have "slot b j = slot a j \<or> (j < SLOT_COUNT \<and> state (slot a j) = STATE_OCCUPIED \<and>
      fingerprint (slot a j) = hash \<and> is_expired now (slot a j) \<and>
      slot b j = (slot a j)\<lparr>state := STATE_TOMBSTONE\<rparr>)" for j
    using b [of j] assms(1-4) by (cases "j = i") (auto simp: arena_simps)
  with h show ?thesis by (simp add: evicts_def)
qed

text \<open>What a finished SET did, relative to the arena \<open>b\<close> it had reached when it wrote.\<close>

definition set_done ::
  "bytes \<Rightarrow> bytes \<Rightarrow> u64 \<Rightarrow> u64 \<Rightarrow> arena \<Rightarrow> arena \<Rightarrow> set_result \<Rightarrow> bool" where
  "set_done key val e now b a' r \<longleftrightarrow>
    (case r of
      Updated \<Rightarrow> (\<exists>i. holds b i key \<and> \<not> is_expired now (slot b i) \<and> a' = slot_mut i (update_slot val e) b)
    | Inserted \<Rightarrow> (\<exists>j d. can_claim b key j \<and> a' = add_used d (claim key val e (probe (siphash key) j) b) \<and>
        (d = 1 \<or> d = 0 \<and> (\<forall>i<SLOT_COUNT. state (slot b i) \<noteq> STATE_EMPTY)))
    | Full \<Rightarrow> a' = b \<and> (\<forall>i<SLOT_COUNT. state (slot b i) \<notin> {STATE_EMPTY, STATE_TOMBSTONE} \<and>
          \<not> evictable now (siphash key) (slot b i)) \<and>
        (\<forall>i. \<not> holds b i key))"

lemma add_used_0: "add_used 0 a = a"
  by (simp add: add_used_def)

lemma set_done_claim_empty:
  "can_claim b key j \<Longrightarrow>
   set_done key val e now b (add_used 1 (claim key val e (probe (siphash key) j) b)) Inserted"
  by (auto simp: set_done_def)

lemma set_done_claim_full:
  assumes "can_claim b key j" "\<forall>i<SLOT_COUNT. state (slot b i) \<noteq> STATE_EMPTY"
  shows "set_done key val e now b (claim key val e (probe (siphash key) j) b) Inserted"
proof -
  have "claim key val e (probe (siphash key) j) b = add_used 0 (claim key val e (probe (siphash key) j) b)"
    by (simp add: add_used_0)
  with assms show ?thesis unfolding set_done_def by fastforce
qed

text \<open>The knowledge the loop has gathered before iteration \<open>i\<close>.\<close>

definition set_seen :: "u64 \<Rightarrow> bytes \<Rightarrow> nat option \<Rightarrow> nat \<Rightarrow> arena \<Rightarrow> bool" where
  "set_seen now key ft i a \<longleftrightarrow> i \<le> SLOT_COUNT \<and>
    (\<forall>j<i. state (slot a (probe (siphash key) j)) \<noteq> STATE_EMPTY \<and> \<not> holds a (probe (siphash key) j) key) \<and>
    (case ft of
      None \<Rightarrow> \<forall>j<i. state (slot a (probe (siphash key) j)) \<noteq> STATE_TOMBSTONE \<and>
        \<not> evictable now (siphash key) (slot a (probe (siphash key) j))
    | Some t \<Rightarrow> \<exists>j<i. t = probe (siphash key) j \<and> state (slot a t) = STATE_TOMBSTONE)"

lemma set_seen_Suc:
  assumes "set_seen now key ft i a" "i < SLOT_COUNT"
    and "state (slot a (probe (siphash key) i)) \<noteq> STATE_EMPTY" "\<not> holds a (probe (siphash key) i) key"
    and "state (slot a (probe (siphash key) i)) \<noteq> STATE_TOMBSTONE"
    and "\<not> evictable now (siphash key) (slot a (probe (siphash key) i))"
  shows "set_seen now key ft (Suc i) a"
  using assms by (auto simp: set_seen_def less_Suc_eq split: option.splits)

lemma set_seen_tombstone:
  assumes "set_seen now key ft i a" "i < SLOT_COUNT"
    and "state (slot a (probe (siphash key) i)) = STATE_TOMBSTONE"
  shows "set_seen now key (first_some ft (probe (siphash key) i)) (Suc i) a"
  using assms by (auto simp: set_seen_def first_some_def less_Suc_eq holds_def split: option.splits)

lemma set_seen_bury:
  assumes "set_seen now key ft i a" "i < SLOT_COUNT"
  shows "set_seen now key ft i (bury (probe (siphash key) i) a)"
  using assms by (auto simp: set_seen_def arena_simps holds_bury evictable_def split: option.splits)

lemma all_probes: "(\<forall>j<SLOT_COUNT. P (probe hash j)) \<longleftrightarrow> (\<forall>i<SLOT_COUNT. P i)"
  using probe_surj by (metis probe_lt)

lemma set_seen_absent:
  assumes "arena_wf a" "set_seen now key ft i a"
    and "i < SLOT_COUNT \<Longrightarrow> state (slot a (probe (siphash key) i)) = STATE_EMPTY"
  shows "\<not> holds a m key"
  using assms by (intro chain_absent [of a i]) (auto simp: set_seen_def)

lemma set_seen_can_claim:
  assumes "arena_wf a" "set_seen now key (Some t) i a" "length key \<le> MAX_KEY_LEN"
    and "i < SLOT_COUNT \<Longrightarrow> state (slot a (probe (siphash key) i)) = STATE_EMPTY"
  shows "\<exists>j. t = probe (siphash key) j \<and> can_claim a key j"
proof -
  obtain j where j: "j < i" "t = probe (siphash key) j" "state (slot a t) = STATE_TOMBSTONE"
    using assms(2) by (auto simp: set_seen_def)
  moreover have "\<forall>m. \<not> holds a m key" using set_seen_absent [OF assms(1,2,4)] by blast
  ultimately have "can_claim a key j"
    using assms(2,3) by (auto simp: can_claim_def set_seen_def)
  with j(2) show ?thesis by blast
qed

lemma set_loop_done:
  assumes "arena_wf a" "length key \<le> MAX_KEY_LEN" "set_seen now key ft i a"
  shows "\<exists>b. evicts now (siphash key) a b \<and> arena_wf b \<and>
    (case set_loop now (siphash key) key val e ft i a of (a', r) \<Rightarrow>
      set_done key val e now b a' r \<and> (r = Full \<longrightarrow> ft = None \<and> b = a))"
    (is "\<exists>b. ?P ft i a b")
  using assms
proof (induction "SLOT_COUNT - i" arbitrary: i a ft)
  case 0
  then have i: "i = SLOT_COUNT" by (simp add: set_seen_def)
  have absent: "\<forall>m. \<not> holds a m key"
    using set_seen_absent [OF "0.prems"(1,3)] i by blast
  have noempty: "\<forall>m<SLOT_COUNT. state (slot a m) \<noteq> STATE_EMPTY"
    using "0.prems"(3) i all_probes [of "\<lambda>m. state (slot a m) \<noteq> STATE_EMPTY" "siphash key"]
    by (auto simp: set_seen_def)
  show ?case
  proof (cases ft)
    case None
    then have "\<forall>m<SLOT_COUNT. state (slot a m) \<noteq> STATE_TOMBSTONE \<and> \<not> evictable now (siphash key) (slot a m)"
      using "0.prems"(3) i all_probes [of "\<lambda>m. state (slot a m) \<noteq> STATE_TOMBSTONE \<and>
          \<not> evictable now (siphash key) (slot a m)" "siphash key"]
      by (auto simp: set_seen_def)
    with None i absent noempty "0.prems" have "?P ft i a a"
      by (simp add: set_loop_end_none set_done_def)
    then show ?thesis by (rule exI)
  next
    case (Some t)
    then have "\<exists>j. t = probe (siphash key) j \<and> can_claim a key j"
      using i "0.prems" by (intro set_seen_can_claim [of a now key t i]) simp_all
    then obtain j where "t = probe (siphash key) j" "can_claim a key j" by blast
    with Some i noempty "0.prems" set_done_claim_full [of a key j val e now] have "?P ft i a a"
      by (simp add: set_loop_end_some claim_def)
    then show ?thesis by (rule exI)
  qed
next
  case (Suc n)
  let ?i = "probe (siphash key) i"
  have i: "i < SLOT_COUNT" using Suc.hyps(2) by simp
  have IH: "\<exists>b. ?P ft' (Suc i) c b" if "arena_wf c" "set_seen now key ft' (Suc i) c" for ft' c
    using Suc.hyps(1) [of "Suc i" c ft'] Suc.hyps(2) Suc.prems(2) that by simp
  consider (empty) "state (slot a ?i) = STATE_EMPTY"
    | (tomb) "state (slot a ?i) = STATE_TOMBSTONE"
    | (exp) "state (slot a ?i) = STATE_OCCUPIED" "fingerprint (slot a ?i) = siphash key"
        "is_expired now (slot a ?i)"
    | (hit) "state (slot a ?i) = STATE_OCCUPIED" "fingerprint (slot a ?i) = siphash key"
        "\<not> is_expired now (slot a ?i)" "read_key (slot a ?i) = key"
    | (pass) "get_passes now (siphash key) key (slot a ?i)" "state (slot a ?i) \<noteq> STATE_TOMBSTONE"
        "state (slot a ?i) \<noteq> STATE_EMPTY"
    by (auto simp: get_passes_def)
  then show ?case
  proof cases
    case empty
    then have "\<exists>j. (case ft of None \<Rightarrow> ?i | Some t \<Rightarrow> t) = probe (siphash key) j \<and> can_claim a key j"
      using set_seen_can_claim [of a now key _ i] set_seen_absent [OF Suc.prems(1,3)] Suc.prems i
      by (cases ft) (auto simp: can_claim_def set_seen_def)
    then obtain j where "(case ft of None \<Rightarrow> ?i | Some t \<Rightarrow> t) = probe (siphash key) j" "can_claim a key j"
      by blast
    with empty i Suc.prems set_done_claim_empty [of a key j val e now] have "?P ft i a a"
      by (simp add: set_loop_empty claim_def)
    then show ?thesis by (rule exI)
  next
    case tomb
    then have "set_seen now key (first_some ft ?i) (Suc i) a" using Suc.prems i by (simp add: set_seen_tombstone)
    from IH [OF Suc.prems(1) this] obtain b where "?P (first_some ft ?i) (Suc i) a b" by (rule exE)
    moreover have "first_some ft ?i \<noteq> None" by (cases ft) (simp_all add: first_some_def)
    ultimately have "?P ft i a b" using tomb i by (auto simp: set_loop_tombstone split: prod.splits)
    then show ?thesis by (rule exI)
  next
    case exp
    let ?b = "bury ?i a"
    have "set_seen now key (first_some ft ?i) (Suc i) ?b"
      using Suc.prems i by (intro set_seen_tombstone set_seen_bury) (simp_all add: arena_simps)
    from IH [OF wf_bury [OF Suc.prems(1)] this]
    obtain b where b: "?P (first_some ft ?i) (Suc i) ?b b" by (rule exE)
    moreover have "first_some ft ?i \<noteq> None" by (cases ft) (simp_all add: first_some_def)
    moreover have "evicts now (siphash key) a b"
      using evicts_bury [of ?i a "siphash key" now b] exp b by simp
    ultimately have "?P ft i a b"
      using exp i by (auto simp: set_loop_evict evict_is_bury split: prod.splits)
    then show ?thesis by (rule exI)
  next
    case hit
    then have "holds a ?i key" by (simp add: holds_def)
    with hit i Suc.prems have "?P ft i a a"
      by (auto simp: set_loop_update set_done_def update_slot_def [abs_def] intro!: exI [of _ ?i])
    then show ?thesis by (rule exI)
  next
    case pass
    then have "\<not> holds a ?i key" using passes_not_holds [OF Suc.prems(1)] by blast
    with pass have "set_seen now key ft (Suc i) a"
      using Suc.prems i by (intro set_seen_Suc) (auto simp: get_passes_def evictable_def)
    from IH [OF Suc.prems(1) this] obtain b where "?P ft (Suc i) a b" by (rule exE)
    with pass i have "?P ft i a b" by (simp add: set_loop_pass)
    then show ?thesis by (rule exI)
  qed
qed

lemma hashmap_set_done:
  assumes "arena_wf a" "length key \<le> MAX_KEY_LEN" "hashmap_set now key val ttl a = (a', r)"
  obtains b where "evicts now (siphash key) a b" "arena_wf b"
    "set_done key val (ttl_to_expiry now ttl) now b a' r" "r = Full \<Longrightarrow> b = a"
  using set_loop_done [OF assms(1,2), of now None 0 val "ttl_to_expiry now ttl"] assms(3)
  by (auto simp: hashmap_set_def set_seen_def)

text \<open>What an eviction does to the entries: only expired ones with the fingerprint disappear.\<close>

lemma evicts_entry:
  assumes wf: "arena_wf a" "arena_wf b" and ev: "evicts now hash a b"
  shows "entry b k = entry a k \<or>
    (siphash k = hash \<and> entry b k = None \<and> (\<exists>v e. entry a k = Some (v, e) \<and> expired_at now e))"
proof (cases "\<exists>i. holds b i k")
  case True
  then obtain i where i: "holds b i k" by blast
  with ev have "slot b i = slot a i" by (auto simp: evicts_def holds_def dest: spec [of _ i])
  moreover from this i have "holds a i k" by (simp add: holds_def)
  ultimately show ?thesis using i by (simp add: entry_holds [OF wf(1)] entry_holds [OF wf(2)])
next
  case False
  then have none: "entry b k = None" by (simp add: entry_None_iff)
  show ?thesis
  proof (cases "\<exists>i. holds a i k")
    case True
    then obtain i where i: "holds a i k" by blast
    with False have "slot b i \<noteq> slot a i" by (metis holds_def)
    with ev have "fingerprint (slot a i) = hash" "is_expired now (slot a i)"
      by (auto simp: evicts_def dest: spec [of _ i])
    with none i show ?thesis
      by (simp add: entry_holds [OF wf(1) i] wf_fingerprint [OF wf(1) i] is_expired_iff)
  next
    case False
    with none show ?thesis by (metis entry_None_iff)
  qed
qed

section \<open>The DEL loop\<close>

lemma del_loop_done:
  assumes "arena_wf a" "i \<le> SLOT_COUNT"
    and "\<forall>j<i. state (slot a (probe (siphash key) j)) \<noteq> STATE_EMPTY \<and> \<not> holds a (probe (siphash key) j) key"
  shows "(\<forall>m. \<not> holds a m key) \<and> del_loop (siphash key) key i a = (a, DelNotFound) \<or>
    (\<exists>m. holds a m key \<and> del_loop (siphash key) key i a = (add_used (- 1) (bury m a), Deleted))"
  using assms(2,3)
proof (induction "SLOT_COUNT - i" arbitrary: i)
  case 0
  then have i: "i = SLOT_COUNT" by simp
  then have "\<not> holds a m key" for m
    using "0.prems" by (intro chain_absent [OF assms(1), of i]) auto
  with i show ?case by (simp add: del_loop_end)
next
  case (Suc n)
  let ?i = "probe (siphash key) i"
  have i: "i < SLOT_COUNT" using Suc.hyps(2) by simp
  show ?case
  proof (cases "state (slot a ?i) = STATE_EMPTY")
    case True
    then have "\<not> holds a m key" for m
      using Suc.prems by (intro chain_absent [OF assms(1), of i]) auto
    with True i show ?thesis by (simp add: del_loop_empty)
  next
    case False
    show ?thesis
    proof (cases "del_hits (siphash key) key (slot a ?i)")
      case True
      then have "holds a ?i key" by (simp add: del_hits_def holds_def)
      with True i show ?thesis by (auto simp: del_loop_hit bury_def)
    next
      case miss: False
      then have "\<not> holds a ?i key"
        using wf_fingerprint [OF assms(1), of ?i key] by (auto simp: del_hits_def holds_def)
      with False Suc.prems(2) have "\<forall>j<Suc i. state (slot a (probe (siphash key) j)) \<noteq> STATE_EMPTY \<and>
          \<not> holds a (probe (siphash key) j) key"
        by (auto simp: less_Suc_eq)
      with Suc.hyps i show ?thesis by (simp add: del_loop_pass [OF i miss False])
    qed
  qed
qed

lemma hashmap_del_cases:
  assumes "arena_wf a"
  obtains (absent) "\<forall>m. \<not> holds a m key" "hashmap_del key a = (a, DelNotFound)"
  | (deleted) m where "holds a m key" "hashmap_del key a = (add_used (- 1) (bury m a), Deleted)"
  using del_loop_done [OF assms, of 0 key] by (auto simp: hashmap_del_def)

section \<open>FLUSH and a fresh arena\<close>

lemma flush_slot_init: "flush_slot = init"
  by (simp add: fun_eq_iff flush_slot_def init_def)

lemma slot_flush_all [arena_simps]:
  "slot (flush_all a) i = (if i < SLOT_COUNT then init (slot a i) else slot a i)"
  by (simp add: flush_all_def Let_def arena_simps fold_slot_mut flush_slot_init)

lemma wf_all_empty:
  assumes "\<And>i. i < SLOT_COUNT \<Longrightarrow> slot_wf (slot a i) \<and> state (slot a i) = STATE_EMPTY"
  shows "arena_wf a" "entry a = Map.empty"
  using assms by (auto simp: arena_wf_def holds_def entry_None_iff fun_eq_iff)

lemma wf_flush_all [wf_intros]: "arena_wf a \<Longrightarrow> arena_wf (flush_all a)"
  by (rule wf_all_empty) (simp add: arena_simps slot_simps wf_slot slot_wf_init)

lemma entry_flush_all: "arena_wf a \<Longrightarrow> entry (flush_all a) = Map.empty"
  by (rule wf_all_empty) (simp add: arena_simps slot_simps wf_slot slot_wf_init)

text \<open>The arena that \<open>create_arena\<close> makes of a mapped region.\<close>

definition fresh_arena :: "arena \<Rightarrow> arena" where
  "fresh_arena m = init_slots (m\<lparr>header := init_header (header m)\<rparr>)"

lemma wf_fresh_arena:
  assumes "\<forall>i<SLOT_COUNT. slot_wf (slot m i)"
  shows "arena_wf (fresh_arena m)" "entry (fresh_arena m) = Map.empty"
  by (rule wf_all_empty, simp add: fresh_arena_def arena_simps slot_simps assms slot_wf_init)+

lemma slot_blank_arena [arena_simps]: "slot blank_arena i = blank_slot"
  by (simp add: slot_def blank_arena_def)

lemma wf_fresh_blank [wf_intros]: "arena_wf (fresh_arena blank_arena)"
  by (rule wf_fresh_arena) (simp add: arena_simps slot_wf_blank)

lemma state_fresh_blank [arena_simps]:
  "i < SLOT_COUNT \<Longrightarrow> state (slot (fresh_arena blank_arena) i) = STATE_EMPTY"
  by (simp add: fresh_arena_def arena_simps slot_simps)

lemma entry_fresh_blank: "entry (fresh_arena blank_arena) = Map.empty"
  by (rule wf_fresh_arena) (simp add: arena_simps slot_wf_blank)

end
