(* ===== verification/KvStore.thy ===== *)
theory KvStore
  imports Hashmap
begin

text \<open>
  The contract between the hash map and its clients (\<open>src/client.rs\<close>, and through it the RESP
  server and the C interface): a store is read as a finite map from keys to values with their
  expiry, and each operation is specified by its effect on that map.  The locale \<open>kv_store\<close> states
  the operations the clients call and the laws they rely on; what follows from the laws alone is
  proved in it once.
\<close>

section \<open>The abstract operations\<close>

type_synonym kv_map = "bytes \<rightharpoonup> bytes \<times> u64"

definition spec_get :: "u64 \<Rightarrow> bytes \<Rightarrow> kv_map \<Rightarrow> get_result" where
  "spec_get now k m =
    (case m k of None \<Rightarrow> NotFound
     | Some (v, e) \<Rightarrow> if expired_at now e then Expired else Found v)"

text \<open>Reading a key at \<open>now\<close> removes it if it has expired.\<close>

definition purge :: "u64 \<Rightarrow> bytes \<Rightarrow> kv_map \<Rightarrow> kv_map" where
  "purge now k m = (if spec_get now k m = Expired then m(k := None) else m)"

text \<open>The value of a key as seen at \<open>now\<close>.\<close>

definition live :: "u64 \<Rightarrow> kv_map \<Rightarrow> bytes \<Rightarrow> bytes option" where
  "live now m k = (case spec_get now k m of Found v \<Rightarrow> Some v | _ \<Rightarrow> None)"

lemma spec_get_None [simp]: "m k = None \<Longrightarrow> spec_get now k m = NotFound"
  by (simp add: spec_get_def)

lemma spec_get_Some [simp]:
  "m k = Some (v, e) \<Longrightarrow> spec_get now k m = (if expired_at now e then Expired else Found v)"
  by (simp add: spec_get_def)

lemma purge_other [simp]: "k' \<noteq> k \<Longrightarrow> purge now k m k' = m k'"
  by (simp add: purge_def)

lemma live_purge: "now \<le> t \<Longrightarrow> live t (purge now k m) = live t m"
  by (rule ext) (auto simp: live_def purge_def spec_get_def split: option.splits if_splits
      dest: expired_at_mono)

section \<open>Sequences of operations\<close>

datatype kv_op = OGet u64 bytes | OSet u64 bytes bytes u64 | ODel bytes | OFlush

datatype kv_res = RGet get_result | RSet set_result | RDel del_result | RFlush

text \<open>
  The specification of one operation: from which map, with which result, to which map it may go.
  A store is free to answer \<open>Full\<close> to a SET of a key that has no live value.
\<close>

inductive spec_step :: "kv_map \<Rightarrow> kv_op \<Rightarrow> kv_res \<Rightarrow> kv_map \<Rightarrow> bool" where
  get: "spec_step m (OGet now k) (RGet (spec_get now k m)) (purge now k m)"
| insert: "live now m k = None \<Longrightarrow>
    spec_step m (OSet now k v ttl) (RSet Inserted) (m(k \<mapsto> (take MAX_VAL_LEN v, ttl_to_expiry now ttl)))"
| update: "live now m k \<noteq> None \<Longrightarrow>
    spec_step m (OSet now k v ttl) (RSet Updated) (m(k \<mapsto> (take MAX_VAL_LEN v, ttl_to_expiry now ttl)))"
| full: "live now m k = None \<Longrightarrow> spec_step m (OSet now k v ttl) (RSet Full) m"
| del: "spec_step m (ODel k) (RDel (if m k = None then DelNotFound else Deleted)) (m(k := None))"
| flush: "spec_step m OFlush RFlush Map.empty"

inductive_cases spec_step_getE: "spec_step m (OGet now k) r m'"
inductive_cases spec_step_setE: "spec_step m (OSet now k v ttl) r m'"
inductive_cases spec_step_delE: "spec_step m (ODel k) r m'"
inductive_cases spec_step_flushE: "spec_step m OFlush r m'"

inductive spec_run :: "kv_map \<Rightarrow> kv_op list \<Rightarrow> kv_res list \<Rightarrow> kv_map \<Rightarrow> bool" where
  Nil: "spec_run m [] [] m"
| Cons: "spec_step m op r m' \<Longrightarrow> spec_run m' ops rs m'' \<Longrightarrow> spec_run m (op # ops) (r # rs) m''"

inductive_simps spec_run_Nil: "spec_run m [] rs m'"
inductive_simps spec_run_Cons: "spec_run m (op # ops) rs m'"

text \<open>The specification leaves open only whether a SET fails: the map after a step follows from
  the map before it and the result.\<close>

lemma spec_step_deterministic: "spec_step m op r m1 \<Longrightarrow> spec_step m op r m2 \<Longrightarrow> m2 = m1"
  by (cases op) (auto elim!: spec_step_getE spec_step_setE spec_step_delE spec_step_flushE)

text \<open>Running operations on a store that is given by its four operations.\<close>

fun kv_step ::
  "(u64 \<Rightarrow> bytes \<Rightarrow> 's \<Rightarrow> 's \<times> get_result) \<Rightarrow> (u64 \<Rightarrow> bytes \<Rightarrow> bytes \<Rightarrow> u64 \<Rightarrow> 's \<Rightarrow> 's \<times> set_result) \<Rightarrow>
   (bytes \<Rightarrow> 's \<Rightarrow> 's \<times> del_result) \<Rightarrow> ('s \<Rightarrow> 's) \<Rightarrow> kv_op \<Rightarrow> 's \<Rightarrow> 's \<times> kv_res" where
  "kv_step get_op set_op del_op flush_op (OGet now k) s = map_prod id RGet (get_op now k s)"
| "kv_step get_op set_op del_op flush_op (OSet now k v ttl) s = map_prod id RSet (set_op now k v ttl s)"
| "kv_step get_op set_op del_op flush_op (ODel k) s = map_prod id RDel (del_op k s)"
| "kv_step get_op set_op del_op flush_op OFlush s = (flush_op s, RFlush)"

fun kv_run :: "('op \<Rightarrow> 's \<Rightarrow> 's \<times> 'r) \<Rightarrow> 'op list \<Rightarrow> 's \<Rightarrow> 's \<times> 'r list" where
  "kv_run step [] s = (s, [])"
| "kv_run step (op # ops) s =
    (case step op s of (s1, r) \<Rightarrow> case kv_run step ops s1 of (s2, rs) \<Rightarrow> (s2, r # rs))"

lemma kv_run_Cons:
  "fst (kv_run step (op # ops) s) = fst (kv_run step ops (fst (step op s)))"
  "snd (kv_run step (op # ops) s) = snd (step op s) # snd (kv_run step ops (fst (step op s)))"
  by (simp_all split: prod.splits)

text \<open>Operations on keys of a given set that respect the length limit.\<close>

fun op_within :: "bytes set \<Rightarrow> kv_op \<Rightarrow> bool" where
  "op_within K (OGet now k) \<longleftrightarrow> k \<in> K"
| "op_within K (OSet now k v ttl) \<longleftrightarrow> k \<in> K \<and> length k \<le> MAX_KEY_LEN"
| "op_within K (ODel k) \<longleftrightarrow> True"
| "op_within K OFlush \<longleftrightarrow> True"

section \<open>The contract\<close>

locale kv_store =
  fixes get_op :: "u64 \<Rightarrow> bytes \<Rightarrow> 's \<Rightarrow> 's \<times> get_result"
    and set_op :: "u64 \<Rightarrow> bytes \<Rightarrow> bytes \<Rightarrow> u64 \<Rightarrow> 's \<Rightarrow> 's \<times> set_result"
    and del_op :: "bytes \<Rightarrow> 's \<Rightarrow> 's \<times> del_result"
    and flush_op :: "'s \<Rightarrow> 's"
    and invar :: "'s \<Rightarrow> bool"
    and entries :: "'s \<Rightarrow> kv_map"
    and hash :: "bytes \<Rightarrow> u64"
  assumes invar_get: "invar s \<Longrightarrow> invar (fst (get_op now k s))"
    and invar_set: "invar s \<Longrightarrow> length k \<le> MAX_KEY_LEN \<Longrightarrow> invar (fst (set_op now k v ttl s))"
    and invar_del: "invar s \<Longrightarrow> invar (fst (del_op k s))"
    and invar_flush: "invar s \<Longrightarrow> invar (flush_op s)"
    and get_result: "invar s \<Longrightarrow> \<forall>k'\<in>dom (entries s). hash k' = hash k \<longrightarrow> k' = k \<Longrightarrow>
      snd (get_op now k s) = spec_get now k (entries s)"
    and get_entries: "invar s \<Longrightarrow> \<forall>k'\<in>dom (entries s). hash k' = hash k \<longrightarrow> k' = k \<Longrightarrow>
      entries (fst (get_op now k s)) = purge now k (entries s)"
    and set_result: "invar s \<Longrightarrow> length k \<le> MAX_KEY_LEN \<Longrightarrow>
      snd (set_op now k v ttl s) = Updated \<longleftrightarrow> live now (entries s) k \<noteq> None"
    and set_full: "invar s \<Longrightarrow> length k \<le> MAX_KEY_LEN \<Longrightarrow>
      snd (set_op now k v ttl s) = Full \<Longrightarrow> fst (set_op now k v ttl s) = s"
    and set_entries: "invar s \<Longrightarrow> length k \<le> MAX_KEY_LEN \<Longrightarrow>
      \<forall>k'\<in>dom (entries s). hash k' = hash k \<longrightarrow> k' = k \<Longrightarrow> snd (set_op now k v ttl s) \<noteq> Full \<Longrightarrow>
      entries (fst (set_op now k v ttl s)) =
        (entries s)(k \<mapsto> (take MAX_VAL_LEN v, ttl_to_expiry now ttl))"
    and del_result: "invar s \<Longrightarrow>
      snd (del_op k s) = (if entries s k = None then DelNotFound else Deleted)"
    and del_entries: "invar s \<Longrightarrow> entries (fst (del_op k s)) = (entries s)(k := None)"
    and flush_entries: "invar s \<Longrightarrow> entries (flush_op s) = Map.empty"
begin

text \<open>A key whose fingerprint no other stored key shares.\<close>

definition separate :: "bytes \<Rightarrow> 's \<Rightarrow> bool" where
  "separate k s \<longleftrightarrow> (\<forall>k'\<in>dom (entries s). hash k' = hash k \<longrightarrow> k' = k)"

text \<open>A store that holds only keys of a set on which the hash is injective.\<close>

definition within :: "bytes set \<Rightarrow> 's \<Rightarrow> bool" where
  "within K s \<longleftrightarrow> invar s \<and> dom (entries s) \<subseteq> K \<and> inj_on hash K"

lemma within_separate: "within K s \<Longrightarrow> k \<in> K \<Longrightarrow> separate k s"
  by (auto simp: within_def separate_def inj_on_def)

lemma within_invar: "within K s \<Longrightarrow> invar s"
  by (simp add: within_def)

lemma within_get:
  assumes "within K s" "k \<in> K"
  shows "within K (fst (get_op now k s))" "snd (get_op now k s) = spec_get now k (entries s)"
    "entries (fst (get_op now k s)) = purge now k (entries s)"
proof -
  note sep = within_separate [OF assms, unfolded separate_def]
  show e: "entries (fst (get_op now k s)) = purge now k (entries s)"
    by (rule get_entries [OF within_invar [OF assms(1)] sep])
  show "snd (get_op now k s) = spec_get now k (entries s)"
    by (rule get_result [OF within_invar [OF assms(1)] sep])
  have "dom (purge now k (entries s)) \<subseteq> dom (entries s)"
    by (auto simp: purge_def)
  with assms(1) show "within K (fst (get_op now k s))"
    unfolding within_def e by (auto simp: invar_get)
qed

lemma within_set:
  assumes "within K s" "k \<in> K" "length k \<le> MAX_KEY_LEN"
  shows "within K (fst (set_op now k v ttl s))"
    "snd (set_op now k v ttl s) \<noteq> Full \<Longrightarrow> entries (fst (set_op now k v ttl s)) =
      (entries s)(k \<mapsto> (take MAX_VAL_LEN v, ttl_to_expiry now ttl))"
proof -
  note sep = within_separate [OF assms(1,2), unfolded separate_def]
  show e: "entries (fst (set_op now k v ttl s)) =
      (entries s)(k \<mapsto> (take MAX_VAL_LEN v, ttl_to_expiry now ttl))" if "snd (set_op now k v ttl s) \<noteq> Full"
    using set_entries [OF within_invar [OF assms(1)] assms(3) sep that] .
  show "within K (fst (set_op now k v ttl s))"
    using assms invar_set [of s k now v ttl] set_full [of s k now v ttl] e
    by (cases "snd (set_op now k v ttl s) = Full") (auto simp: within_def split: if_splits)
qed

lemma within_del: "within K s \<Longrightarrow> within K (fst (del_op k s))"
  using invar_del del_entries by (auto simp: within_def split: if_splits)

lemma within_flush: "within K s \<Longrightarrow> within K (flush_op s)"
  by (simp add: within_def invar_flush flush_entries)

text \<open>A store that obeys the laws refines the abstract map, one operation or many at a time.\<close>

lemma step_refines:
  assumes "within K s" "op_within K op"
  shows "within K (fst (kv_step get_op set_op del_op flush_op op s))"
    "spec_step (entries s) op (snd (kv_step get_op set_op del_op flush_op op s))
      (entries (fst (kv_step get_op set_op del_op flush_op op s)))"
proof -
  note inv = within_invar [OF assms(1)]
  show "within K (fst (kv_step get_op set_op del_op flush_op op s))"
    using assms by (cases op) (simp_all add: within_get(1) within_set(1) within_del within_flush)
  show "spec_step (entries s) op (snd (kv_step get_op set_op del_op flush_op op s))
      (entries (fst (kv_step get_op set_op del_op flush_op op s)))"
  proof (cases op)
    case (OGet now k)
    with assms show ?thesis
      by (simp add: within_get(2,3) spec_step.get)
  next
    case (OSet now k v ttl)
    with assms(2) have k: "k \<in> K" "length k \<le> MAX_KEY_LEN" by simp_all
    note res = set_result [OF inv k(2), of now v ttl]
    show ?thesis
    proof (cases "snd (set_op now k v ttl s)")
      case Inserted
      with res OSet within_set(2) [OF assms(1) k, of now v ttl] show ?thesis
        by (auto intro: spec_step.insert)
    next
      case Updated
      with res OSet within_set(2) [OF assms(1) k, of now v ttl] show ?thesis
        by (auto intro: spec_step.update)
    next
      case Full
      with res OSet set_full [OF inv k(2) Full] show ?thesis
        by (auto intro: spec_step.full)
    qed
  next
    case (ODel k)
    then show ?thesis
      using spec_step.del [of "entries s" k] by (simp add: del_result [OF inv] del_entries [OF inv])
  next
    case OFlush
    then show ?thesis by (simp add: flush_entries [OF inv] spec_step.flush)
  qed
qed

lemma run_refines:
  assumes "within K s" "\<forall>op\<in>List.set ops. op_within K op"
  shows "within K (fst (kv_run (kv_step get_op set_op del_op flush_op) ops s)) \<and>
    spec_run (entries s) ops (snd (kv_run (kv_step get_op set_op del_op flush_op) ops s))
      (entries (fst (kv_run (kv_step get_op set_op del_op flush_op) ops s)))"
  using assms
proof (induction ops arbitrary: s)
  case Nil
  then show ?case by (simp add: spec_run.Nil)
next
  case (Cons op ops)
  obtain s1 r where s1: "kv_step get_op set_op del_op flush_op op s = (s1, r)" by fastforce
  obtain s2 rs where s2: "kv_run (kv_step get_op set_op del_op flush_op) ops s1 = (s2, rs)" by fastforce
  have "within K s1" "spec_step (entries s) op r (entries s1)"
    using step_refines [of K s op] Cons.prems by (simp_all add: s1)
  moreover from this(1) have "within K s2 \<and> spec_run (entries s1) ops rs (entries s2)"
    using Cons.IH [of s1] Cons.prems(2) by (simp add: s2)
  ultimately show ?case by (simp add: s1 s2 spec_run.Cons)
qed

text \<open>Read your writes: a value that was stored is found again until its expiry.\<close>

lemma get_after_set:
  assumes "within K s" "k \<in> K" "length k \<le> MAX_KEY_LEN" "snd (set_op now k v ttl s) \<noteq> Full"
  shows "snd (get_op t k (fst (set_op now k v ttl s))) =
    (if expired_at t (ttl_to_expiry now ttl) then Expired else Found (take MAX_VAL_LEN v))"
  using within_get(2) [OF within_set(1) [OF assms(1-3)] assms(2)] within_set(2) [OF assms] by simp

lemma get_other_after_set:
  assumes "within K s" "k \<in> K" "k' \<in> K" "k' \<noteq> k" "length k \<le> MAX_KEY_LEN"
  shows "snd (get_op t k' (fst (set_op now k v ttl s))) = spec_get t k' (entries s)"
proof (cases "snd (set_op now k v ttl s) = Full")
  case True
  then show ?thesis
    using set_full [OF within_invar [OF assms(1)] assms(5)] within_get(2) [OF assms(1,3)] by simp
next
  case False
  then show ?thesis
    using within_get(2) [OF within_set(1) [OF assms(1,2,5)] assms(3)]
      within_set(2) [OF assms(1,2,5)] assms(4) by (simp add: spec_get_def)
qed

lemma get_after_del:
  assumes "within K s" "k \<in> K"
  shows "snd (get_op t k (fst (del_op k s))) = NotFound"
  using within_get(2) [OF within_del [OF assms(1)] assms(2), of t k] within_invar [OF assms(1)]
  by (simp add: del_entries)

end

end
