(* ===== verification/Store.thy ===== *)
theory Store
  imports HashmapProofs KvStore
begin

text \<open>
  The hash map obeys the contract of \<open>KvStore\<close>: the interpretation of the locale on the model of
  \<open>src/hashmap.rs\<close>, and the properties of the map that follow.
\<close>

section \<open>The laws of the contract\<close>

lemma wf_hashmap_get [wf_intros]:
  assumes "arena_wf a"
  shows "arena_wf (fst (hashmap_get now key a))"
proof (cases "hashmap_get now key a")
  case (Pair a' r)
  from hashmap_get_cases [OF assms this] show ?thesis
    using assms by cases (simp_all add: Pair wf_bury)
qed

lemma wf_hashmap_set [wf_intros]:
  assumes "arena_wf a" "length key \<le> MAX_KEY_LEN"
  shows "arena_wf (fst (hashmap_set now key val ttl a))"
proof (cases "hashmap_set now key val ttl a")
  case (Pair a' r)
  obtain b where "arena_wf b" "set_done key val (ttl_to_expiry now ttl) now b a' r"
    using hashmap_set_done [OF assms Pair] .
  then show ?thesis
    by (auto simp: Pair set_done_def arena_simps wf_claim wf_update split: set_result.splits)
qed

lemma wf_hashmap_del [wf_intros]:
  assumes "arena_wf a"
  shows "arena_wf (fst (hashmap_del key a))"
  by (rule hashmap_del_cases [OF assms, of key]) (simp_all add: arena_simps wf_bury assms)

lemma hashmap_get_spec:
  assumes wf: "arena_wf a" and sep: "\<forall>k'\<in>dom (entry a). siphash k' = siphash key \<longrightarrow> k' = key"
  shows "snd (hashmap_get now key a) = spec_get now key (entry a)"
    "entry (fst (hashmap_get now key a)) = purge now key (entry a)"
proof (atomize (full), cases "hashmap_get now key a")
  case (Pair a' r)
  show "snd (hashmap_get now key a) = spec_get now key (entry a) \<and>
    entry (fst (hashmap_get now key a)) = purge now key (entry a)"
  proof (cases rule: hashmap_get_cases [OF wf Pair, case_names absent expired found])
    case absent
    then have "entry a key = None" by (simp add: entry_None_iff)
    with absent show ?thesis by (simp add: Pair purge_def)
  next
    case (expired i)
    then have "read_key (slot a i) = key"
      using sep by (auto simp: entry_holds [OF wf])
    with expired have "holds a i key" by simp
    with expired show ?thesis
      by (simp add: Pair purge_def entry_holds [OF wf] entry_bury [OF wf \<open>holds a i key\<close>] is_expired_iff)
  next
    case (found i)
    then show ?thesis by (simp add: Pair purge_def entry_holds [OF wf] is_expired_iff)
  qed
qed

lemma hashmap_set_result:
  assumes wf: "arena_wf a" and len: "length key \<le> MAX_KEY_LEN"
  shows "snd (hashmap_set now key val ttl a) = Updated \<longleftrightarrow> live now (entry a) key \<noteq> None"
proof (cases "hashmap_set now key val ttl a")
  case (Pair a' r)
  obtain b where b: "evicts now (siphash key) a b" "arena_wf b"
    "set_done key val (ttl_to_expiry now ttl) now b a' r"
    using hashmap_set_done [OF assms Pair] .
  note ent = evicts_entry [OF wf b(2,1), of key]
  show ?thesis
  proof (cases r)
    case Updated
    with b(3) obtain i where "holds b i key" "\<not> is_expired now (slot b i)"
      by (auto simp: set_done_def)
    then have "entry a key = Some (read_value (slot b i), expires_at_ms (slot b i))"
      using ent by (auto simp: entry_holds [OF b(2)])
    with \<open>\<not> is_expired now (slot b i)\<close> show ?thesis
      by (simp add: Pair Updated live_def is_expired_iff)
  next
    case Inserted
    with b(3) have "entry b key = None" by (auto simp: set_done_def can_claim_def entry_None_iff)
    with ent show ?thesis by (auto simp: Pair Inserted live_def)
  next
    case Full
    with b(3) have "entry b key = None" by (auto simp: set_done_def entry_None_iff)
    with ent show ?thesis by (auto simp: Pair Full live_def)
  qed
qed

lemma hashmap_set_full:
  assumes "arena_wf a" "length key \<le> MAX_KEY_LEN" "snd (hashmap_set now key val ttl a) = Full"
  shows "fst (hashmap_set now key val ttl a) = a"
proof (cases "hashmap_set now key val ttl a")
  case (Pair a' r)
  obtain b where "set_done key val (ttl_to_expiry now ttl) now b a' r" "r = Full \<Longrightarrow> b = a"
    using hashmap_set_done [OF assms(1,2) Pair] by blast
  with assms(3) Pair show ?thesis by (simp add: set_done_def)
qed

text \<open>The entries after a SET that found room, in terms of the arena it wrote to.\<close>

lemma set_done_entry:
  assumes "arena_wf b" "set_done key val e now b a' r" "r \<noteq> Full"
  shows "entry a' = (entry b)(key \<mapsto> (take MAX_VAL_LEN val, e))"
  using assms by (auto simp: set_done_def arena_simps entry_update entry_claim split: set_result.splits)

lemma hashmap_set_entries:
  assumes wf: "arena_wf a" and len: "length key \<le> MAX_KEY_LEN"
    and sep: "\<forall>k'\<in>dom (entry a). siphash k' = siphash key \<longrightarrow> k' = key"
    and ok: "snd (hashmap_set now key val ttl a) \<noteq> Full"
  shows "entry (fst (hashmap_set now key val ttl a)) =
    (entry a)(key \<mapsto> (take MAX_VAL_LEN val, ttl_to_expiry now ttl))"
proof (cases "hashmap_set now key val ttl a")
  case (Pair a' r)
  obtain b where b: "evicts now (siphash key) a b" "arena_wf b"
    "set_done key val (ttl_to_expiry now ttl) now b a' r"
    using hashmap_set_done [OF wf len Pair] .
  have "entry b k = entry a k" if "k \<noteq> key" for k
    using evicts_entry [OF wf b(2,1), of k] sep that by auto
  with set_done_entry [OF b(2,3)] ok show ?thesis by (auto simp: Pair)
qed

lemma hashmap_del_spec:
  assumes wf: "arena_wf a"
  shows "snd (hashmap_del key a) = (if entry a key = None then DelNotFound else Deleted)"
    "entry (fst (hashmap_del key a)) = (entry a)(key := None)"
proof (atomize (full), rule hashmap_del_cases [OF wf, of key])
  assume "\<forall>m. \<not> holds a m key" "hashmap_del key a = (a, DelNotFound)"
  then show "snd (hashmap_del key a) = (if entry a key = None then DelNotFound else Deleted) \<and>
    entry (fst (hashmap_del key a)) = (entry a)(key := None)"
    by (simp add: entry_None_iff [symmetric])
next
  fix m assume "holds a m key" "hashmap_del key a = (add_used (- 1) (bury m a), Deleted)"
  then show "snd (hashmap_del key a) = (if entry a key = None then DelNotFound else Deleted) \<and>
    entry (fst (hashmap_del key a)) = (entry a)(key := None)"
    by (simp add: entry_holds [OF wf] arena_simps entry_bury [OF wf])
qed

interpretation hm: kv_store hashmap_get hashmap_set hashmap_del flush_all arena_wf entry siphash
  by unfold_locales
    (simp_all add: wf_intros hashmap_get_spec hashmap_set_result hashmap_set_full
      hashmap_set_entries hashmap_del_spec entry_flush_all)

section \<open>Properties of the map\<close>

text \<open>Operations on the arena, one and many.\<close>

definition arena_step :: "kv_op \<Rightarrow> arena \<Rightarrow> arena \<times> kv_res" where
  "arena_step = kv_step hashmap_get hashmap_set hashmap_del flush_all"

definition arena_run :: "kv_op list \<Rightarrow> arena \<Rightarrow> arena \<times> kv_res list" where
  "arena_run = kv_run arena_step"

fun op_admissible :: "kv_op \<Rightarrow> bool" where
  "op_admissible (OSet now k v ttl) \<longleftrightarrow> length k \<le> MAX_KEY_LEN"
| "op_admissible _ \<longleftrightarrow> True"

lemma wf_arena_step: "arena_wf a \<Longrightarrow> op_admissible op \<Longrightarrow> arena_wf (fst (arena_step op a))"
  by (cases op) (simp_all add: arena_step_def wf_intros)

lemma wf_arena_run: "arena_wf a \<Longrightarrow> \<forall>op\<in>List.set ops. op_admissible op \<Longrightarrow> arena_wf (fst (arena_run ops a))"
  unfolding arena_run_def
  by (induction ops arbitrary: a) (simp_all add: kv_run_Cons wf_arena_step del: kv_run.simps(2))

text \<open>
  C14: the invariant holds in every arena that operations of the map, in any order and number and
  with any keys (at most 128 bytes for SET), make of a freshly created one.
\<close>

theorem arena_wf_reachable:
  assumes "\<forall>i<SLOT_COUNT. slot_wf (slot m i)" "\<forall>op\<in>List.set ops. op_admissible op"
  shows "arena_wf (fst (arena_run ops (fresh_arena m)))"
  using wf_arena_run [OF wf_fresh_arena(1) [OF assms(1)] assms(2)] .

theorem arena_wf_reachable_witness:
  "arena_wf (fst (arena_run [OSet 5 [1] [2] 0, OGet 6 [1], ODel [1]] (fresh_arena blank_arena)))"
  by (rule arena_wf_reachable) (simp_all add: arena_simps slot_wf_blank model_consts)

text \<open>
  C1: the hash map refines the abstract map.  Run any sequence of operations on a well-formed
  arena, with keys from a set on which the hash is injective: the results are the ones that the
  specification allows from the map the arena stands for, and the arena reached stands for the
  map the specification reaches.
\<close>

theorem hashmap_refines_map:
  assumes "arena_wf a" "dom (entry a) \<subseteq> K" "inj_on siphash K" "\<forall>op\<in>List.set ops. op_within K op"
  shows "spec_run (entry a) ops (snd (arena_run ops a)) (entry (fst (arena_run ops a)))"
  using hm.run_refines [of K a ops] assms
  by (simp add: hm.within_def arena_run_def arena_step_def)

theorem hashmap_refines_map_witness:
  "spec_run Map.empty [OSet 5 [1] [2] 0, OGet 6 [1]]
    (snd (arena_run [OSet 5 [1] [2] 0, OGet 6 [1]] (fresh_arena blank_arena)))
    (entry (fst (arena_run [OSet 5 [1] [2] 0, OGet 6 [1]] (fresh_arena blank_arena))))"
  using hashmap_refines_map [of "fresh_arena blank_arena" "{[1]}" "[OSet 5 [1] [2] 0, OGet 6 [1]]"]
  by (simp add: entry_fresh_blank wf_fresh_blank model_consts)

text \<open>
  The probe sequence of a hash is a permutation of the slots: every index it computes is in
  range, and every slot is visited exactly once.
\<close>

theorem probe_permutation: "bij_betw (probe hash) {..<SLOT_COUNT} {..<SLOT_COUNT}"
proof (rule bij_betwI')
  fix p assume "p \<in> {..<SLOT_COUNT}"
  then show "\<exists>i\<in>{..<SLOT_COUNT}. p = probe hash i" using probe_surj [of p hash] by auto
qed auto

text \<open>
  C34: SET fails exactly when there is no room: on a well-formed arena it returns \<open>Full\<close> if and only
  if no slot is empty or a tombstone, no slot holds the key, and no slot with the key's
  fingerprint has expired.
\<close>

theorem set_full_iff:
  assumes wf: "arena_wf a" and len: "length key \<le> MAX_KEY_LEN"
  shows "snd (hashmap_set now key val ttl a) = Full \<longleftrightarrow>
    (\<forall>i<SLOT_COUNT. state (slot a i) \<notin> {STATE_EMPTY, STATE_TOMBSTONE} \<and>
      \<not> evictable now (siphash key) (slot a i) \<and> \<not> holds a i key)"
    (is "_ \<longleftrightarrow> ?busy")
proof (cases "hashmap_set now key val ttl a")
  case (Pair a' r)
  obtain b where b: "evicts now (siphash key) a b"
    "set_done key val (ttl_to_expiry now ttl) now b a' r" "r = Full \<Longrightarrow> b = a"
    using hashmap_set_done [OF wf len Pair] by blast
  have "r = Full" if busy: ?busy
  proof -
    have same: "slot b = slot a"
      using b(1) busy by (auto simp: evicts_def evictable_def fun_eq_iff)
    with busy have "\<not> holds b i key" for i
      by (metis holds_lt holds_slot_cong)
    with same busy b(2) show ?thesis
      by (cases r) (auto simp: set_done_def can_claim_def)
  qed
  with b(2,3) show ?thesis by (auto simp: Pair set_done_def)
qed

theorem set_full_iff_witness:
  "snd (hashmap_set 5 [1] [2] 0 (fresh_arena blank_arena)) \<noteq> Full"
proof
  assume full: "snd (hashmap_set 5 [1] [2] 0 (fresh_arena blank_arena)) = Full"
  have "length [1 :: u8] \<le> MAX_KEY_LEN" by (simp add: MAX_KEY_LEN_def)
  from set_full_iff [OF wf_fresh_blank this, THEN iffD1, OF full]
  have "state (slot (fresh_arena blank_arena) 0) \<noteq> STATE_EMPTY" by simp
  then show False by (simp add: arena_simps)
qed

text \<open>
  Expired entries of other keys keep the arena full.  If every slot is occupied by a key with
  another fingerprint, SET fails, whether or not those keys have expired: only a slot whose
  fingerprint matches is checked for expiry.
\<close>

theorem set_full_of_expired:
  assumes "\<forall>i<SLOT_COUNT. state (slot a i) = STATE_OCCUPIED \<and> fingerprint (slot a i) \<noteq> siphash key"
  shows "hashmap_set now key val ttl a = (a, Full)"
proof -
  have "set_loop now (siphash key) key val e None i a = (a, Full)" if "i \<le> SLOT_COUNT" for e i
    using that
  proof (induction "SLOT_COUNT - i" arbitrary: i)
    case 0
    then show ?case by (simp add: set_loop_end_none)
  next
    case (Suc n)
    then have "get_passes now (siphash key) key (slot a (probe (siphash key) i))"
      "state (slot a (probe (siphash key) i)) \<noteq> STATE_TOMBSTONE"
      using assms by (simp_all add: get_passes_def)
    with Suc show ?case by (simp add: set_loop_pass)
  qed
  then show ?thesis by (simp add: hashmap_set_def)
qed

text \<open>The witness: all slots hold a key that expired in 1970.\<close>

theorem set_full_of_expired_witness:
  "hashmap_set 1700000000000 [] [2] 0
     \<lparr>header = header blank_arena, slots = (\<lambda>_. blank_slot\<lparr>state := STATE_OCCUPIED, expires_at_ms := 1\<rparr>)\<rparr> =
   (\<lparr>header = header blank_arena, slots = (\<lambda>_. blank_slot\<lparr>state := STATE_OCCUPIED, expires_at_ms := 1\<rparr>)\<rparr>, Full)"
proof (rule set_full_of_expired)
  have "siphash [] \<noteq> 0" by (simp add: siphash_eval)
  then show "\<forall>i<SLOT_COUNT. state (slot \<lparr>header = header blank_arena,
      slots = (\<lambda>_. blank_slot\<lparr>state := STATE_OCCUPIED, expires_at_ms := 1\<rparr>)\<rparr> i) = STATE_OCCUPIED \<and>
    fingerprint (slot \<lparr>header = header blank_arena,
      slots = (\<lambda>_. blank_slot\<lparr>state := STATE_OCCUPIED, expires_at_ms := 1\<rparr>)\<rparr> i) \<noteq> siphash []"
    by (simp add: slot_def blank_slot_def)
qed

section \<open>Runs on a fresh arena\<close>

lemma set_fresh:
  "hashmap_set now key val ttl (fresh_arena blank_arena) =
    (add_used 1 (slot_mut (probe (siphash key) 0)
      (claim_slot (siphash key) key val (ttl_to_expiry now ttl)) (fresh_arena blank_arena)), Inserted)"
  by (simp add: hashmap_set_def set_loop_empty arena_simps)

lemma probe_0_1: "probe hash 0 \<noteq> probe hash 1" "probe hash 1 \<noteq> probe hash 0"
  by (simp_all add: SLOT_COUNT_def)

lemma one_lt_SLOT_COUNT: "Suc 0 < SLOT_COUNT"
  by (simp add: SLOT_COUNT_def)

lemma arena_run_simps:
  "arena_run [] a = (a, [])"
  "fst (arena_run (op # ops) a) = fst (arena_run ops (fst (arena_step op a)))"
  "snd (arena_run (op # ops) a) = snd (arena_step op a) # snd (arena_run ops (fst (arena_step op a)))"
  by (simp_all add: arena_run_def kv_run_Cons del: kv_run.simps(2))

lemma arena_step_simps:
  "arena_step (OGet now k) a = map_prod id RGet (hashmap_get now k a)"
  "arena_step (OSet now k v ttl) a = map_prod id RSet (hashmap_set now k v ttl a)"
  "arena_step (ODel k) a = map_prod id RDel (hashmap_del k a)"
  "arena_step OFlush a = (flush_all a, RFlush)"
  by (simp_all add: arena_step_def)

text \<open>
  A key stored for ever can be reported as expired.  Of two keys with the same hash, store one
  with a time to live of a second and then the other without one.  A second later GET of the
  other key returns \<open>Expired\<close>, because the expiry of a slot is looked at before its key is
  compared; the same GET repeated finds the value.
\<close>

theorem get_expired_by_collision:
  "\<exists>k1 k2. k1 \<noteq> k2 \<and> length k1 \<le> MAX_KEY_LEN \<and> length k2 \<le> MAX_KEY_LEN \<and>
    snd (arena_run [OSet 1000 k1 [1] 1, OSet 1000 k2 [2] 0, OGet 2000 k2, OGet 2000 k2]
      (fresh_arena blank_arena)) =
    [RSet Inserted, RSet Inserted, RGet Expired, RGet (Found [2])]"
proof -
  obtain k1 k2 where k: "k1 \<noteq> k2" "length k1 = 9" "length k2 = 9" "siphash k1 = siphash k2"
    using siphash_collision by blast
  define h p0 p1 where hp: "h = siphash k2" "p0 = probe h 0" "p1 = probe h 1"
  have ne [simp]: "p0 \<noteq> p1" "p1 \<noteq> p0" and lt [simp]: "p0 < SLOT_COUNT" "p1 < SLOT_COUNT"
    using probe_0_1 by (simp_all add: hp)
  have [simp]: "take MAX_KEY_LEN k1 = k1" "take MAX_KEY_LEN k2 = k2" "take MAX_VAL_LEN [2 :: u8] = [2]"
    using k by (simp_all add: model_consts)
  define a1 where "a1 = add_used 1 (slot_mut p0 (claim_slot h k1 [1] 2000) (fresh_arena blank_arena))"
  define a2 where "a2 = add_used 1 (slot_mut p1 (claim_slot h k2 [2] 0) a1)"
  note s = a1_def a2_def arena_simps slot_simps is_expired_iff get_passes_def expired_at_def
  have "hashmap_set 1000 k1 [1] 1 (fresh_arena blank_arena) = (a1, Inserted)"
    by (simp add: set_fresh a1_def hp k(4) ttl_to_expiry_def)
  moreover have "hashmap_set 1000 k2 [2] 0 a1 = (a2, Inserted)"
    using k(1) one_lt_SLOT_COUNT
      set_loop_pass [of 0 1000 h k2 a1 "[2]" 0 None, folded hp] set_loop_empty [of 1 a1 h 1000 k2 "[2]" 0 None, folded hp]
    by (simp add: hashmap_set_def ttl_to_expiry_def s flip: hp(1))
  moreover have "hashmap_get 2000 k2 a2 = (bury p0 a2, Expired)"
    using get_loop_expired [of 0 a2 h 2000 k2, folded hp] evict_is_bury [of a2 p0 2000]
    by (simp add: hashmap_get_def s flip: hp(1))
  moreover have "hashmap_get 2000 k2 (bury p0 a2) = (bury p0 a2, Found [2])"
    using one_lt_SLOT_COUNT get_loop_pass [of 0 2000 h k2 "bury p0 a2", folded hp]
      get_loop_found [of 1 "bury p0 a2" h 2000 k2, folded hp]
    by (simp add: hashmap_get_def s flip: hp(1))
  ultimately show ?thesis
    using k(1-3) by (intro exI [of _ k1] exI [of _ k2])
      (simp add: arena_run_simps arena_step_simps MAX_KEY_LEN_def)
qed

text \<open>
  A key of more than 128 bytes must not reach the map, which is why the client checks the
  length: SET on a fresh arena reports that it inserted the key, but only its first 128 bytes are
  stored, and GET of the key does not find it.
\<close>

theorem long_key_lost:
  assumes "MAX_KEY_LEN < length key"
  shows "snd (arena_run [OSet now key val 0, OGet later key] (fresh_arena blank_arena)) =
    [RSet Inserted, RGet NotFound]"
proof -
  define h where "h = siphash key"
  define a where "a = fst (hashmap_set now key val 0 (fresh_arena blank_arena))"
  have a: "a = add_used 1 (slot_mut (probe h 0) (claim_slot h key val 0) (fresh_arena blank_arena))"
    by (simp add: a_def set_fresh h_def ttl_to_expiry_def)
  have "take MAX_KEY_LEN key \<noteq> key"
    using assms by (metis length_take min_less_iff_conj order_less_irrefl)
  then have "get_passes later h key (slot a (probe h 0))"
    by (simp add: a arena_simps slot_simps get_passes_def is_expired_iff)
  then have "get_loop later h key 0 a = get_loop later h key 1 a"
    by (simp add: get_loop_pass)
  also have "\<dots> = (a, NotFound)"
    using probe_0_1 [of h] by (intro get_loop_empty) (simp_all add: a arena_simps one_lt_SLOT_COUNT)
  finally have "hashmap_get later key a = (a, NotFound)" by (simp add: hashmap_get_def h_def)
  moreover have "hashmap_set now key val 0 (fresh_arena blank_arena) = (a, Inserted)"
    by (simp add: a_def set_fresh)
  ultimately show ?thesis by (simp add: arena_run_simps arena_step_simps)
qed

theorem long_key_lost_witness:
  "snd (arena_run [OSet 5 (replicate 129 1) [2] 0, OGet 6 (replicate 129 1)] (fresh_arena blank_arena)) =
    [RSet Inserted, RGet NotFound]"
  by (rule long_key_lost) (simp add: MAX_KEY_LEN_def)

section \<open>The occupancy counter\<close>

definition occupied :: "arena \<Rightarrow> nat set" where
  "occupied a = {i. i < SLOT_COUNT \<and> state (slot a i) = STATE_OCCUPIED}"

lemma finite_occupied [simp]: "finite (occupied a)"
  by (simp add: occupied_def)

lemma occupied_add_used [arena_simps]: "occupied (add_used d a) = occupied a"
  by (simp add: occupied_def arena_simps)

lemma occupied_bury [arena_simps]: "occupied (bury i a) = occupied a - {i}"
  by (auto simp: occupied_def arena_simps)

lemma occupied_update [arena_simps]: "occupied (slot_mut i (update_slot v e) a) = occupied a"
  by (auto simp: occupied_def arena_simps slot_simps)

lemma occupied_claim [arena_simps]:
  "i < SLOT_COUNT \<Longrightarrow> occupied (claim key val e i a) = insert i (occupied a)"
  by (auto simp: occupied_def arena_simps slot_simps)

lemma used_add_used [arena_simps]: "used_count (header (add_used d a)) = used_count (header a) + d"
  by (simp add: add_used_def)

lemma occupied_fresh: "occupied (fresh_arena blank_arena) = {}"
  by (auto simp: occupied_def arena_simps)

lemma used_count_fresh: "used_count (header (fresh_arena blank_arena)) = 0"
  by (simp add: fresh_arena_def arena_simps init_header_def)

definition count_exact :: "arena \<Rightarrow> bool" where
  "count_exact a \<longleftrightarrow> hashmap_used_count a = of_nat (card (occupied a))"

lemma count_exact_get:
  assumes wf: "arena_wf a" and exact: "count_exact a"
    and none: "\<forall>i<SLOT_COUNT. \<not> evictable now (siphash key) (slot a i)"
  shows "count_exact (fst (hashmap_get now key a))"
proof (cases "hashmap_get now key a")
  case (Pair a' r)
  have "a' = a"
  proof (rule hashmap_get_cases [OF wf Pair])
    fix i assume i: "holds a i (read_key (slot a i))" "siphash (read_key (slot a i)) = siphash key"
      "is_expired now (slot a i)"
    then have "evictable now (siphash key) (slot a i)" "i < SLOT_COUNT"
      by (simp_all add: evictable_def wf_fingerprint [OF wf i(1)] holds_def)
    with none show "a' = a" by blast
  qed
  with exact show ?thesis by (simp add: Pair)
qed

lemma count_exact_set:
  assumes wf: "arena_wf a" and len: "length key \<le> MAX_KEY_LEN" and exact: "count_exact a"
    and none: "\<forall>i<SLOT_COUNT. \<not> evictable now (siphash key) (slot a i)"
    and room: "\<exists>i<SLOT_COUNT. state (slot a i) = STATE_EMPTY"
  shows "count_exact (fst (hashmap_set now key val ttl a))"
proof (cases "hashmap_set now key val ttl a")
  case (Pair a' r)
  obtain b where b: "evicts now (siphash key) a b"
    "set_done key val (ttl_to_expiry now ttl) now b a' r"
    using hashmap_set_done [OF wf len Pair] by blast
  have same: "slot b = slot a" "header b = header a"
    using b(1) none by (auto simp: evicts_def evictable_def fun_eq_iff)
  then have cb: "count_exact b"
    using exact by (simp add: count_exact_def hashmap_used_count_def occupied_def)
  show ?thesis
  proof (cases r)
    case Inserted
    with b(2) same(1) room obtain j where j: "can_claim b key j"
      "a' = add_used 1 (claim key val (ttl_to_expiry now ttl) (probe (siphash key) j) b)"
      by (auto simp: set_done_def)
    then have "probe (siphash key) j \<notin> occupied b" by (auto simp: can_claim_def occupied_def)
    with cb j(2) show ?thesis
      by (simp add: Pair count_exact_def hashmap_used_count_def arena_simps)
  next
    case Updated
    with b(2) obtain i where "a' = slot_mut i (update_slot val (ttl_to_expiry now ttl)) b"
      by (auto simp: set_done_def)
    with cb show ?thesis
      by (simp add: Pair count_exact_def hashmap_used_count_def arena_simps)
  next
    case Full
    with b(2) cb show ?thesis by (simp add: Pair set_done_def)
  qed
qed

lemma count_exact_del:
  assumes wf: "arena_wf a" and exact: "count_exact a"
  shows "count_exact (fst (hashmap_del key a))"
proof (rule hashmap_del_cases [OF wf, of key])
  fix m assume "holds a m key" "hashmap_del key a = (add_used (- 1) (bury m a), Deleted)"
  moreover from this have "m \<in> occupied a" by (simp add: occupied_def holds_def)
  moreover from this have "0 < card (occupied a)" by (auto simp: card_gt_0_iff)
  ultimately show ?thesis
    using exact by (simp add: count_exact_def hashmap_used_count_def arena_simps of_nat_diff)
qed (simp add: exact)

text \<open>
  C36: the counter is exact while nothing expires and room is left.  If the counter of a
  well-formed arena equals the number of occupied slots, no slot with the key's fingerprint has
  expired and some slot is empty, then the counter is equal again after GET, SET and DEL of the
  key.
\<close>

theorem used_count_exact:
  assumes wf: "arena_wf a" and len: "length key \<le> MAX_KEY_LEN" and exact: "count_exact a"
    and none: "\<forall>i<SLOT_COUNT. \<not> evictable now (siphash key) (slot a i)"
    and room: "\<exists>i<SLOT_COUNT. state (slot a i) = STATE_EMPTY"
  shows "count_exact (fst (hashmap_get now key a)) \<and> count_exact (fst (hashmap_set now key val ttl a)) \<and>
    count_exact (fst (hashmap_del key a))"
  using count_exact_get [OF wf exact none] count_exact_set [OF wf len exact none room]
    count_exact_del [OF wf exact] by blast

text \<open>
  It drifts once something expires.  A key that is stored with a time to live, expires, and is
  stored again counts twice: the eviction does not take it off the counter.
\<close>

theorem used_count_drifts:
  assumes "length key \<le> MAX_KEY_LEN"
  shows "hashmap_used_count (fst (arena_run [OSet 1000 key [1] 1, OSet 3000 key [2] 0]
      (fresh_arena blank_arena))) = 2 \<and>
    card (occupied (fst (arena_run [OSet 1000 key [1] 1, OSet 3000 key [2] 0]
      (fresh_arena blank_arena)))) = 1"
proof -
  define h p where hp: "h = siphash key" "p = probe h 0"
  have key: "take MAX_KEY_LEN key = key" using assms by simp
  define a1 where "a1 = add_used 1 (slot_mut p (claim_slot h key [1] 2000) (fresh_arena blank_arena))"
  have a1: "hashmap_set 1000 key [1] 1 (fresh_arena blank_arena) = (a1, Inserted)"
    by (simp add: set_fresh a1_def hp ttl_to_expiry_def)
  have p: "p < SLOT_COUNT" by (simp add: hp)
  have slot_p: "slot a1 p = claim_slot h key [1] 2000 (slot (fresh_arena blank_arena) p)"
    by (simp add: a1_def arena_simps)
  have "set_loop 3000 h key [2] 0 None 0 a1 =
      set_loop 3000 h key [2] 0 (Some p) 1 (bury p a1)"
    using set_loop_evict [of 0 a1 h 3000 key "[2]" 0 None, folded hp(2)] slot_p evict_is_bury [of a1 p 3000]
    by (simp add: slot_simps is_expired_iff expired_at_def first_some_def)
  also have "\<dots> = (add_used 1 (slot_mut p (claim_slot h key [2] 0) (bury p a1)), Inserted)"
    using probe_0_1 [of h] one_lt_SLOT_COUNT
    by (subst set_loop_empty) (simp_all add: a1_def arena_simps hp(2))
  finally have a2: "hashmap_set 3000 key [2] 0 a1 =
      (add_used 1 (slot_mut p (claim_slot h key [2] 0) (bury p a1)), Inserted)"
    by (simp add: hashmap_set_def ttl_to_expiry_def hp(1))
  note fresh = occupied_fresh used_count_fresh
  have "occupied (slot_mut p (claim_slot h key v e) a) = insert p (occupied a)" for v e a
    using occupied_claim [OF p, of key v e a] by (simp add: claim_def hp(1))
  moreover from this have "occupied a1 = {p}" "used_count (header a1) = 1"
    by (simp_all add: a1_def arena_simps fresh)
  ultimately show ?thesis
    by (simp add: arena_run_simps arena_step_simps a1 a2 hashmap_used_count_def arena_simps)
qed

theorem used_count_drifts_witness:
  "hashmap_used_count (fst (arena_run [OSet 1000 [7] [1] 1, OSet 3000 [7] [2] 0]
      (fresh_arena blank_arena))) = 2"
  using used_count_drifts [of "[7]"] by (simp add: MAX_KEY_LEN_def)

text \<open>
  DEL does not look at the expiry.  A key that has expired but was not evicted is reported as
  deleted, although GET at the same time does not give its value and EXISTS denies it.
\<close>

theorem del_reports_expired:
  assumes "arena_wf a" "entry a key = Some (v, e)" "expired_at now e"
    and "\<forall>k'\<in>dom (entry a). siphash k' = siphash key \<longrightarrow> k' = key"
  shows "snd (hashmap_del key a) = Deleted \<and> snd (hashmap_get now key a) = Expired \<and>
    \<not> snd (hashmap_exists now key a)"
  using assms
  by (simp add: hashmap_del_spec hashmap_get_spec hashmap_exists_def split_beta)

text \<open>The entry of a key after one SET on a fresh arena.\<close>

lemma entry_set_fresh:
  assumes "length key \<le> MAX_KEY_LEN"
  shows "entry (fst (hashmap_set now key val ttl (fresh_arena blank_arena))) =
    [key \<mapsto> (take MAX_VAL_LEN val, ttl_to_expiry now ttl)]"
  using hashmap_set_entries [OF wf_fresh_blank assms, of now val ttl]
  by (simp add: entry_fresh_blank) (simp add: set_fresh)

theorem del_reports_expired_witness:
  "snd (hashmap_del [7] (fst (hashmap_set 1000 [7] [1] 1 (fresh_arena blank_arena)))) = Deleted \<and>
   snd (hashmap_get 2000 [7] (fst (hashmap_set 1000 [7] [1] 1 (fresh_arena blank_arena)))) = Expired"
proof -
  let ?a = "fst (hashmap_set 1000 [7] [1] 1 (fresh_arena blank_arena))"
  have "arena_wf ?a" by (simp add: wf_hashmap_set wf_fresh_blank MAX_KEY_LEN_def)
  moreover have "entry ?a = [[7] \<mapsto> ([1], 2000)]"
    by (simp add: entry_set_fresh MAX_KEY_LEN_def MAX_VAL_LEN_def ttl_to_expiry_def)
  ultimately show ?thesis
    using del_reports_expired [of ?a "[7]" "[1]" 2000 2000] by (simp add: expired_at_def)
qed

theorem used_count_exact_witness:
  "count_exact (fst (hashmap_set 5 [7] [1] 0 (fresh_arena blank_arena)))"
proof -
  have "count_exact (fresh_arena blank_arena)"
    by (simp add: count_exact_def hashmap_used_count_def occupied_fresh used_count_fresh)
  moreover have "\<forall>i<SLOT_COUNT. \<not> evictable 5 (siphash [7]) (slot (fresh_arena blank_arena) i)"
    by (simp add: evictable_def arena_simps)
  moreover have "\<exists>i<SLOT_COUNT. state (slot (fresh_arena blank_arena) i) = STATE_EMPTY"
    by (rule exI [of _ 0]) (simp add: arena_simps)
  ultimately show ?thesis
    using used_count_exact [OF wf_fresh_blank, of "[7]" 5 "[1]" 0] by (simp add: MAX_KEY_LEN_def)
qed

end
