(* ===== verification/RustStr.thy ===== *)
theory RustStr
  imports Memlane_Prelude
begin

text \<open>
  The parts of Rust's \<open>str\<close> and integer parsing that the client and the server use.  A \<open>&str\<close> or
  \<open>String\<close> is the list of its UTF-8 bytes: the validity check of \<open>std::str::from_utf8\<close>, the
  replacement of \<open>String::from_utf8_lossy\<close>, the ASCII part of the case conversions, and decimal
  printing and parsing of \<open>u64\<close> and \<open>i64\<close> with their error cases.
\<close>

section \<open>UTF-8\<close>

definition between :: "u8 \<Rightarrow> u8 \<Rightarrow> u8 \<Rightarrow> bool" where
  "between lo hi b \<longleftrightarrow> lo \<le> b \<and> b \<le> hi"

definition is_cont :: "u8 \<Rightarrow> bool" where
  "is_cont b = between 0x80 0xBF b"

text \<open>The byte at an index, 0 beyond the end, as the validator of the standard library reads it.\<close>

fun byte_at :: "bytes \<Rightarrow> nat \<Rightarrow> u8" where
  "byte_at [] n = 0"
| "byte_at (b # bs) 0 = b"
| "byte_at (b # bs) (Suc n) = byte_at bs n"

text \<open>Second byte allowed after a given first byte (no overlong forms, no surrogates, at most U+10FFFF).\<close>

definition second_ok :: "u8 \<Rightarrow> u8 \<Rightarrow> bool" where
  "second_ok b0 b1 =
    (if b0 = 0xE0 then between 0xA0 0xBF b1
     else if b0 = 0xED then between 0x80 0x9F b1
     else if b0 = 0xF0 then between 0x90 0xBF b1
     else if b0 = 0xF4 then between 0x80 0x8F b1
     else is_cont b1)"

text \<open>
  One step of the decoder on a non-empty string: whether a character starts here, and the number
  of bytes of the character or of the maximal invalid prefix.
\<close>

definition utf8_step :: "bytes \<Rightarrow> bool \<times> nat" where
  "utf8_step bs =
    (let b0 = byte_at bs 0; b1 = byte_at bs 1; b2 = byte_at bs 2; b3 = byte_at bs 3
     in if b0 < 0x80 then (True, 1)
        else if between 0xC2 0xDF b0 then (if is_cont b1 then (True, 2) else (False, 1))
        else if between 0xE0 0xEF b0 then
          (if \<not> second_ok b0 b1 then (False, 1) else if is_cont b2 then (True, 3) else (False, 2))
        else if between 0xF0 0xF4 b0 then
          (if \<not> second_ok b0 b1 then (False, 1) else if \<not> is_cont b2 then (False, 2)
           else if is_cont b3 then (True, 4) else (False, 3))
        else (False, 1))"

lemma utf8_step_pos: "0 < snd (utf8_step bs)"
  by (simp add: utf8_step_def Let_def)

lemma utf8_step_drop: "bs \<noteq> [] \<Longrightarrow> length (drop (snd (utf8_step bs)) bs) < length bs"
  using utf8_step_pos [of bs] by (cases bs) simp_all

function valid_utf8 :: "bytes \<Rightarrow> bool" where
  "valid_utf8 bs =
    (if bs = [] then True else fst (utf8_step bs) \<and> valid_utf8 (drop (snd (utf8_step bs)) bs))"
  by pat_completeness auto
termination
  by (relation "measure length") (simp_all add: utf8_step_drop del: length_drop)

definition replacement_char :: bytes where
  "replacement_char = [0xEF, 0xBF, 0xBD]"

function from_utf8_lossy :: "bytes \<Rightarrow> bytes" where
  "from_utf8_lossy bs =
    (if bs = [] then []
     else (if fst (utf8_step bs) then take (snd (utf8_step bs)) bs else replacement_char)
       @ from_utf8_lossy (drop (snd (utf8_step bs)) bs))"
  by pat_completeness auto
termination
  by (relation "measure length") (simp_all add: utf8_step_drop del: length_drop)

text \<open>The characters of a string, each as its bytes.\<close>

function chars :: "bytes \<Rightarrow> bytes list" where
  "chars bs = (if bs = [] then [] else take (snd (utf8_step bs)) bs # chars (drop (snd (utf8_step bs)) bs))"
  by pat_completeness auto
termination
  by (relation "measure length") (simp_all add: utf8_step_drop del: length_drop)

declare valid_utf8.simps [simp del] from_utf8_lossy.simps [simp del] chars.simps [simp del]

lemma valid_utf8_Nil [simp]: "valid_utf8 []"
  by (simp add: valid_utf8.simps)

lemma from_utf8_lossy_Nil [simp]: "from_utf8_lossy [] = []"
  by (simp add: from_utf8_lossy.simps)

lemma chars_Nil [simp]: "chars [] = []"
  by (simp add: chars.simps)

lemma utf8_step_ascii [simp]: "b < 0x80 \<Longrightarrow> utf8_step (b # bs) = (True, 1)"
  by (simp add: utf8_step_def)

lemma valid_utf8_ascii_Cons [simp]: "b < 0x80 \<Longrightarrow> valid_utf8 (b # bs) \<longleftrightarrow> valid_utf8 bs"
  by (subst valid_utf8.simps) simp

lemma chars_ascii_Cons [simp]: "b < 0x80 \<Longrightarrow> chars (b # bs) = [b] # chars bs"
  by (subst chars.simps) simp

lemma from_utf8_lossy_ascii_Cons [simp]: "b < 0x80 \<Longrightarrow> from_utf8_lossy (b # bs) = b # from_utf8_lossy bs"
  by (subst from_utf8_lossy.simps) simp

definition is_ascii :: "bytes \<Rightarrow> bool" where
  "is_ascii bs \<longleftrightarrow> (\<forall>b\<in>List.set bs. b < 0x80)"

lemma is_ascii_Nil [simp]: "is_ascii []"
  by (simp add: is_ascii_def)

lemma is_ascii_Cons [simp]: "is_ascii (b # bs) \<longleftrightarrow> b < 0x80 \<and> is_ascii bs"
  by (simp add: is_ascii_def)

lemma is_ascii_append [simp]: "is_ascii (bs @ cs) \<longleftrightarrow> is_ascii bs \<and> is_ascii cs"
  by (auto simp: is_ascii_def)

lemma valid_utf8_ascii [simp]: "is_ascii bs \<Longrightarrow> valid_utf8 (bs @ cs) \<longleftrightarrow> valid_utf8 cs"
  by (induction bs) auto

lemma is_ascii_valid: "is_ascii bs \<Longrightarrow> valid_utf8 bs"
  using valid_utf8_ascii [of bs "[]"] by simp

lemma lossy_ascii [simp]: "is_ascii bs \<Longrightarrow> from_utf8_lossy bs = bs"
  by (induction bs) auto

lemma lossy_valid: "valid_utf8 bs \<Longrightarrow> from_utf8_lossy bs = bs"
proof (induction bs rule: valid_utf8.induct)
  case (1 bs)
  then show ?case
    by (subst from_utf8_lossy.simps) (auto simp: valid_utf8.simps [of bs])
qed

lemma concat_chars: "concat (chars bs) = bs"
proof (induction bs rule: chars.induct)
  case (1 bs)
  then show ?case by (subst chars.simps) auto
qed

section \<open>Case conversion\<close>

text \<open>
  Upper case of ASCII letters.  What \<open>to_uppercase\<close> does with a character outside ASCII is the
  Unicode table of the standard library: the argument \<open>uc\<close>, from the bytes of one character to
  those of its upper case.  \<open>to_lowercase\<close> looks at the neighbours of a Greek sigma, so its argument
  \<open>lc\<close> takes the whole string and is used when the string is not ASCII.
\<close>

definition upper_byte :: "u8 \<Rightarrow> u8" where
  "upper_byte b = (if between 0x61 0x7A b then b - 0x20 else b)"

definition lower_byte :: "u8 \<Rightarrow> u8" where
  "lower_byte b = (if between 0x41 0x5A b then b + 0x20 else b)"

definition upper_char :: "(bytes \<Rightarrow> bytes) \<Rightarrow> bytes \<Rightarrow> bytes" where
  "upper_char uc c = (case c of [b] \<Rightarrow> [upper_byte b] | _ \<Rightarrow> uc c)"

definition to_uppercase :: "(bytes \<Rightarrow> bytes) \<Rightarrow> bytes \<Rightarrow> bytes" where
  "to_uppercase uc s = concat (map (upper_char uc) (chars s))"

definition to_lowercase :: "(bytes \<Rightarrow> bytes) \<Rightarrow> bytes \<Rightarrow> bytes" where
  "to_lowercase lc s = (if \<forall>b\<in>List.set s. b < 0x80 then map lower_byte s else lc s)"

lemma to_uppercase_Nil [simp]: "to_uppercase uc [] = []"
  by (simp add: to_uppercase_def)

lemma to_uppercase_Cons [simp]: "b < 0x80 \<Longrightarrow> to_uppercase uc (b # bs) = upper_byte b # to_uppercase uc bs"
  by (simp add: to_uppercase_def upper_char_def)

lemma to_uppercase_ascii: "is_ascii bs \<Longrightarrow> to_uppercase uc bs = map upper_byte bs"
  by (induction bs) auto

lemma to_lowercase_ascii: "is_ascii bs \<Longrightarrow> to_lowercase lc bs = map lower_byte bs"
  by (simp add: to_lowercase_def is_ascii_def)

section \<open>Decimal numbers\<close>

definition digit_byte :: "nat \<Rightarrow> u8" where
  "digit_byte d = of_nat (48 + d)"

fun show_nat :: "nat \<Rightarrow> bytes" where
  "show_nat n = (if n < 10 then [digit_byte n] else show_nat (n div 10) @ [digit_byte (n mod 10)])"

text \<open>\<open>to_string\<close> of an \<open>i64\<close>.\<close>

definition show_int :: "int \<Rightarrow> bytes" where
  "show_int i = (if i < 0 then 0x2D # show_nat (nat (- i)) else show_nat (nat i))"

fun parse_digits :: "nat \<Rightarrow> bytes \<Rightarrow> nat option" where
  "parse_digits acc [] = Some acc"
| "parse_digits acc (b # bs) =
    (if between 0x30 0x39 b then parse_digits (acc * 10 + (unat b - 48)) bs else None)"

text \<open>
  \<open>str::parse::<u64>()\<close> and \<open>parse::<i64>()\<close>: an empty string, a lone sign, a character that is no
  digit and a value out of range are errors; a leading \<open>+\<close> is allowed, a leading \<open>-\<close> for \<open>i64\<close> only.
\<close>

definition parse_u64 :: "bytes \<Rightarrow> u64 option" where
  "parse_u64 s =
    (let digits = (case s of b # bs \<Rightarrow> if b = 0x2B then bs else s | [] \<Rightarrow> [])
     in if digits = [] then None
        else case parse_digits 0 digits of
          None \<Rightarrow> None
        | Some n \<Rightarrow> if n < 2 ^ 64 then Some (of_nat n) else None)"

definition parse_i64 :: "bytes \<Rightarrow> int option" where
  "parse_i64 s =
    (let (neg, digits) = (case s of
           [] \<Rightarrow> (False, [])
         | b # bs \<Rightarrow> if b = 0x2B then (False, bs) else if b = 0x2D then (True, bs) else (False, s))
     in if digits = [] then None
        else case parse_digits 0 digits of
          None \<Rightarrow> None
        | Some n \<Rightarrow>
            if neg then (if n \<le> 2 ^ 63 then Some (- int n) else None)
            else (if n < 2 ^ 63 then Some (int n) else None))"

declare show_nat.simps [simp del]

lemma unat_digit_byte: "d < 10 \<Longrightarrow> unat (digit_byte d) = 48 + d"
  by (simp add: digit_byte_def unat_of_nat take_bit_nat_eq_self del: of_nat_add)

lemma between_digit: "d < 10 \<Longrightarrow> between 0x30 0x39 (digit_byte d)"
  using unat_digit_byte [of d] by (simp add: between_def word_le_nat_alt)

lemma digit_byte_ascii [simp]: "d < 10 \<Longrightarrow> digit_byte d < 0x80"
  using unat_digit_byte [of d] by (simp add: word_less_nat_alt)

lemma digit_byte_neq: "d < 10 \<Longrightarrow> \<not> between 0x30 0x39 b \<Longrightarrow> digit_byte d \<noteq> b"
  using between_digit by blast

lemma show_nat_not_Nil [simp]: "show_nat n \<noteq> []"
  by (simp add: show_nat.simps [of n])

lemma show_nat_digits: "b \<in> List.set (show_nat n) \<Longrightarrow> between 0x30 0x39 b"
proof (induction n rule: show_nat.induct)
  case (1 n)
  then show ?case
    by (subst (asm) (2) show_nat.simps) (auto simp: between_digit split: if_splits)
qed

lemma show_nat_ascii [simp]: "is_ascii (show_nat n)"
proof -
  have "b < 0x80" if "between 0x30 0x39 b" for b :: u8
    using that by (simp add: between_def word_le_nat_alt word_less_nat_alt)
  then show ?thesis
    by (auto simp: is_ascii_def dest: show_nat_digits)
qed

lemma valid_show_nat [simp]: "valid_utf8 (show_nat n)"
  by (simp add: is_ascii_valid)

lemma show_int_ascii [simp]: "is_ascii (show_int i)"
  by (simp add: show_int_def)

lemma parse_digits_append:
  "parse_digits acc (xs @ ys) = (case parse_digits acc xs of None \<Rightarrow> None | Some n \<Rightarrow> parse_digits n ys)"
  by (induction acc xs rule: parse_digits.induct) auto

lemma parse_digits_show [simp]: "parse_digits 0 (show_nat n) = Some n"
proof (induction n rule: show_nat.induct)
  case (1 n)
  show ?case
  proof (cases "n < 10")
    case True
    then show ?thesis
      by (simp add: show_nat.simps [of n] between_digit unat_digit_byte)
  next
    case False
    with 1 show ?thesis
      by (simp add: show_nat.simps [of n] parse_digits_append between_digit unat_digit_byte)
  qed
qed

lemma show_nat_head: "\<exists>b bs. show_nat n = b # bs \<and> between 0x30 0x39 b"
  using show_nat_digits [of "hd (show_nat n)" n] by (cases "show_nat n") auto

lemma digit_no_sign: "between 0x30 0x39 b \<Longrightarrow> b \<noteq> 0x2B \<and> b \<noteq> 0x2D"
  by (auto simp: between_def)

lemma parse_u64_digit_head:
  "between 0x30 0x39 b \<Longrightarrow> parse_u64 (b # bs) =
    (case parse_digits 0 (b # bs) of None \<Rightarrow> None
     | Some n \<Rightarrow> if n < 2 ^ 64 then Some (of_nat n) else None)"
  using digit_no_sign [of b] by (simp add: parse_u64_def del: parse_digits.simps)

lemma parse_i64_digit_head:
  "between 0x30 0x39 b \<Longrightarrow> parse_i64 (b # bs) =
    (case parse_digits 0 (b # bs) of None \<Rightarrow> None
     | Some n \<Rightarrow> if n < 2 ^ 63 then Some (int n) else None)"
  using digit_no_sign [of b] by (simp add: parse_i64_def del: parse_digits.simps cong: option.case_cong)

lemma parse_u64_show [simp]: "n < 2 ^ 64 \<Longrightarrow> parse_u64 (show_nat n) = Some (of_nat n)"
  using parse_digits_show [of n] show_nat_head [of n] by (auto simp only: parse_u64_digit_head option.case if_True)

lemma parse_i64_show_nat: "n < 2 ^ 63 \<Longrightarrow> parse_i64 (show_nat n) = Some (int n)"
  using parse_digits_show [of n] show_nat_head [of n] by (auto simp only: parse_i64_digit_head option.case if_True)

lemma parse_i64_show:
  assumes "- (2 ^ 63) \<le> i" "i < 2 ^ 63"
  shows "parse_i64 (show_int i) = Some i"
proof (cases "i < 0")
  case True
  with assms(1) have "nat (- i) \<le> 2 ^ 63" by simp
  with True show ?thesis
    by (simp add: parse_i64_def show_int_def)
next
  case False
  with assms(2) show ?thesis
    by (simp add: show_int_def parse_i64_show_nat del: power_numeral)
qed

lemma parse_i64_range: "parse_i64 s = Some i \<Longrightarrow> - (2 ^ 63) \<le> i \<and> i < 2 ^ 63"
  by (auto simp: parse_i64_def Let_def split: list.splits if_splits option.splits prod.splits)

lemma show_int_digits: "b \<in> List.set (show_int i) \<Longrightarrow> between 0x30 0x39 b \<or> b = 0x2D"
  by (auto simp: show_int_def dest: show_nat_digits split: if_splits)

lemma parse_i64_sint: "parse_i64 (show_int (sint (n :: i64))) = Some (sint n)"
  using sint_ge [of n] sint_less [of n] by (intro parse_i64_show) simp_all

section \<open>Numbers as text\<close>

text \<open>
  What a stored counter and a number on the wire rely on: printing gives digits and at most a
  sign, and parsing reads them back.
\<close>

locale decimal =
  fixes show_num :: "'n \<Rightarrow> bytes" and parse_num :: "bytes \<Rightarrow> 'n option"
  assumes parse_show: "parse_num (show_num n) = Some n"
    and show_chars: "b \<in> List.set (show_num n) \<Longrightarrow> between 0x30 0x39 b \<or> b = 0x2D"
begin

lemma show_inj: "show_num m = show_num n \<Longrightarrow> m = n"
  by (metis option.inject parse_show)

lemma show_no_control: "b < 0x20 \<Longrightarrow> b \<notin> List.set (show_num n)"
  using show_chars [of b n] by (auto simp: between_def word_le_nat_alt word_less_nat_alt)

lemma show_is_ascii: "is_ascii (show_num n)"
  unfolding is_ascii_def
proof
  fix b assume "b \<in> List.set (show_num n)"
  with show_chars show "b < 0x80"
    by (fastforce simp: between_def word_le_nat_alt word_less_nat_alt)
qed

lemma show_valid: "valid_utf8 (show_num n)"
  by (rule is_ascii_valid [OF show_is_ascii])

end

interpretation dec_u64: decimal "\<lambda>n :: u64. show_nat (unat n)" parse_u64
proof
  show "parse_u64 (show_nat (unat n)) = Some n" for n :: u64
  proof -
    have "unat n < 2 ^ 64" using unsigned_less [of n, where 'a = nat] by simp
    from parse_u64_show [OF this] show ?thesis by simp
  qed
qed (simp add: show_nat_digits)

interpretation dec_i64: decimal "\<lambda>n :: i64. show_int (sint n)" "\<lambda>s. map_option of_int (parse_i64 s)"
  by unfold_locales (simp_all add: parse_i64_sint show_int_digits)

end
