(* ===== verification/F64.thy ===== *)
theory F64
  imports RustStr
begin

text \<open>
  The \<open>f64\<close> arithmetic behind the fill ratio and the percentiles.  All values there are
  non-negative and far from the ends of the exponent range, so a value is a natural number of
  units of \<open>2 ^ - 200\<close>, and every operation gives the nearest number of 53 significant bits, ties
  to even, of the exact result.
\<close>

fun bit_length :: "nat \<Rightarrow> nat" where
  "bit_length n = (if n = 0 then 0 else Suc (bit_length (n div 2)))"

declare bit_length.simps [simp del]

text \<open>\<open>n / d\<close> to the nearest natural number, ties to even.\<close>

definition round_half_even :: "nat \<Rightarrow> nat \<Rightarrow> nat" where
  "round_half_even n d =
    (if 2 * (n mod d) > d \<or> 2 * (n mod d) = d \<and> odd (n div d) then n div d + 1 else n div d)"

text \<open>\<open>n / d\<close> to the nearest number of 53 significant bits.\<close>

definition f64_round :: "nat \<Rightarrow> nat \<Rightarrow> nat" where
  "f64_round n d = (let s = bit_length (n div d) - 53 in round_half_even n (d * 2 ^ s) * 2 ^ s)"

definition f64_unit :: nat where
  "f64_unit = 2 ^ 200"

definition f64_nat :: "nat \<Rightarrow> nat" where
  "f64_nat n = f64_round n 1 * f64_unit"

definition f64_div :: "nat \<Rightarrow> nat \<Rightarrow> nat" where
  "f64_div x y = f64_round (x * f64_unit) y"

definition f64_mul :: "nat \<Rightarrow> nat \<Rightarrow> nat" where
  "f64_mul x y = f64_round (x * y) f64_unit"

text \<open>\<open>f64::round\<close>: half away from zero.\<close>

definition f64_to_int :: "nat \<Rightarrow> nat" where
  "f64_to_int x = (2 * x + f64_unit) div (2 * f64_unit)"

text \<open>\<open>{:.2}\<close>.\<close>

definition f64_fixed2 :: "nat \<Rightarrow> bytes" where
  "f64_fixed2 x = (let c = round_half_even (x * 100) f64_unit
    in show_nat (c div 100) @ [0x2E, digit_byte (c div 10 mod 10), digit_byte (c mod 10)])"

section \<open>Exact cases\<close>

lemma f64_unit_pos [simp]: "0 < f64_unit"
  by (simp add: f64_unit_def)

lemma less_bit_length: "n < 2 ^ bit_length n"
proof (induction n rule: bit_length.induct)
  case (1 n)
  then show ?case by (cases "n = 0") (auto simp: bit_length.simps [of n])
qed

lemma bit_length_le: "0 < n \<Longrightarrow> 2 ^ (bit_length n - 1) \<le> n"
proof (induction n rule: bit_length.induct)
  case (1 n)
  show ?case
  proof (cases "n div 2 = 0")
    case True
    with 1 show ?thesis by (simp add: bit_length.simps [of n] bit_length.simps [of 0])
  next
    case False
    with 1 have "2 ^ (bit_length (n div 2) - 1) \<le> n div 2" by simp
    moreover have "bit_length (n div 2) \<noteq> 0" using False by (simp add: bit_length.simps [of "n div 2"])
    ultimately show ?thesis
      using 1(2) by (simp add: bit_length.simps [of n] power_eq_if [of 2 "bit_length (n div 2)"])
  qed
qed

lemma bit_length_mono_bound: "n < 2 ^ k \<Longrightarrow> bit_length n \<le> k"
proof (rule ccontr)
  assume n: "n < 2 ^ k" and "\<not> bit_length n \<le> k"
  then have "k \<le> bit_length n - 1" "0 < n" by (auto simp: bit_length.simps [of 0] intro: gr0I)
  then have "2 ^ k \<le> (2::nat) ^ (bit_length n - 1)" by (intro power_increasing) simp_all
  also have "\<dots> \<le> n" by (rule bit_length_le [OF \<open>0 < n\<close>])
  finally show False using n by simp
qed

lemma round_half_even_exact: "0 < d \<Longrightarrow> round_half_even (d * n) d = n"
  by (simp add: round_half_even_def)

text \<open>A number whose significant bits fit is represented exactly.\<close>

lemma f64_round_exact:
  assumes "m < 2 ^ 53" "0 < d" "n = d * (m * 2 ^ e)"
  shows "f64_round n d = m * 2 ^ e"
proof -
  have "m * 2 ^ e < 2 ^ (53 + e)" using assms(1) by (simp add: power_add)
  then have "bit_length (n div d) \<le> 53 + e" using assms(2,3) bit_length_mono_bound by simp
  then have le: "bit_length (n div d) - 53 \<le> e" by simp
  then have eq: "n = d * 2 ^ (bit_length (n div d) - 53) * (m * 2 ^ (e - (bit_length (n div d) - 53)))"
    by (simp add: assms(3) power_add [symmetric] mult.left_commute)
  have "round_half_even n (d * 2 ^ (bit_length (n div d) - 53)) = m * 2 ^ (e - (bit_length (n div d) - 53))"
    using round_half_even_exact [of "d * 2 ^ (bit_length (n div d) - 53)", folded eq] assms(2)
      arg_cong [OF eq, of "\<lambda>x. round_half_even x (d * 2 ^ (bit_length (n div d) - 53))"]
    by (simp add: round_half_even_exact)
  with le show ?thesis
    by (simp add: f64_round_def Let_def mult.assoc power_add [symmetric])
qed

lemma f64_nat_exact [simp]: "n < 2 ^ 53 \<Longrightarrow> f64_nat n = n * f64_unit"
  using f64_round_exact [of n 1 n 0] by (simp add: f64_nat_def)

section \<open>Rounding is monotone\<close>

lemma bit_length_mono: "m \<le> n \<Longrightarrow> bit_length m \<le> bit_length n"
  by (rule bit_length_mono_bound) (rule le_less_trans [OF _ less_bit_length])

lemma round_half_even_bounds: "n div d \<le> round_half_even n d" "round_half_even n d \<le> n div d + 1"
  by (simp_all add: round_half_even_def)

lemma round_half_even_mono:
  assumes "m \<le> n"
  shows "round_half_even m d \<le> round_half_even n d"
proof (cases "m div d = n div d")
  case True
  then have "m mod d \<le> n mod d"
    using assms by (metis add_le_cancel_left div_mult_mod_eq)
  with True show ?thesis by (auto simp: round_half_even_def)
next
  case False
  moreover have "m div d \<le> n div d" using assms by (rule div_le_mono)
  ultimately have "m div d + 1 \<le> n div d" by simp
  then show ?thesis
    using round_half_even_bounds(2) [of m d] round_half_even_bounds(1) [of n d] by linarith
qed

lemma round_half_even_le: "0 < d \<Longrightarrow> n \<le> d * k \<Longrightarrow> round_half_even n d \<le> k"
  using round_half_even_mono [of n "d * k" d] by (simp add: round_half_even_exact)

lemma round_half_even_ge: "0 < d \<Longrightarrow> d * k \<le> n \<Longrightarrow> k \<le> round_half_even n d"
  using round_half_even_mono [of "d * k" n d] by (simp add: round_half_even_exact)

text \<open>Two numbers of different binary magnitude round to different sides of a power of two.\<close>

lemma f64_round_upper:
  assumes "0 < d" "bit_length (n div d) - 53 \<le> s"
  shows "f64_round n d \<le> 2 ^ (53 + s)"
proof -
  let ?s = "bit_length (n div d) - 53"
  have "n div d < 2 ^ bit_length (n div d)" by (rule less_bit_length)
  also have "\<dots> \<le> 2 ^ (53 + ?s)" by (rule power_increasing) simp_all
  finally have "n < 2 ^ (53 + ?s) * d"
    using assms(1) by (simp only: div_less_iff_less_mult)
  then have "n \<le> d * 2 ^ ?s * 2 ^ 53" by (simp add: power_add ac_simps)
  then have "round_half_even n (d * 2 ^ ?s) \<le> 2 ^ 53"
    using assms(1) by (intro round_half_even_le) simp_all
  then have "f64_round n d \<le> 2 ^ 53 * 2 ^ ?s"
    unfolding f64_round_def Let_def by (rule mult_right_mono) simp
  also have "\<dots> \<le> 2 ^ 53 * 2 ^ s" using assms(2) by (intro mult_left_mono power_increasing) simp_all
  finally show ?thesis by (simp add: power_add)
qed

lemma f64_round_lower:
  assumes "0 < d" "Suc s \<le> bit_length (n div d) - 53"
  shows "2 ^ (53 + s) \<le> f64_round n d"
proof -
  let ?s = "bit_length (n div d) - 53"
  have "0 < n div d" using assms(2) by (auto simp: bit_length.simps [of 0] intro: gr0I)
  from bit_length_le [OF this] assms(2) have "2 ^ (52 + ?s) \<le> n div d" by simp
  then have "2 ^ (52 + ?s) * d \<le> n"
    using assms(1) by (simp only: less_eq_div_iff_mult_less_eq)
  then have "d * 2 ^ ?s * 2 ^ 52 \<le> n" by (simp add: power_add ac_simps)
  then have "2 ^ 52 \<le> round_half_even n (d * 2 ^ ?s)"
    using assms(1) by (intro round_half_even_ge) simp_all
  then have "2 ^ 52 * 2 ^ ?s \<le> f64_round n d"
    unfolding f64_round_def Let_def by (rule mult_right_mono) simp
  moreover have "(2::nat) ^ (53 + s) \<le> 2 ^ (52 + ?s)" using assms(2) by (intro power_increasing) simp_all
  ultimately show ?thesis by (simp add: power_add)
qed

lemma f64_round_mono:
  assumes "m \<le> n" "0 < d"
  shows "f64_round m d \<le> f64_round n d"
proof -
  let ?s = "bit_length (m div d) - 53" and ?t = "bit_length (n div d) - 53"
  have "?s \<le> ?t" using assms(1) by (intro diff_le_mono bit_length_mono div_le_mono)
  show ?thesis
  proof (cases "?s = ?t")
    case True
    then show ?thesis
      unfolding f64_round_def Let_def using assms(1) by (simp add: round_half_even_mono)
  next
    case False
    with \<open>?s \<le> ?t\<close> have "Suc ?s \<le> ?t" by simp
    from f64_round_upper [OF assms(2), of m ?s] f64_round_lower [OF assms(2) this] show ?thesis by simp
  qed
qed

lemma f64_nat_mono: "m \<le> n \<Longrightarrow> f64_nat m \<le> f64_nat n"
  by (simp add: f64_nat_def f64_round_mono)

lemma f64_div_mono: "x \<le> y \<Longrightarrow> 0 < z \<Longrightarrow> f64_div x z \<le> f64_div y z"
  by (simp add: f64_div_def f64_round_mono)

lemma f64_mul_mono: "x \<le> x' \<Longrightarrow> y \<le> y' \<Longrightarrow> f64_mul x y \<le> f64_mul x' y'"
  by (simp add: f64_mul_def f64_round_mono mult_mono)

lemma f64_to_int_mono: "x \<le> y \<Longrightarrow> f64_to_int x \<le> f64_to_int y"
  by (simp add: f64_to_int_def div_le_mono)

lemma f64_to_int_nat [simp]: "f64_to_int (n * f64_unit) = n"
proof -
  have "2 * (n * f64_unit) + f64_unit = f64_unit + n * (2 * f64_unit)" by simp
  then show ?thesis
    unfolding f64_to_int_def by (simp only: div_mult_self1) (simp add: f64_unit_def)
qed

lemma f64_round_exact_nat: "m < 2 ^ 53 \<Longrightarrow> 0 < d \<Longrightarrow> n = d * (m * f64_unit) \<Longrightarrow> f64_round n d = m * f64_unit"
  unfolding f64_unit_def by (rule f64_round_exact)

lemma f64_div_self: "0 < x \<Longrightarrow> f64_div x x = f64_unit"
  using f64_round_exact_nat [of 1 x] by (simp add: f64_div_def)

lemma f64_mul_1: "n < 2 ^ 53 \<Longrightarrow> f64_mul f64_unit (n * f64_unit) = n * f64_unit"
  using f64_round_exact_nat [of n f64_unit] by (simp add: f64_mul_def)

end
