(* ===== verification/Client.thy ===== *)
theory Client
  imports Store F64
begin

text \<open>
  \<open>src/client.rs\<close>: the Rust API over the map.  It checks lengths before it calls the map, turns the
  map's results into \<open>Result\<close>s, and builds the batch operations and the counters out of GET and SET.
  An operation that calls the map several times takes the clock readings of those calls: one
  argument each for INCR and DECR, a function of the index of the call for MGET and MSET.
\<close>

section \<open>Errors\<close>

datatype client_error = ArenaInit bytes | ArenaFull nat | KeyTooLong nat | ValueTooLong nat

definition em_dash :: bytes where
  "em_dash = [0xE2, 0x80, 0x94]"

definition show_client_error :: "client_error \<Rightarrow> bytes" where
  "show_client_error e = (case e of
      ArenaInit m \<Rightarrow> ascii ''Arena initialisation failed: '' @ m
    | ArenaFull n \<Rightarrow> ascii ''Arena is full '' @ em_dash @ ascii '' all '' @ show_nat n @ ascii '' slots are occupied''
    | KeyTooLong n \<Rightarrow> ascii ''Key too long: '' @ show_nat n @ ascii '' bytes (max 128)''
    | ValueTooLong n \<Rightarrow> ascii ''Value too long: '' @ show_nat n @ ascii '' bytes (max 1024)'')"

text \<open>\<open>{:#x}\<close> of a number.\<close>

fun show_hex :: "nat \<Rightarrow> bytes" where
  "show_hex n = (if n < 16 then [] else show_hex (n div 16)) @
    [if n mod 16 < 10 then of_nat (48 + n mod 16) else of_nat (87 + n mod 16)]"

definition show_shm_error :: "shm_error \<Rightarrow> bytes" where
  "show_shm_error e = (case e of
      ShmOpenFailed errno \<Rightarrow> ascii ''shm_open failed: errno='' @ show_int errno
    | FtruncateFailed \<Rightarrow> ascii ''ftruncate failed''
    | MmapFailed \<Rightarrow> ascii ''mmap failed''
    | ShmOpenMissing \<Rightarrow> ascii ''shm_open (open) failed '' @ em_dash @ ascii '' has create_arena() been called?''
    | MmapFailedOnOpen \<Rightarrow> ascii ''mmap failed on open''
    | InvalidMagic m \<Rightarrow> ascii ''Invalid arena magic: 0x'' @ show_hex (unat m)
    | WindowsUnsupported \<Rightarrow> ascii ''Windows shared memory support coming in Phase 2 extension. Run under WSL for now.'')"

declare show_hex.simps [simp del]

section \<open>Connecting\<close>

definition client_create :: "int \<Rightarrow> int \<Rightarrow> int \<Rightarrow> arena option \<Rightarrow> (mapping, client_error) rresult" where
  "client_create ret_open errno ret_trunc ret_mmap =
    (case snd (create_arena ret_open errno ret_trunc ret_mmap) of
      Inl e \<Rightarrow> Err (ArenaInit (show_shm_error e))
    | Inr m \<Rightarrow> Ok m)"

definition client_open :: "int \<Rightarrow> arena option \<Rightarrow> (mapping, client_error) rresult" where
  "client_open ret_open ret_mmap =
    (case snd (open_arena ret_open ret_mmap) of
      Inl e \<Rightarrow> Err (ArenaInit (show_shm_error e))
    | Inr m \<Rightarrow> Ok m)"

section \<open>Core operations\<close>

definition client_get :: "u64 \<Rightarrow> bytes \<Rightarrow> arena \<Rightarrow> arena \<times> (bytes option, client_error) rresult" where
  "client_get now key a =
    (if length key > MAX_KEY_LEN then (a, Err (KeyTooLong (length key)))
     else case hashmap_get now key a of (a', result) \<Rightarrow>
       (a', case result of Found val \<Rightarrow> Ok (Some val) | NotFound \<Rightarrow> Ok None | Expired \<Rightarrow> Ok None))"

definition client_set ::
  "u64 \<Rightarrow> bytes \<Rightarrow> bytes \<Rightarrow> u64 \<Rightarrow> arena \<Rightarrow> arena \<times> (bool, client_error) rresult" where
  "client_set now key val ttl_secs a =
    (if length key > MAX_KEY_LEN then (a, Err (KeyTooLong (length key)))
     else if length val > MAX_VAL_LEN then (a, Err (ValueTooLong (length val)))
     else case hashmap_set now key val ttl_secs a of (a', result) \<Rightarrow>
       (a', case result of Inserted \<Rightarrow> Ok True | Updated \<Rightarrow> Ok False | Full \<Rightarrow> Err (ArenaFull SLOT_COUNT)))"

definition client_del :: "bytes \<Rightarrow> arena \<Rightarrow> arena \<times> (bool, client_error) rresult" where
  "client_del key a =
    (if length key > MAX_KEY_LEN then (a, Err (KeyTooLong (length key)))
     else case hashmap_del key a of (a', result) \<Rightarrow> (a', Ok (result = Deleted)))"

definition client_exists :: "u64 \<Rightarrow> bytes \<Rightarrow> arena \<Rightarrow> arena \<times> (bool, client_error) rresult" where
  "client_exists now key a =
    (if length key > MAX_KEY_LEN then (a, Err (KeyTooLong (length key)))
     else case hashmap_exists now key a of (a', b) \<Rightarrow> (a', Ok b))"

definition client_flush :: "arena \<Rightarrow> arena \<times> (unit, client_error) rresult" where
  "client_flush a = (flush_all a, Ok ())"

section \<open>Metadata\<close>

definition client_used_count :: "arena \<Rightarrow> u64" where
  "client_used_count a = hashmap_used_count a"

definition client_capacity :: "arena \<Rightarrow> nat" where
  "client_capacity a = hashmap_capacity a"

text \<open>\<open>fill_ratio\<close> is an \<open>f64\<close> quotient.\<close>

definition client_fill_ratio :: "arena \<Rightarrow> nat" where
  "client_fill_ratio a = f64_div (f64_nat (unat (client_used_count a))) (f64_nat (client_capacity a))"

section \<open>Batch operations\<close>

fun client_mget ::
  "(nat \<Rightarrow> u64) \<Rightarrow> bytes list \<Rightarrow> arena \<Rightarrow> arena \<times> (bytes option list, client_error) rresult" where
  "client_mget clk [] a = (a, Ok [])"
| "client_mget clk (k # ks) a =
    (case client_get (clk 0) k a of
      (a1, Ok v) \<Rightarrow>
        (case client_mget (\<lambda>i. clk (Suc i)) ks a1 of
          (a2, Ok vs) \<Rightarrow> (a2, Ok (v # vs))
        | (a2, Err e) \<Rightarrow> (a2, Err e)
        | (a2, Panic) \<Rightarrow> (a2, Panic))
    | (a1, Err e) \<Rightarrow> (a1, Err e)
    | (a1, Panic) \<Rightarrow> (a1, Panic))"

fun mset_loop ::
  "(nat \<Rightarrow> u64) \<Rightarrow> (bytes \<times> bytes) list \<Rightarrow> u64 \<Rightarrow> nat \<Rightarrow> arena \<Rightarrow> arena \<times> (nat, client_error) rresult" where
  "mset_loop clk [] ttl_secs count a = (a, Ok count)"
| "mset_loop clk ((k, v) # pairs) ttl_secs count a =
    (case client_set (clk 0) k v ttl_secs a of
      (a1, Ok _) \<Rightarrow> mset_loop (\<lambda>i. clk (Suc i)) pairs ttl_secs (count + 1) a1
    | (a1, Err e) \<Rightarrow> (a1, Err e)
    | (a1, Panic) \<Rightarrow> (a1, Panic))"

definition client_mset ::
  "(nat \<Rightarrow> u64) \<Rightarrow> (bytes \<times> bytes) list \<Rightarrow> u64 \<Rightarrow> arena \<Rightarrow> arena \<times> (nat, client_error) rresult" where
  "client_mset clk pairs ttl_secs a = mset_loop clk pairs ttl_secs 0 a"

section \<open>Counters\<close>

text \<open>The number a counter holds: 0 for an absent key and for anything that is no decimal \<open>u64\<close>.\<close>

definition read_number :: "bytes option \<Rightarrow> u64" where
  "read_number stored = (case stored of
      Some bytes \<Rightarrow>
        (let s = (if valid_utf8 bytes then bytes else ascii ''0'')
         in case parse_u64 s of Some n \<Rightarrow> n | None \<Rightarrow> 0)
    | None \<Rightarrow> 0)"

text \<open>\<open>current + 1\<close> wraps around in a release build.\<close>

definition client_incr :: "u64 \<Rightarrow> u64 \<Rightarrow> bytes \<Rightarrow> arena \<Rightarrow> arena \<times> (u64, client_error) rresult" where
  "client_incr now1 now2 key a =
    (case client_get now1 key a of
      (a1, Ok stored) \<Rightarrow>
        (let next = read_number stored + 1
         in case client_set now2 key (show_nat (unat next)) 0 a1 of
              (a2, Ok _) \<Rightarrow> (a2, Ok next)
            | (a2, Err e) \<Rightarrow> (a2, Err e)
            | (a2, Panic) \<Rightarrow> (a2, Panic))
    | (a1, Err e) \<Rightarrow> (a1, Err e)
    | (a1, Panic) \<Rightarrow> (a1, Panic))"

definition saturating_sub :: "u64 \<Rightarrow> u64 \<Rightarrow> u64" where
  "saturating_sub x y = (if y \<le> x then x - y else 0)"

definition client_decr :: "u64 \<Rightarrow> u64 \<Rightarrow> bytes \<Rightarrow> arena \<Rightarrow> arena \<times> (u64, client_error) rresult" where
  "client_decr now1 now2 key a =
    (case client_get now1 key a of
      (a1, Ok stored) \<Rightarrow>
        (let next = saturating_sub (read_number stored) 1
         in case client_set now2 key (show_nat (unat next)) 0 a1 of
              (a2, Ok _) \<Rightarrow> (a2, Ok next)
            | (a2, Err e) \<Rightarrow> (a2, Err e)
            | (a2, Panic) \<Rightarrow> (a2, Panic))
    | (a1, Err e) \<Rightarrow> (a1, Err e)
    | (a1, Panic) \<Rightarrow> (a1, Panic))"

section \<open>The client on the abstract map\<close>

text \<open>
  The states the lemmas speak about: a well-formed arena that holds only keys of a set on which
  the hash is injective.
\<close>

definition client_ok :: "bytes set \<Rightarrow> arena \<Rightarrow> bool" where
  "client_ok K a \<longleftrightarrow> arena_wf a \<and> dom (entry a) \<subseteq> K \<and> inj_on siphash K"

lemma client_ok_within: "client_ok K a = hm.within K a"
  by (simp add: client_ok_def hm.within_def)

lemma client_ok_wf: "client_ok K a \<Longrightarrow> arena_wf a"
  by (simp add: client_ok_def)

lemma client_get_spec:
  assumes "client_ok K a" "k \<in> K" "length k \<le> MAX_KEY_LEN"
  shows "snd (client_get now k a) = Ok (live now (entry a) k)"
    "client_ok K (fst (client_get now k a))"
    "entry (fst (client_get now k a)) = purge now k (entry a)"
  using hm.within_get [OF assms(1,2) [unfolded client_ok_within], of now] assms(3)
  by (simp_all add: client_get_def client_ok_within live_def case_prod_beta split: get_result.splits)

lemma client_set_spec:
  assumes "client_ok K a" "k \<in> K" "length k \<le> MAX_KEY_LEN" "length v \<le> MAX_VAL_LEN"
  shows "snd (client_set now k v ttl a) =
      (if snd (hashmap_set now k v ttl a) = Full then Err (ArenaFull SLOT_COUNT)
       else Ok (live now (entry a) k = None))"
    "client_ok K (fst (client_set now k v ttl a))"
    "entry (fst (client_set now k v ttl a)) =
      (if snd (hashmap_set now k v ttl a) = Full then entry a
       else (entry a)(k \<mapsto> (v, ttl_to_expiry now ttl)))"
  using hm.within_set [OF assms(1,2) [unfolded client_ok_within] assms(3), of now v ttl] assms(3,4)
    hashmap_set_full [OF client_ok_wf [OF assms(1)] assms(3), of now v ttl]
    hashmap_set_result [OF client_ok_wf [OF assms(1)] assms(3), of now v ttl]
  by (auto simp: client_set_def client_ok_within case_prod_beta split: set_result.splits)

lemma client_del_spec:
  assumes "client_ok K a" "length k \<le> MAX_KEY_LEN"
  shows "snd (client_del k a) = Ok (entry a k \<noteq> None)"
    "client_ok K (fst (client_del k a))"
    "entry (fst (client_del k a)) = (entry a)(k := None)"
  using hm.within_del [OF assms(1) [unfolded client_ok_within], of k] assms(2)
    hashmap_del_spec [OF client_ok_wf [OF assms(1)], of k]
  by (simp_all add: client_del_def client_ok_within case_prod_beta)

lemma client_exists_spec:
  assumes "client_ok K a" "k \<in> K" "length k \<le> MAX_KEY_LEN"
  shows "snd (client_exists now k a) = Ok (live now (entry a) k \<noteq> None)"
    "client_ok K (fst (client_exists now k a))"
    "entry (fst (client_exists now k a)) = purge now k (entry a)"
  using hm.within_get [OF assms(1,2) [unfolded client_ok_within], of now] assms(3)
  by (auto simp: client_exists_def hashmap_exists_def client_ok_within live_def
      case_prod_beta split: get_result.splits)

lemma client_flush_spec:
  assumes "client_ok K a"
  shows "client_ok K (fst (client_flush a))" "entry (fst (client_flush a)) = Map.empty"
  using hm.within_flush [OF assms [unfolded client_ok_within]] entry_flush_all [OF client_ok_wf [OF assms]]
  by (simp_all add: client_flush_def client_ok_within)

lemma client_ok_fresh [simp]: "client_ok {k} (fresh_arena blank_arena)"
  by (simp add: client_ok_def wf_fresh_blank entry_fresh_blank)

section \<open>When there is room\<close>

definition has_room :: "arena \<Rightarrow> bool" where
  "has_room a \<longleftrightarrow> (\<exists>i<SLOT_COUNT. state (slot a i) \<in> {STATE_EMPTY, STATE_TOMBSTONE})"

lemma set_room:
  assumes "arena_wf a" "length key \<le> MAX_KEY_LEN" "has_room a"
  shows "snd (hashmap_set now key val ttl a) \<noteq> Full"
proof (cases "hashmap_set now key val ttl a")
  case (Pair a' r)
  obtain b where "set_done key val (ttl_to_expiry now ttl) now b a' r" "r = Full \<Longrightarrow> b = a"
    using hashmap_set_done [OF assms(1,2) Pair] by blast
  with assms(3) show ?thesis by (auto simp: Pair set_done_def has_room_def)
qed

lemma has_room_get:
  assumes "arena_wf a" "has_room a"
  shows "has_room (fst (hashmap_get now key a))"
proof (cases "hashmap_get now key a")
  case (Pair a' r)
  from hashmap_get_cases [OF assms(1) Pair] assms(2) show ?thesis
    by cases (auto simp: Pair has_room_def arena_simps holds_def)
qed

lemma has_room_client_get: "arena_wf a \<Longrightarrow> has_room a \<Longrightarrow> has_room (fst (client_get now k a))"
  using has_room_get [of a now k] by (simp add: client_get_def case_prod_beta)

lemma has_room_fresh: "has_room (fresh_arena blank_arena)"
  unfolding has_room_def using state_fresh_blank [of 0] SLOT_COUNT_pos by (intro exI [of _ 0]) simp

lemma set_live: "arena_wf a \<Longrightarrow> length key \<le> MAX_KEY_LEN \<Longrightarrow> live now (entry a) key \<noteq> None \<Longrightarrow>
  snd (hashmap_set now key val ttl a) \<noteq> Full"
  using hashmap_set_result [of a key now val ttl] by simp

section \<open>Counters on the abstract map\<close>

lemma read_number_show [simp]: "read_number (Some (show_nat (unat n))) = n"
  by (simp add: read_number_def dec_u64.show_valid dec_u64.parse_show Let_def)

lemma length_show_nat: "n < 10 ^ d \<Longrightarrow> 0 < d \<Longrightarrow> length (show_nat n) \<le> d"
proof (induction d arbitrary: n)
  case (Suc d)
  show ?case
  proof (cases "n < 10")
    case True
    then show ?thesis by (simp add: show_nat.simps)
  next
    case False
    with Suc.prems have "n div 10 < 10 ^ d" "0 < d" by (auto intro: gr0I)
    from Suc.IH [OF this] False show ?thesis by (simp add: show_nat.simps [of n])
  qed
qed simp

lemma length_show_u64 [simp]: "length (show_nat (unat (n :: u64))) \<le> MAX_VAL_LEN"
proof -
  have "unat n < 10 ^ 20" by (rule less_trans [OF unsigned_less]) simp
  from length_show_nat [OF this] show ?thesis by (simp add: MAX_VAL_LEN_def)
qed

text \<open>INCR and DECR store a function of the number that GET saw.\<close>

definition store_number :: "(u64 \<Rightarrow> u64) \<Rightarrow> u64 \<Rightarrow> u64 \<Rightarrow> bytes \<Rightarrow> arena \<Rightarrow> arena \<times> (u64, client_error) rresult" where
  "store_number f now1 now2 key a =
    (case client_get now1 key a of
      (a1, Ok stored) \<Rightarrow>
        (let next = f (read_number stored)
         in case client_set now2 key (show_nat (unat next)) 0 a1 of
              (a2, Ok _) \<Rightarrow> (a2, Ok next)
            | (a2, Err e) \<Rightarrow> (a2, Err e)
            | (a2, Panic) \<Rightarrow> (a2, Panic))
    | (a1, Err e) \<Rightarrow> (a1, Err e)
    | (a1, Panic) \<Rightarrow> (a1, Panic))"

lemma incr_store_number: "client_incr = store_number (\<lambda>n. n + 1)"
  by (simp add: fun_eq_iff client_incr_def store_number_def)

lemma decr_store_number: "client_decr = store_number (\<lambda>n. saturating_sub n 1)"
  by (simp add: fun_eq_iff client_decr_def store_number_def)

lemma ttl_0 [simp]: "ttl_to_expiry now 0 = 0"
  by (simp add: ttl_to_expiry_def)

lemma store_number_spec:
  fixes f :: "u64 \<Rightarrow> u64"
  assumes ok: "client_ok K a" and k: "k \<in> K" "length k \<le> MAX_KEY_LEN"
    and room: "has_room a \<or> live now1 (entry a) k \<noteq> None \<and> live now2 (entry a) k \<noteq> None"
  defines "n \<equiv> f (read_number (live now1 (entry a) k))"
  shows "snd (store_number f now1 now2 k a) = Ok n"
    "client_ok K (fst (store_number f now1 now2 k a))"
    "entry (fst (store_number f now1 now2 k a)) = (entry a)(k \<mapsto> (show_nat (unat n), 0))"
proof -
  obtain a1 where a1: "client_get now1 k a = (a1, Ok (live now1 (entry a) k))"
    "client_ok K a1" "entry a1 = purge now1 k (entry a)"
    using client_get_spec [OF ok k, of now1] by (metis prod.collapse)
  have "snd (hashmap_set now2 k (show_nat (unat n)) 0 a1) \<noteq> Full"
  proof (cases "has_room a")
    case True
    with has_room_client_get [OF client_ok_wf [OF ok] True, of now1 k] a1 show ?thesis
      by (intro set_room [OF client_ok_wf k(2)]) simp_all
  next
    case False
    with room have live: "live now1 (entry a) k \<noteq> None" "live now2 (entry a) k \<noteq> None" by simp_all
    then have "entry a1 = entry a"
      by (auto simp: a1(3) purge_def live_def split: get_result.splits)
    with live(2) show ?thesis
      by (intro set_live [OF client_ok_wf [OF a1(2)] k(2)]) simp
  qed
  with client_set_spec [OF a1(2) k length_show_u64, of now2 n 0] a1
  obtain a2 b where "client_set now2 k (show_nat (unat n)) 0 a1 = (a2, Ok b)" "client_ok K a2"
    "entry a2 = (entry a)(k \<mapsto> (show_nat (unat n), 0))"
    by (metis (no_types, lifting) fun_upd_upd prod.collapse purge_def ttl_0)
  then have "store_number f now1 now2 k a = (a2, Ok n)"
    by (simp add: store_number_def a1(1) n_def)
  with \<open>client_ok K a2\<close> \<open>entry a2 = _\<close> show "snd (store_number f now1 now2 k a) = Ok n"
    "client_ok K (fst (store_number f now1 now2 k a))"
    "entry (fst (store_number f now1 now2 k a)) = (entry a)(k \<mapsto> (show_nat (unat n), 0))"
    by simp_all
qed

lemmas incr_spec = store_number_spec [where f = "\<lambda>n. n + 1", folded incr_store_number]
lemmas decr_spec = store_number_spec [where f = "\<lambda>n. saturating_sub n 1", folded decr_store_number]

section \<open>Properties\<close>

text \<open>
  Read your writes.  After a SET that was not refused for lack of room, GET at any time gives
  exactly the bytes that were stored until the entry expires and nothing afterwards, EXISTS agrees
  with it, and DEL finds the key.
\<close>

theorem client_read_your_writes:
  assumes "client_ok K a" "k \<in> K" "length k \<le> MAX_KEY_LEN" "length v \<le> MAX_VAL_LEN"
    and "snd (client_set now k v ttl a) = Ok fresh"
  defines "a' \<equiv> fst (client_set now k v ttl a)"
  shows "snd (client_get t k a') = Ok (if expired_at t (ttl_to_expiry now ttl) then None else Some v) \<and>
    snd (client_exists t k a') = Ok (\<not> expired_at t (ttl_to_expiry now ttl)) \<and>
    snd (client_del k a') = Ok True \<and> fresh = (live now (entry a) k = None)"
proof -
  note set = client_set_spec [OF assms(1-4), of now ttl]
  have full: "snd (hashmap_set now k v ttl a) \<noteq> Full" "fresh = (live now (entry a) k = None)"
    using set(1) assms(5) by (simp_all split: if_splits)
  have e: "client_ok K a'" "entry a' k = Some (v, ttl_to_expiry now ttl)"
    using set(2,3) full(1) by (simp_all add: a'_def)
  from client_get_spec(1) [OF e(1) assms(2,3), of t] client_exists_spec(1) [OF e(1) assms(2,3), of t]
    client_del_spec(1) [OF e(1) assms(3)] e(2) full(2) show ?thesis
    by (simp add: live_def)
qed

theorem client_read_your_writes_witness:
  "snd (client_get 900 [1] (fst (client_set 5 [1] [2] 0 (fresh_arena blank_arena)))) = Ok (Some [2])"
proof -
  have "snd (hashmap_set 5 [1] [2] 0 (fresh_arena blank_arena)) \<noteq> Full"
    by (rule set_room) (simp_all add: wf_fresh_blank has_room_fresh MAX_KEY_LEN_def)
  with client_set_spec(1) [of "{[1]}" "fresh_arena blank_arena" "[1]" "[2]" 5 0]
  have "snd (client_set 5 [1] [2] 0 (fresh_arena blank_arena)) = Ok True"
    by (simp add: MAX_KEY_LEN_def MAX_VAL_LEN_def entry_fresh_blank live_def)
  from client_read_your_writes [where t = 900, OF client_ok_fresh _ _ _ this] show ?thesis
    by (simp add: MAX_KEY_LEN_def MAX_VAL_LEN_def)
qed

text \<open>
  A key over 128 bytes is refused by every operation and a value over 1024 bytes by SET, with
  the length in the error and the arena untouched.
\<close>

theorem client_rejects_oversized:
  assumes "MAX_KEY_LEN < length k"
  shows "client_get now k a = (a, Err (KeyTooLong (length k)))"
    and "client_set now k v ttl a = (a, Err (KeyTooLong (length k)))"
    and "client_del k a = (a, Err (KeyTooLong (length k)))"
    and "client_exists now k a = (a, Err (KeyTooLong (length k)))"
    and "client_incr now now2 k a = (a, Err (KeyTooLong (length k)))"
    and "client_decr now now2 k a = (a, Err (KeyTooLong (length k)))"
    and "MAX_VAL_LEN < length v \<Longrightarrow> length k' \<le> MAX_KEY_LEN \<Longrightarrow>
      client_set now k' v ttl a = (a, Err (ValueTooLong (length v)))"
  using assms by (simp_all add: client_get_def client_set_def client_del_def client_exists_def
      client_incr_def client_decr_def)

theorem client_rejects_oversized_witness:
  "client_get 5 (replicate 200 1) blank_arena = (blank_arena, Err (KeyTooLong 200)) \<and>
   client_set 5 [1] (replicate 2000 1) 0 blank_arena = (blank_arena, Err (ValueTooLong 2000))"
  using client_rejects_oversized(1) [of "replicate 200 1" 5 blank_arena]
    client_rejects_oversized(7) [of "replicate 200 1" "replicate 2000 1" "[1]" 5 0 blank_arena]
  by (simp add: MAX_KEY_LEN_def MAX_VAL_LEN_def)

lemma live_purge_other: "now \<le> t \<Longrightarrow> live t (purge now k m) k' = live t m k'"
  by (simp add: live_purge)

text \<open>
  With a clock that does not run backwards, MGET gives for every key what a GET at that key's
  reading of the clock would give, in the order of the keys: the evictions of earlier keys do not
  show.
\<close>

theorem mget_pointwise:
  assumes "client_ok K a" "List.set ks \<subseteq> K" "\<forall>k\<in>List.set ks. length k \<le> MAX_KEY_LEN" "mono clk"
  shows "snd (client_mget clk ks a) = Ok (map (\<lambda>i. live (clk i) (entry a) (ks ! i)) [0..<length ks])"
  using assms
proof (induction clk ks a rule: client_mget.induct)
  case (2 clk k ks a)
  let ?clk = "\<lambda>i. clk (Suc i)"
  obtain a1 where a1: "client_get (clk 0) k a = (a1, Ok (live (clk 0) (entry a) k))" "client_ok K a1"
    "entry a1 = purge (clk 0) k (entry a)"
    using client_get_spec [OF 2(2), of k "clk 0"] 2(3,4) by (metis insertI1 list.set(2) prod.collapse subsetD)
  have mono: "mono ?clk" using 2(5) by (auto simp: mono_def)
  have "clk 0 \<le> clk (Suc i)" for i using 2(5) by (simp add: mono_def)
  then have "live (clk (Suc i)) (entry a1) = live (clk (Suc i)) (entry a)" for i
    by (simp add: a1(3) live_purge)
  with 2(1) [OF a1(1) [symmetric] refl a1(2) _ _ mono] 2(3,4)
  have "snd (client_mget ?clk ks a1) = Ok (map (\<lambda>i. live (clk (Suc i)) (entry a) (ks ! i)) [0..<length ks])"
    by simp
  moreover have "map (\<lambda>i. live (clk i) (entry a) ((k # ks) ! i)) [0..<length (k # ks)] =
      live (clk 0) (entry a) k # map (\<lambda>i. live (clk (Suc i)) (entry a) (ks ! i)) [0..<length ks]"
    by (simp add: map_upt_Suc del: upt_Suc)
  ultimately show ?case
    by (simp add: a1(1) case_prod_beta split: prod.splits)
qed simp

theorem mget_pointwise_witness:
  "snd (client_mget (\<lambda>_. 7) [[1], [1]] (fresh_arena blank_arena)) = Ok [None, None]"
  using mget_pointwise [of "{[1]}" "fresh_arena blank_arena" "[[1], [1]]" "\<lambda>_. 7"]
  by (simp add: MAX_KEY_LEN_def mono_def entry_fresh_blank live_def)

lemma mset_loop_append:
  "snd (mset_loop clk good ttl n a) = Ok m \<Longrightarrow>
   mset_loop clk (good @ rest) ttl n a =
     mset_loop (\<lambda>i. clk (length good + i)) rest ttl m (fst (mset_loop clk good ttl n a))"
proof (induction clk good ttl n a rule: mset_loop.induct)
  case (2 clk k v pairs ttl n a)
  then show ?case
    by (cases "client_set (clk 0) k v ttl a" rule: prod.exhaust) (auto split: rresult.splits)
qed simp

text \<open>
  MSET is not all-or-nothing.  If the pairs before a pair with an oversized key are stored
  without error, MSET reports the error of that pair, keeps everything stored before it and stores
  nothing after it.
\<close>

theorem mset_keeps_prefix:
  assumes "snd (client_mset clk good ttl a) = Ok n" "MAX_KEY_LEN < length k"
  shows "client_mset clk (good @ (k, v) # rest) ttl a =
    (fst (client_mset clk good ttl a), Err (KeyTooLong (length k)))"
  using mset_loop_append [of clk good ttl 0 a n "(k, v) # rest"] assms
  by (simp add: client_mset_def client_set_def)

theorem mset_keeps_prefix_witness:
  "client_mset (\<lambda>_. 5) ([] @ (replicate 129 1, [2]) # [([3], [4])]) 0 blank_arena = (blank_arena, Err (KeyTooLong 129))"
  using mset_keeps_prefix [of "\<lambda>_. 5" "[]" 0 blank_arena 0 "replicate 129 1" "[2]" "[([3], [4])]"]
  by (simp add: MAX_KEY_LEN_def client_mset_def)

text \<open>Successive INCRs of one key, each with the clock readings of its GET and its SET.\<close>

fun client_incrs :: "(u64 \<times> u64) list \<Rightarrow> bytes \<Rightarrow> arena \<Rightarrow> (u64, client_error) rresult list" where
  "client_incrs [] k a = []"
| "client_incrs ((t1, t2) # ts) k a =
    (case client_incr t1 t2 k a of (a', r) \<Rightarrow> r # client_incrs ts k a')"

lemma incrs_from:
  assumes "client_ok K a" "k \<in> K" "length k \<le> MAX_KEY_LEN" "entry a k = Some (show_nat (unat n), 0)"
  shows "client_incrs ts k a = map (\<lambda>i. Ok (n + of_nat (Suc i))) [0..<length ts]"
  using assms
proof (induction ts arbitrary: a n)
  case (Cons t ts)
  obtain t1 t2 where t: "t = (t1, t2)" by fastforce
  have live: "live x (entry a) k = Some (show_nat (unat n))" for x
    using Cons.prems(4) by (simp add: live_def)
  note spec = incr_spec [OF Cons.prems(1-3), of t1 t2, unfolded live]
  have "client_incrs ts k (fst (client_incr t1 t2 k a)) =
      map (\<lambda>i. Ok (n + 1 + of_nat (Suc i))) [0..<length ts]"
    using spec by (intro Cons.IH Cons.prems(2,3)) simp_all
  moreover have eq: "map (\<lambda>i. Ok (n + of_nat (Suc i))) [0..<length (t # ts)] =
      Ok (n + 1) # map (\<lambda>i. Ok (n + 1 + of_nat (Suc i))) [0..<length ts]"
    by (simp add: map_upt_Suc add.assoc del: upt_Suc)
  ultimately show ?case
    unfolding eq using spec(1) by (simp add: t case_prod_beta)
qed simp

text \<open>
  C35: INCR counts.  On an arena with room, as long as nobody else writes the key, the \<open>n\<close>-th INCR of
  an absent key answers \<open>n\<close>, whatever the clock says.
\<close>

theorem incr_counts:
  assumes "client_ok K a" "k \<in> K" "length k \<le> MAX_KEY_LEN" "entry a k = None" "has_room a"
  shows "client_incrs ts k a = map (\<lambda>i. Ok (of_nat (Suc i))) [0..<length ts]"
proof (cases ts)
  case (Cons t ts')
  obtain t1 t2 where t: "t = (t1, t2)" by fastforce
  have live: "live x (entry a) k = None" for x
    using assms(4) by (simp add: live_def)
  have "read_number None = 0" by (simp add: read_number_def)
  note spec = incr_spec [OF assms(1-3), of t1 t2, unfolded live this]
  have "client_incrs ts' k (fst (client_incr t1 t2 k a)) =
      map (\<lambda>i. Ok (1 + of_nat (Suc i))) [0..<length ts']"
    using spec assms(5) by (intro incrs_from [of K _ k 1] assms(2,3)) simp_all
  with spec(1) assms(5) show ?thesis
    by (simp add: Cons t case_prod_beta map_upt_Suc del: upt_Suc)
qed simp

theorem incr_counts_witness:
  "client_incrs [(5, 6), (7, 8), (9, 9)] [1] (fresh_arena blank_arena) = [Ok 1, Ok 2, Ok 3]"
  using incr_counts [OF client_ok_fresh, of "[1]" "[1]" "[(5, 6), (7, 8), (9, 9)]"]
  by (simp add: MAX_KEY_LEN_def entry_fresh_blank has_room_fresh)

text \<open>
  INCR on a stored value that is not the decimal notation of a \<open>u64\<close> is no error: it replaces
  the value by \<open>1\<close>.  On the largest \<open>u64\<close> it wraps to \<open>0\<close>.  In every case the entry loses its expiry.
\<close>

theorem incr_overwrites:
  assumes "client_ok K a" "k \<in> K" "length k \<le> MAX_KEY_LEN"
    and "entry a k = Some (v, e)" "\<not> expired_at t2 e" "t1 \<le> t2"
  shows "(parse_u64 v = None \<or> \<not> valid_utf8 v \<longrightarrow>
      snd (client_incr t1 t2 k a) = Ok 1 \<and> entry (fst (client_incr t1 t2 k a)) k = Some (ascii ''1'', 0)) \<and>
    (v = show_nat (2 ^ 64 - 1) \<longrightarrow>
      snd (client_incr t1 t2 k a) = Ok 0 \<and> entry (fst (client_incr t1 t2 k a)) k = Some (ascii ''0'', 0))"
proof -
  have "\<not> expired_at t1 e" using assms(5,6) expired_at_mono by blast
  with assms(4,5) have live: "live t1 (entry a) k = Some v" "live t2 (entry a) k = Some v"
    by (simp_all add: live_def)
  note spec = incr_spec [OF assms(1-3), of t1 t2, unfolded live]
  have zero: "parse_u64 (ascii ''0'') = Some 0" by (simp add: parse_u64_def ascii_def between_def)
  have one: "show_nat (unat (1 :: u64)) = ascii ''1''" "show_nat (unat (0 :: u64)) = ascii ''0''"
    by (simp_all add: show_nat.simps ascii_def digit_byte_def)
  have bad: "read_number (Some v) = 0" if "parse_u64 v = None \<or> \<not> valid_utf8 v"
    using that zero by (auto simp: read_number_def Let_def)
  have big: "read_number (Some v) = - 1" if "v = show_nat (2 ^ 64 - 1)"
  proof -
    have "unat (- 1 :: u64) = 2 ^ 64 - 1" by (simp add: unsigned_minus_1_eq_mask mask_eq_exp_minus_1)
    with that read_number_show [of "- 1"] show ?thesis by simp
  qed
  from spec one bad big show ?thesis by auto
qed

lemma entry_set_fresh_client:
  fixes now ttl :: u64
  assumes "length v \<le> MAX_VAL_LEN" "length k \<le> MAX_KEY_LEN"
  defines "a' \<equiv> fst (client_set now k v ttl (fresh_arena blank_arena))"
  shows "client_ok {k} a'" "entry a' = [k \<mapsto> (v, ttl_to_expiry now ttl)]"
proof -
  have "snd (hashmap_set now k v ttl (fresh_arena blank_arena)) \<noteq> Full"
    by (rule set_room) (simp_all add: wf_fresh_blank has_room_fresh assms(2))
  with client_set_spec [OF client_ok_fresh _ assms(2,1), of k now ttl]
  show "client_ok {k} a'" "entry a' = [k \<mapsto> (v, ttl_to_expiry now ttl)]"
    by (simp_all add: a'_def entry_fresh_blank)
qed

theorem incr_overwrites_witness:
  "snd (client_incr 6 7 [1] (fst (client_set 5 [1] (ascii ''abc'') 0 (fresh_arena blank_arena)))) = Ok 1"
proof -
  have len: "length (ascii ''abc'') \<le> MAX_VAL_LEN" "length [1 :: u8] \<le> MAX_KEY_LEN"
    by (simp_all add: MAX_VAL_LEN_def MAX_KEY_LEN_def)
  note ent = entry_set_fresh_client [where now = 5 and ttl = 0, OF len]
  have "parse_u64 (ascii ''abc'') = None"
    by (simp add: parse_u64_def ascii_def between_def)
  with incr_overwrites [where v = "ascii ''abc''" and e = 0 and ?t1.0 = 6 and ?t2.0 = 7, OF ent(1) _ len(2)]
  show ?thesis by (simp add: ent(2))
qed

lemma saturating_sub_Suc:
  assumes "n \<noteq> - 1"
  shows "saturating_sub (n + 1) 1 = n"
proof -
  have "n + 1 \<noteq> 0" using assms eq_neg_iff_add_eq_0 by blast
  then have "1 \<le> n + 1" by (simp add: word_le_nat_alt Suc_le_eq unat_gt_0)
  then show ?thesis by (simp add: saturating_sub_def)
qed

text \<open>
  DECR stops at zero, and it undoes an INCR that did not wrap: the key then holds the number it
  counted from.
\<close>

theorem decr_saturates_and_undoes:
  assumes "client_ok K a" "k \<in> K" "length k \<le> MAX_KEY_LEN" "has_room a"
  shows "(read_number (live t1 (entry a) k) = 0 \<longrightarrow> snd (client_decr t1 t2 k a) = Ok 0) \<and>
    (read_number (live t1 (entry a) k) \<noteq> - 1 \<longrightarrow>
      snd (client_decr t3 t4 k (fst (client_incr t1 t2 k a))) = Ok (read_number (live t1 (entry a) k)))"
proof -
  let ?n = "read_number (live t1 (entry a) k)"
  note incr = incr_spec [OF assms(1-3) disjI1 [OF assms(4)], of t1 t2]
  have live: "live t (entry (fst (client_incr t1 t2 k a))) k = Some (show_nat (unat (?n + 1)))" for t
    by (simp add: incr(3) live_def)
  have "snd (client_decr t3 t4 k (fst (client_incr t1 t2 k a))) = Ok (saturating_sub (?n + 1) 1)"
    using decr_spec(1) [OF incr(2) assms(2,3), of t3 t4] by (simp add: live)
  moreover have "saturating_sub (?n + 1) 1 = ?n" if "?n \<noteq> - 1"
    using that by (rule saturating_sub_Suc)
  ultimately show ?thesis
    using decr_spec(1) [OF assms(1-3) disjI1 [OF assms(4)], of t1 t2] by (simp add: saturating_sub_def)
qed

theorem decr_saturates_and_undoes_witness:
  "snd (client_decr 5 6 [1] (fresh_arena blank_arena)) = Ok 0 \<and>
   snd (client_decr 7 8 [1] (fst (client_incr 5 6 [1] (fresh_arena blank_arena)))) = Ok 0"
  using decr_saturates_and_undoes [OF client_ok_fresh _ _ has_room_fresh, of "[1]" "[1]" 5 6 7 8]
  by (simp add: MAX_KEY_LEN_def entry_fresh_blank live_def read_number_def)

end
