(* ===== verification/Resp.thy ===== *)
theory Resp
  imports RustStr
begin

text \<open>
  \<open>src/server/resp.rs\<close>: the RESP2 wire format.  The parser works on the unread part of a
  connection's buffer and answers a value with the number of bytes it took, \<open>None\<close> when the frame
  is incomplete, or a protocol error.  Slices that could be out of range and the allocation
  \<open>Vec::with_capacity(count)\<close> are branches of their own that end in \<open>Panic\<close>; whether an allocation of
  \<open>count\<close> values succeeds is the argument \<open>alloc\<close>.  A \<open>String\<close> is the list of its UTF-8 bytes.
\<close>

section \<open>Values and errors\<close>

datatype resp_value =
    SimpleString bytes
  | ErrorV bytes
  | Integer i64
  | BulkString bytes
  | NilV
  | Array "resp_value list"

datatype resp_error = Incomplete | Protocol bytes

definition show_resp_error :: "resp_error \<Rightarrow> bytes" where
  "show_resp_error e = (case e of
      Incomplete \<Rightarrow> ascii ''Incomplete data '' @ [0xE2, 0x80, 0x94] @ ascii '' need more bytes''
    | Protocol m \<Rightarrow> ascii ''Protocol error: '' @ m)"

type_synonym parse_result = "((resp_value \<times> nat) option, resp_error) rresult"

abbreviation crlf :: bytes where "crlf \<equiv> [0x0D, 0x0A]"

section \<open>Parser\<close>

fun find_crlf :: "bytes \<Rightarrow> nat option" where
  "find_crlf (a # b # bs) = (if [a, b] = crlf then Some 0 else map_option Suc (find_crlf (b # bs)))"
| "find_crlf _ = None"

definition parse_line :: "bytes \<Rightarrow> (bytes \<times> nat, resp_error) rresult" where
  "parse_line buf = (case find_crlf buf of
      None \<Rightarrow> Err Incomplete
    | Some pos \<Rightarrow> (case slice 1 pos buf of
        None \<Rightarrow> Panic
      | Some line \<Rightarrow> if valid_utf8 line then Ok (line, pos + 2)
                    else Err (Protocol (ascii ''Non-UTF8 line''))))"

definition parse_simple_string :: "bytes \<Rightarrow> parse_result" where
  "parse_simple_string buf = (case parse_line buf of
      Err Incomplete \<Rightarrow> Ok None
    | Err e \<Rightarrow> Err e
    | Panic \<Rightarrow> Panic
    | Ok (line, consumed) \<Rightarrow> Ok (Some (SimpleString line, consumed)))"

definition parse_error :: "bytes \<Rightarrow> parse_result" where
  "parse_error buf = (case parse_line buf of
      Err Incomplete \<Rightarrow> Ok None
    | Err e \<Rightarrow> Err e
    | Panic \<Rightarrow> Panic
    | Ok (line, consumed) \<Rightarrow> Ok (Some (ErrorV line, consumed)))"

definition parse_integer :: "bytes \<Rightarrow> parse_result" where
  "parse_integer buf = (case parse_line buf of
      Err Incomplete \<Rightarrow> Ok None
    | Err e \<Rightarrow> Err e
    | Panic \<Rightarrow> Panic
    | Ok (line, consumed) \<Rightarrow> (case parse_i64 line of
        None \<Rightarrow> Err (Protocol (ascii ''Invalid integer: '' @ line))
      | Some n \<Rightarrow> Ok (Some (Integer (of_int n), consumed))))"

definition parse_bulk_string :: "bytes \<Rightarrow> parse_result" where
  "parse_bulk_string buf = (case parse_line buf of
      Err Incomplete \<Rightarrow> Ok None
    | Err e \<Rightarrow> Err e
    | Panic \<Rightarrow> Panic
    | Ok (line, header_len) \<Rightarrow> (case parse_i64 line of
        None \<Rightarrow> Err (Protocol (ascii ''Invalid bulk string length: '' @ line))
      | Some len \<Rightarrow>
          if len < 0 then Ok (Some (NilV, header_len))
          else
            let len = nat len;
                needed = header_len + len + 2
            in if length buf < needed then Ok None
               else (case slice header_len (header_len + len) buf of
                   None \<Rightarrow> Panic
                 | Some data \<Rightarrow> Ok (Some (BulkString data, needed)))))"

definition hex_digit :: "u8 \<Rightarrow> u8" where
  "hex_digit d = (if d < 10 then 0x30 + d else 0x57 + d)"

definition hex_byte :: "u8 \<Rightarrow> bytes" where
  "hex_byte b = [hex_digit (b div 16), hex_digit (b mod 16)]"

text \<open>A successful line has a positive length, which is what makes the parser's recursion end.\<close>

lemma parse_line_pos: "parse_line buf = Ok (line, n) \<Longrightarrow> 2 \<le> n"
  by (auto simp: parse_line_def split: option.splits if_splits)

text \<open>\<open>parse\<close> and \<open>parse_array\<close>; \<open>parse_items\<close> is the loop \<open>for _ in 0..count\<close> of the latter.\<close>

function parse :: "(nat \<Rightarrow> bool) \<Rightarrow> bytes \<Rightarrow> parse_result"
  and parse_array :: "(nat \<Rightarrow> bool) \<Rightarrow> bytes \<Rightarrow> parse_result"
  and parse_items :: "(nat \<Rightarrow> bool) \<Rightarrow> nat \<Rightarrow> resp_value list \<Rightarrow> nat \<Rightarrow> bytes \<Rightarrow> parse_result"
where
  "parse alloc buf = (case buf of
      [] \<Rightarrow> Ok None
    | b # _ \<Rightarrow>
        if b = 0x2B then parse_simple_string buf
        else if b = 0x2D then parse_error buf
        else if b = 0x3A then parse_integer buf
        else if b = 0x24 then parse_bulk_string buf
        else if b = 0x2A then parse_array alloc buf
        else Err (Protocol (ascii ''Unknown RESP type byte: 0x'' @ hex_byte b)))"
| "parse_array alloc buf = (case parse_line buf of
      Err Incomplete \<Rightarrow> Ok None
    | Err e \<Rightarrow> Err e
    | Panic \<Rightarrow> Panic
    | Ok (line, offset) \<Rightarrow> (case parse_i64 line of
        None \<Rightarrow> Err (Protocol (ascii ''Invalid array length: '' @ line))
      | Some count \<Rightarrow>
          if count < 0 then Ok (Some (NilV, offset))
          else if \<not> alloc (nat count) then Panic
          else parse_items alloc (nat count) [] offset buf))"
| "parse_items alloc 0 items offset buf = Ok (Some (Array items, offset))"
| "parse_items alloc (Suc n) items offset buf = (case slice offset (length buf) buf of
      None \<Rightarrow> Panic
    | Some rest \<Rightarrow> (case parse alloc rest of
        Err e \<Rightarrow> Err e
      | Panic \<Rightarrow> Panic
      | Ok None \<Rightarrow> Ok None
      | Ok (Some (val, consumed)) \<Rightarrow> parse_items alloc n (items @ [val]) (offset + consumed) buf))"
  by pat_completeness auto
termination
proof (relation "measures [case_sum (\<lambda>(al, buf). length buf)
      (case_sum (\<lambda>(al, buf). length buf) (\<lambda>(al, n, items, offset, buf). length buf - offset)),
      case_sum (\<lambda>_. 1) (case_sum (\<lambda>_. 0) (\<lambda>(al, n, items, offset, buf). n + 2))]", goal_cases)
  case 1
  show ?case by simp
next
  case (2 alloc buf b bs)
  then show ?case by simp
next
  case (3 alloc buf p line offset count)
  moreover have "buf \<noteq> []"
    using 3 by (auto simp: parse_line_def)
  ultimately show ?case
    using parse_line_pos [of buf line offset] by simp
next
  case (4 alloc n items offset buf rest)
  then show ?case by (auto simp: slice_def split: if_splits)
next
  case (5 alloc n items offset buf rest p q val consumed)
  then show ?case by (auto simp: slice_def split: if_splits)
qed

declare parse.simps [simp del] parse_array.simps [simp del] parse_items.simps [simp del]

section \<open>Lines\<close>

lemma find_crlf_Some: "find_crlf buf = Some p \<Longrightarrow> p + 2 \<le> length buf"
  by (induction buf arbitrary: p rule: find_crlf.induct) (auto split: if_splits)

lemma find_crlf_append: "find_crlf buf = Some p \<Longrightarrow> find_crlf (buf @ ys) = Some p"
  by (induction buf arbitrary: p rule: find_crlf.induct) (auto split: if_splits)

lemma find_crlf_pos: "find_crlf (b # bs) = Some p \<Longrightarrow> b \<noteq> 0x0D \<Longrightarrow> 0 < p"
  by (cases bs) auto

lemma parse_line_le: "parse_line buf = Ok (line, n) \<Longrightarrow> 2 \<le> n \<and> n \<le> length buf"
  by (auto simp: parse_line_def dest: find_crlf_Some split: option.splits if_splits)

lemma parse_line_append: "parse_line buf \<noteq> Err Incomplete \<Longrightarrow> parse_line (buf @ ys) = parse_line buf"
  using find_crlf_Some [of buf] find_crlf_append [of buf _ ys]
  by (auto simp: parse_line_def slice_def split: option.splits)

lemma parse_line_no_panic: "b \<noteq> 0x0D \<Longrightarrow> parse_line (b # bs) \<noteq> Panic"
  using find_crlf_Some [of "b # bs"] find_crlf_pos [of b bs]
  by (auto simp: parse_line_def slice_def Suc_le_eq split: option.splits)

lemma parse_line_Nil [simp]: "parse_line [] = Err Incomplete"
  by (simp add: parse_line_def)

section \<open>What a successful parse takes\<close>

definition consumes :: "bytes \<Rightarrow> nat \<Rightarrow> parse_result \<Rightarrow> bool" where
  "consumes buf k r \<longleftrightarrow> (\<forall>v n. r = Ok (Some (v, n)) \<longrightarrow> k < n \<and> n \<le> length buf)"

lemma consumes_simple:
  "consumes buf 0 (parse_simple_string buf)" "consumes buf 0 (parse_error buf)"
  "consumes buf 0 (parse_integer buf)" "consumes buf 0 (parse_bulk_string buf)"
  by (auto simp: consumes_def parse_simple_string_def parse_error_def parse_integer_def
      parse_bulk_string_def Let_def dest!: parse_line_le
      split: rresult.splits resp_error.splits option.splits if_splits)

lemma parse_consumes:
  "consumes buf 0 (parse alloc buf)"
  "consumes buf 0 (parse_array alloc buf)"
  "0 < offset \<Longrightarrow> offset \<le> length buf \<Longrightarrow> consumes buf 0 (parse_items alloc n items offset buf)"
proof (induction alloc buf and alloc buf and alloc n items offset buf
    rule: parse_parse_array_parse_items.induct)
  case (1 alloc buf)
  then show ?case
    using consumes_simple [of buf]
    by (auto simp: parse.simps [of alloc buf] consumes_def split: list.splits)
next
  case (2 alloc buf)
  then show ?case
    using parse_line_le [of buf]
    by (auto simp: parse_array.simps [of alloc buf] consumes_def
        split: rresult.splits resp_error.splits option.splits)
next
  case (3 alloc items offset buf)
  then show ?case by (simp add: parse_items.simps(1,2) consumes_def)
next
  case (4 alloc n items offset buf)
  obtain rest where rest: "slice offset (length buf) buf = Some rest" "length rest = length buf - offset"
    using 4(4) by (simp add: slice_def)
  note IH = 4(1) [OF rest(1)] and IH2 = 4(2) [OF rest(1)]
  show ?case
  proof (cases "parse alloc rest")
    case (Ok r)
    show ?thesis
    proof (cases r)
      case None
      with Ok rest show ?thesis by (simp add: parse_items.simps(1,2) consumes_def)
    next
      case (Some p)
      obtain val consumed where p: "p = (val, consumed)" by fastforce
      have "consumed \<le> length rest"
        using IH Ok Some p by (simp add: consumes_def)
      with 4(3,4) rest(2) have "0 < offset + consumed" "offset + consumed \<le> length buf" by simp_all
      with IH2 [OF Ok Some p [symmetric]] have "consumes buf 0 (parse_items alloc n (items @ [val]) (offset + consumed) buf)" .
      then show ?thesis
        by (simp add: parse_items.simps(2) rest(1) Ok Some p)
    qed
  next
    case (Err e)
    with rest(1) show ?thesis by (simp add: parse_items.simps(2) consumes_def)
  next
    case Panic
    with rest(1) show ?thesis by (simp add: parse_items.simps(2) consumes_def)
  qed
qed

lemma parse_bounds: "parse alloc buf = Ok (Some (v, n)) \<Longrightarrow> 0 < n \<and> n \<le> length buf"
  using parse_consumes(1) [of buf alloc] by (simp add: consumes_def)


section \<open>The loop over the items of an array\<close>

lemma parse_items_next:
  "offset \<le> length buf \<Longrightarrow> parse alloc (drop offset buf) = Ok (Some (v, c)) \<Longrightarrow>
   parse_items alloc (Suc n) items offset buf = parse_items alloc n (items @ [v]) (offset + c) buf"
  by (simp add: parse_items.simps(2) slice_def)

lemma parse_items_stop:
  "offset \<le> length buf \<Longrightarrow> \<forall>p. parse alloc (drop offset buf) \<noteq> Ok (Some p) \<Longrightarrow>
   parse_items alloc (Suc n) items offset buf = parse alloc (drop offset buf)"
  by (auto simp: parse_items.simps(2) slice_def split: rresult.splits option.splits)

lemma parse_items_cases:
  assumes "offset \<le> length buf"
  obtains (next_item) v c where "parse alloc (drop offset buf) = Ok (Some (v, c))" "0 < c" "offset + c \<le> length buf"
      "\<And>n items. parse_items alloc (Suc n) items offset buf = parse_items alloc n (items @ [v]) (offset + c) buf"
  | (stop) "\<forall>p. parse alloc (drop offset buf) \<noteq> Ok (Some p)"
      "\<And>n items. parse_items alloc (Suc n) items offset buf = parse alloc (drop offset buf)"
proof (cases "\<exists>v c. parse alloc (drop offset buf) = Ok (Some (v, c))")
  case True
  then obtain v c where vc: "parse alloc (drop offset buf) = Ok (Some (v, c))" by blast
  show ?thesis
    using parse_bounds [OF vc] assms
    by (intro next_item [OF vc]) (simp_all add: parse_items_next [OF assms vc] le_diff_conv2)
next
  case False
  then have "\<forall>p. parse alloc (drop offset buf) \<noteq> Ok (Some p)" by simp
  from stop [OF this parse_items_stop [OF assms this]] show ?thesis .
qed

section \<open>The only panic is a failed allocation\<close>

lemma bulk_no_panic: "b \<noteq> 0x0D \<Longrightarrow> parse_bulk_string (b # bs) \<noteq> Panic"
  using parse_line_no_panic [of b bs]
  by (auto simp: parse_bulk_string_def Let_def slice_def
      split: rresult.splits resp_error.splits option.splits if_splits)

lemma parse_simple_no_panic:
  assumes "b \<noteq> 0x0D"
  shows "parse_simple_string (b # bs) \<noteq> Panic" "parse_error (b # bs) \<noteq> Panic"
    "parse_integer (b # bs) \<noteq> Panic"
  using parse_line_no_panic [OF assms, of bs]
  by (auto simp: parse_simple_string_def parse_error_def parse_integer_def
      split: rresult.splits resp_error.splits option.splits)

lemma parse_no_panic:
  "\<forall>n. alloc n \<Longrightarrow> parse alloc buf \<noteq> Panic"
  "\<forall>n. alloc n \<Longrightarrow> (\<exists>b bs. buf = b # bs \<and> b \<noteq> 0x0D) \<Longrightarrow> parse_array alloc buf \<noteq> Panic"
  "\<forall>n. alloc n \<Longrightarrow> offset \<le> length buf \<Longrightarrow> parse_items alloc n items offset buf \<noteq> Panic"
proof (induction alloc buf and alloc buf and alloc n items offset buf
    rule: parse_parse_array_parse_items.induct)
  case (1 alloc buf)
  then show ?case
    by (auto simp: parse.simps bulk_no_panic parse_simple_no_panic split: list.splits)
next
  case (2 alloc buf)
  then show ?case
    using parse_line_le [of buf] parse_line_no_panic
    by (auto simp: parse_array.simps
        split: rresult.splits resp_error.splits option.splits)
next
  case (3 alloc items offset buf)
  then show ?case by (simp add: parse_items.simps(1))
next
  case (4 alloc n items offset buf)
  have rest: "slice offset (length buf) buf = Some (drop offset buf)"
    using 4(4) by (simp add: slice_def)
  from 4(4) show ?case
  proof (cases rule: parse_items_cases [where alloc = alloc])
    case (next_item v c)
    with 4(2) [OF rest next_item(1) refl refl 4(3)] show ?thesis by simp
  next
    case stop
    with 4(1) [OF rest 4(3)] show ?thesis by simp
  qed
qed

section \<open>More bytes do not change an answer\<close>

lemma parse_simple_append:
  "parse_simple_string buf \<noteq> Ok None \<Longrightarrow> parse_simple_string (buf @ ys) = parse_simple_string buf"
  "parse_error buf \<noteq> Ok None \<Longrightarrow> parse_error (buf @ ys) = parse_error buf"
  "parse_integer buf \<noteq> Ok None \<Longrightarrow> parse_integer (buf @ ys) = parse_integer buf"
  using parse_line_append [of buf ys]
  by (auto simp: parse_simple_string_def parse_error_def parse_integer_def
      split: rresult.splits resp_error.splits)

lemma parse_bulk_append:
  "parse_bulk_string buf \<noteq> Ok None \<Longrightarrow> parse_bulk_string (buf @ ys) = parse_bulk_string buf"
  using parse_line_append [of buf ys]
  by (auto simp: parse_bulk_string_def Let_def slice_append
      split: rresult.splits resp_error.splits option.split if_splits)

lemma parse_append_all:
  "parse alloc buf \<noteq> Ok None \<Longrightarrow> parse alloc (buf @ ys) = parse alloc buf"
  "parse_array alloc buf \<noteq> Ok None \<Longrightarrow> parse_array alloc (buf @ ys) = parse_array alloc buf"
  "offset \<le> length buf \<Longrightarrow> parse_items alloc n items offset buf \<noteq> Ok None \<Longrightarrow>
    parse_items alloc n items offset (buf @ ys) = parse_items alloc n items offset buf"
proof (induction alloc buf and alloc buf and alloc n items offset buf
    rule: parse_parse_array_parse_items.induct)
  case (1 alloc buf)
  then show ?case
    using parse_simple_append [of buf ys] parse_bulk_append [of buf ys]
    by (auto simp: parse.simps [of alloc buf] parse.simps [of alloc "buf @ ys"] split: list.splits if_splits)
next
  case (2 alloc buf)
  then show ?case
    using parse_line_le [of buf] parse_line_append [of buf ys]
    by (auto simp: parse_array.simps [of alloc buf] parse_array.simps [of alloc "buf @ ys"]
        split: rresult.splits resp_error.splits option.splits if_splits)
next
  case (3 alloc items offset buf)
  then show ?case by (simp add: parse_items.simps(1))
next
  case (4 alloc n items offset buf)
  have rest: "slice offset (length buf) buf = Some (drop offset buf)"
    using 4(3) by (simp add: slice_def)
  have le: "offset \<le> length (buf @ ys)" using 4(3) by simp
  from 4(3) show ?case
  proof (cases rule: parse_items_cases [where alloc = alloc])
    case (next_item v c)
    with 4(1) [OF rest] 4(3) have "parse alloc (drop offset (buf @ ys)) = Ok (Some (v, c))" by simp
    with 4(2) [OF rest next_item(1) refl refl next_item(3)] 4(4) next_item(4) le show ?thesis
      by (simp add: parse_items_next)
  next
    case stop
    with 4(1) [OF rest] 4(3,4) have "parse alloc (drop offset (buf @ ys)) = parse alloc (drop offset buf)" by simp
    with stop le show ?thesis by (simp add: parse_items_stop)
  qed
qed

lemmas parse_append = parse_append_all(1)

section \<open>All complete values of a buffer\<close>

function parse_all_loop :: "(nat \<Rightarrow> bool) \<Rightarrow> resp_value list \<Rightarrow> nat \<Rightarrow> bytes \<Rightarrow>
    (resp_value list \<times> nat, resp_error) rresult" where
  "parse_all_loop alloc values offset buf = (case slice offset (length buf) buf of
      None \<Rightarrow> Panic
    | Some rest \<Rightarrow> (case parse alloc rest of
        Err e \<Rightarrow> Err e
      | Panic \<Rightarrow> Panic
      | Ok None \<Rightarrow> Ok (values, offset)
      | Ok (Some (val, consumed)) \<Rightarrow>
          parse_all_loop alloc (values @ [val]) (offset + consumed) buf))"
  by pat_completeness auto
termination
proof (relation "measure (\<lambda>(al, vs, offset, buf). length buf - offset)", goal_cases)
  case 1
  show ?case by simp
next
  case (2 alloc vals offset buf rest r p val consumed)
  then show ?case
    using parse_bounds [of alloc rest val consumed] by (auto simp: slice_def split: if_splits)
qed

definition parse_all :: "(nat \<Rightarrow> bool) \<Rightarrow> bytes \<Rightarrow> (resp_value list \<times> nat, resp_error) rresult" where
  "parse_all alloc buf = parse_all_loop alloc [] 0 buf"

declare parse_all_loop.simps [simp del]

section \<open>Encoder\<close>

fun encode :: "resp_value \<Rightarrow> bytes \<Rightarrow> bytes" where
  "encode (SimpleString s) buf = buf @ [0x2B] @ s @ crlf"
| "encode (ErrorV e) buf = buf @ [0x2D] @ e @ crlf"
| "encode (Integer n) buf = buf @ [0x3A] @ show_int (sint n) @ crlf"
| "encode (BulkString data) buf = buf @ [0x24] @ show_nat (length data) @ crlf @ data @ crlf"
| "encode NilV buf = buf @ ascii ''$-1'' @ crlf"
| "encode (Array items) buf = fold encode items (buf @ [0x2A] @ show_nat (length items) @ crlf)"

definition encode_to_vec :: "resp_value \<Rightarrow> bytes" where
  "encode_to_vec val = encode val []"

section \<open>Command extraction\<close>

record command =
  name :: bytes
  args :: "bytes list"

fun bulk_args :: "resp_value list \<Rightarrow> (bytes list, bytes) rresult" where
  "bulk_args [] = Ok []"
| "bulk_args (BulkString b # items) = (case bulk_args items of Ok bs \<Rightarrow> Ok (b # bs) | r \<Rightarrow> r)"
| "bulk_args (_ # items) = Err (ascii ''Command args must be bulk strings'')"

definition extract_command :: "(bytes \<Rightarrow> bytes) \<Rightarrow> resp_value \<Rightarrow> (command, bytes) rresult" where
  "extract_command uc val = (case val of
      Array (item # items) \<Rightarrow>
        (case item of
          BulkString b \<Rightarrow>
            if valid_utf8 b then
              (case bulk_args items of
                Ok bs \<Rightarrow> Ok \<lparr>name = to_uppercase uc b, args = bs\<rparr>
              | Err e \<Rightarrow> Err e
              | Panic \<Rightarrow> Panic)
            else Err (ascii ''Non-UTF8 command name'')
        | _ \<Rightarrow> Err (ascii ''Command name must be a bulk string''))
    | _ \<Rightarrow> Err (ascii ''Expected RESP array for command''))"

section \<open>Response builders\<close>

definition ok :: resp_value where
  "ok = SimpleString (ascii ''OK'')"

definition pong :: resp_value where
  "pong = SimpleString (ascii ''PONG'')"

definition err :: "bytes \<Rightarrow> resp_value" where
  "err msg = ErrorV (ascii ''ERR '' @ msg)"

definition wrong_args :: "(bytes \<Rightarrow> bytes) \<Rightarrow> bytes \<Rightarrow> resp_value" where
  "wrong_args lc cmd = ErrorV (ascii ''ERR wrong number of arguments for '' @ [0x27]
    @ to_lowercase lc cmd @ [0x27] @ ascii '' command'')"

definition nil :: resp_value where
  "nil = NilV"

definition integer :: "i64 \<Rightarrow> resp_value" where
  "integer n = Integer n"

definition bulk :: "bytes \<Rightarrow> resp_value" where
  "bulk data = BulkString data"

section \<open>Encoding appends\<close>

lemma fold_append:
  "(\<And>v b. v \<in> List.set vs \<Longrightarrow> f v b = b @ g v) \<Longrightarrow> fold f vs buf = buf @ concat (map g vs)"
proof (induction vs arbitrary: buf)
  case (Cons v vs)
  then show ?case by (simp add: Cons.prems [of v])
qed simp

fun encoding :: "resp_value \<Rightarrow> bytes" where
  "encoding (SimpleString s) = 0x2B # s @ crlf"
| "encoding (ErrorV s) = 0x2D # s @ crlf"
| "encoding (Integer n) = 0x3A # show_int (sint n) @ crlf"
| "encoding (BulkString b) = 0x24 # show_nat (length b) @ crlf @ b @ crlf"
| "encoding NilV = 0x24 # ascii ''-1'' @ crlf"
| "encoding (Array vs) = 0x2A # show_nat (length vs) @ crlf @ concat (map encoding vs)"

lemma encode_encoding: "encode v buf = buf @ encoding v"
proof (induction v arbitrary: buf)
  case (Array items)
  then show ?case by (simp add: fold_append [of items encode encoding])
qed (simp_all add: ascii_def)

lemma encode_to_vec [resp_simps]: "encode_to_vec v = encoding v"
  by (simp add: encode_to_vec_def encode_encoding)

section \<open>The parser reads back what the encoder writes\<close>

lemma find_crlf_line: "find_crlf s = None \<Longrightarrow> find_crlf (s @ crlf @ rest) = Some (length s)"
  by (induction s rule: find_crlf.induct) (auto split: if_splits)

lemma find_crlf_no_cr: "0x0D \<notin> List.set s \<Longrightarrow> find_crlf s = None"
  by (induction s rule: find_crlf.induct) auto

lemma find_crlf_skip: "t \<noteq> 0x0D \<Longrightarrow> find_crlf (t # s) = map_option Suc (find_crlf s)"
  by (cases s) auto

definition line_ok :: "bytes \<Rightarrow> bool" where
  "line_ok s \<longleftrightarrow> valid_utf8 s \<and> find_crlf s = None"

lemma parse_line_ok:
  "line_ok s \<Longrightarrow> t \<noteq> 0x0D \<Longrightarrow> parse_line (t # s @ crlf @ rest) = Ok (s, length s + 3)"
  using find_crlf_line [of s rest]
  by (simp add: parse_line_def line_ok_def find_crlf_skip slice_def)

lemma show_nat_line_ok [simp]: "line_ok (show_nat n)"
proof -
  have "0x0D \<notin> List.set (show_nat n)"
    using show_nat_digits [of "0x0D" n] by (auto simp: between_def)
  then show ?thesis
    by (simp add: line_ok_def find_crlf_no_cr is_ascii_valid)
qed

lemma show_int_line_ok [simp]: "line_ok (show_int i)"
  using show_nat_line_ok [of "nat (- i)"] show_nat_line_ok [of "nat i"] by (simp add: show_int_def line_ok_def find_crlf_skip)

text \<open>
  The values that can be on the wire: text without CR LF, sizes below \<open>2 ^ 63\<close> (every Rust vector has
  such a length), and array sizes for which the allocation succeeds.
\<close>

fun resp_ok :: "(nat \<Rightarrow> bool) \<Rightarrow> resp_value \<Rightarrow> bool" where
  "resp_ok alloc (SimpleString s) \<longleftrightarrow> line_ok s"
| "resp_ok alloc (ErrorV s) \<longleftrightarrow> line_ok s"
| "resp_ok alloc (Integer n) \<longleftrightarrow> True"
| "resp_ok alloc (BulkString b) \<longleftrightarrow> length b < 2 ^ 63"
| "resp_ok alloc NilV \<longleftrightarrow> True"
| "resp_ok alloc (Array vs) \<longleftrightarrow>
    length vs < 2 ^ 63 \<and> alloc (length vs) \<and> list_all (resp_ok alloc) vs"

lemma drop_after: "length xs = n \<Longrightarrow> drop (n + m) (xs @ ys) = drop m ys"
  by simp

lemma parse_items_encoding:
  assumes "\<And>v rest. v \<in> List.set vs \<Longrightarrow> parse alloc (encoding v @ rest) = Ok (Some (v, length (encoding v)))"
    and "buf = pre @ concat (map encoding vs) @ rest" "offset = length pre"
  shows "parse_items alloc (length vs) items offset buf =
    Ok (Some (Array (items @ vs), offset + length (concat (map encoding vs))))"
  using assms
proof (induction vs arbitrary: items offset pre)
  case Nil
  then show ?case by (simp add: parse_items.simps(1))
next
  case (Cons v vs)
  have "parse alloc (drop offset buf) = Ok (Some (v, length (encoding v)))"
    using Cons.prems by simp
  then have "parse_items alloc (length (v # vs)) items offset buf =
      parse_items alloc (length vs) (items @ [v]) (offset + length (encoding v)) buf"
    using Cons.prems(2,3) by (simp add: parse_items_next)
  also have "\<dots> = Ok (Some (Array (items @ v # vs),
      offset + length (encoding v) + length (concat (map encoding vs))))"
    using Cons.IH [of "pre @ encoding v" "offset + length (encoding v)" "items @ [v]"] Cons.prems by simp
  finally show ?case by (simp add: add.assoc)
qed

lemma parse_encoding:
  "resp_ok alloc v \<Longrightarrow> parse alloc (encoding v @ rest) = Ok (Some (v, length (encoding v)))"
proof (induction v arbitrary: rest)
  case (SimpleString s)
  then show ?case
    using parse_line_ok [of s "0x2B" rest] by (simp add: parse.simps parse_simple_string_def)
next
  case (ErrorV s)
  then show ?case
    using parse_line_ok [of s "0x2D" rest] by (simp add: parse.simps parse_error_def)
next
  case (Integer n)
  show ?case
    using parse_line_ok [of "show_int (sint n)" "0x3A" rest]
    by (simp add: parse.simps parse_integer_def parse_i64_sint)
next
  case (BulkString b)
  then show ?case
    using parse_line_ok [of "show_nat (length b)" "0x24" "b @ crlf @ rest"]
    by (simp add: parse.simps parse_bulk_string_def parse_i64_show_nat slice_def Let_def numeral_3_eq_3
        del: power_numeral)
next
  case NilV
  have "line_ok (ascii ''-1'')" "parse_i64 (ascii ''-1'') = Some (- 1)"
    by (simp_all add: line_ok_def ascii_def parse_i64_def between_def)
  then show ?case
    using parse_line_ok [of "ascii ''-1''" "0x24" rest] by (simp add: parse.simps parse_bulk_string_def)
next
  case (Array vs)
  let ?hd = "0x2A # show_nat (length vs) @ crlf"
  have "parse alloc (encoding v @ rest') = Ok (Some (v, length (encoding v)))"
    if "v \<in> List.set vs" for v rest'
    using Array.IH [OF that] Array.prems that by (simp add: list_all_iff)
  from parse_items_encoding [OF this, of vs "encoding (Array vs) @ rest" ?hd rest "length ?hd" "[]"]
  have "parse_items alloc (length vs) [] (length (show_nat (length vs)) + 3) (encoding (Array vs) @ rest) =
      Ok (Some (Array vs, length (encoding (Array vs))))"
    by (simp add: numeral_3_eq_3)
  then show ?case
    using parse_line_ok [of "show_nat (length vs)" "0x2A" "concat (map encoding vs) @ rest"] Array.prems
    by (simp add: parse.simps parse_array.simps parse_i64_show_nat del: power_numeral)
qed

section \<open>Framing\<close>

text \<open>
  What the connection handler relies on: a decoder that answers a value and the bytes it took,
  reads back what the encoder wrote, and never changes its mind when more bytes arrive.  From
  these laws alone, every prefix of a stream of encoded values is some of the values followed by
  an incomplete rest.
\<close>

locale framing =
  fixes decode :: "bytes \<Rightarrow> (('v \<times> nat) option, 'e) rresult"
    and encoded :: "'v \<Rightarrow> bytes"
    and encodable :: "'v \<Rightarrow> bool"
  assumes decode_encoded: "encodable v \<Longrightarrow> decode (encoded v @ rest) = Ok (Some (v, length (encoded v)))"
    and decode_append: "decode buf \<noteq> Ok None \<Longrightarrow> decode (buf @ rest) = decode buf"
    and decode_bounds: "decode buf = Ok (Some (v, n)) \<Longrightarrow> 0 < n \<and> n \<le> length buf"
begin

lemma incomplete_prefix: "decode (p @ q) = Ok None \<Longrightarrow> decode p = Ok None"
  using decode_append [of p q] by fastforce

lemma prefix_of_frame:
  assumes "encodable v" "p @ q = encoded v @ r" "length p < length (encoded v)"
  shows "decode p = Ok None"
proof (rule ccontr)
  assume np: "decode p \<noteq> Ok None"
  from decode_append [OF np, of q] decode_encoded [OF assms(1), of r] assms(2)
  have "decode p = Ok (Some (v, length (encoded v)))" by simp
  from decode_bounds [OF this] assms(3) show False by simp
qed

lemma proper_prefix: "encodable v \<Longrightarrow> n < length (encoded v) \<Longrightarrow> decode (take n (encoded v)) = Ok None"
  by (rule prefix_of_frame [where q = "drop n (encoded v)" and r = "[]"]) simp_all

lemma encoded_inj:
  assumes "encodable v" "encodable w" "encoded v @ r = encoded w @ s"
  shows "v = w"
  using decode_encoded [OF assms(1), of r] decode_encoded [OF assms(2), of s] assms(3) by simp

lemma split_frames:
  assumes "list_all encodable vs" "decode tail = Ok None" "p @ q = concat (map encoded vs) @ tail"
  obtains vs1 vs2 p' where "vs = vs1 @ vs2" "p = concat (map encoded vs1) @ p'" "decode p' = Ok None"
    "p' @ q = concat (map encoded vs2) @ tail"
  using assms
proof (induction vs arbitrary: p thesis)
  case Nil
  then show ?case using incomplete_prefix [of p q] by simp
next
  case (Cons v vs)
  show ?case
  proof (cases "length p < length (encoded v)")
    case True
    with Cons.prems prefix_of_frame [of v p q "concat (map encoded vs) @ tail"] show ?thesis
      by (intro Cons.prems(1) [of "[]" "v # vs" p]) simp_all
  next
    case False
    with Cons.prems(4) have "take (length (encoded v)) p = encoded v"
      by (simp add: append_eq_append_conv_if split: if_splits)
    then obtain p1 where p1: "p = encoded v @ p1"
      by (metis append_take_drop_id)
    show ?thesis
    proof (rule Cons.IH [of p1])
      fix vs1 vs2 p'
      assume "vs = vs1 @ vs2" "p1 = concat (map encoded vs1) @ p'" "decode p' = Ok None"
        "p' @ q = concat (map encoded vs2) @ tail"
      then show ?thesis by (intro Cons.prems(1) [of "v # vs1" vs2 p']) (simp_all add: p1)
    qed (use Cons.prems p1 in simp_all)
  qed
qed

end

interpretation wire: framing "parse alloc" encoding "resp_ok alloc" for alloc
  by unfold_locales (simp_all add: parse_encoding parse_append parse_bounds)

section \<open>Properties\<close>

text \<open>
  C16: every value that can be on the wire is read back by \<open>parse\<close> from what \<open>encode\<close> wrote, whatever
  follows it in the buffer, and the parser takes exactly the bytes of its encoding; on a proper
  prefix of the encoding it waits for more.
\<close>

theorem parse_encode:
  assumes "resp_ok alloc v"
  shows "parse alloc (encode_to_vec v @ rest) = Ok (Some (v, length (encode_to_vec v))) \<and>
    (\<forall>n < length (encode_to_vec v). parse alloc (take n (encode_to_vec v)) = Ok None)"
  by (simp add: encode_to_vec wire.decode_encoded [OF assms] wire.proper_prefix [OF assms])

theorem parse_encode_witness:
  "parse (\<lambda>_. True) (encode_to_vec (Array [BulkString [0x47, 0x45, 0x54], Integer (- 5), NilV]) @ [0x2B]) =
    Ok (Some (Array [BulkString [0x47, 0x45, 0x54], Integer (- 5), NilV], 23)) \<and>
   parse (\<lambda>_. True) (take 5 (encode_to_vec (Array [BulkString [0x47, 0x45, 0x54], Integer (- 5), NilV]))) = Ok None"
proof -
  let ?v = "Array [BulkString [0x47, 0x45, 0x54], Integer (- 5), NilV]"
  have "resp_ok (\<lambda>_. True) ?v" by simp
  note enc = parse_encode [OF this, of "[0x2B]"]
  have len: "length (encode_to_vec ?v) = 23"
    by (simp add: encode_to_vec show_nat.simps show_int_def ascii_def)
  from enc have "\<forall>n < 23. parse (\<lambda>_. True) (take n (encode_to_vec ?v)) = Ok None"
    unfolding len by (rule conjunct2)
  then have "parse (\<lambda>_. True) (take 5 (encode_to_vec ?v)) = Ok None" by (rule allE [of _ 5]) simp
  with enc show ?thesis unfolding len by blast
qed

text \<open>
  Bytes that arrive later never change an answer the parser has already given (a value, a
  protocol error or a panic), and a value takes at least one byte and at most those present.
\<close>

theorem parse_stable:
  assumes "parse alloc buf \<noteq> Ok None"
  shows "parse alloc (buf @ later) = parse alloc buf \<and>
    (case parse alloc buf of Ok (Some (v, n)) \<Rightarrow> 0 < n \<and> n \<le> length buf | _ \<Rightarrow> True)"
  using wire.decode_append [OF assms, of later] wire.decode_bounds [of alloc buf]
  by (simp split: rresult.splits option.splits prod.splits)

theorem parse_stable_witness:
  "parse (\<lambda>_. True) (ascii ''+OK'' @ crlf @ [0x2B]) = parse (\<lambda>_. True) (ascii ''+OK'' @ crlf)"
  using parse_stable [of "\<lambda>_. True" "ascii ''+OK'' @ crlf" "[0x2B]"]
  by (simp add: parse.simps parse_simple_string_def parse_line_def slice_def ascii_def)

text \<open>
  If every allocation succeeds the parser never panics: no slice of the buffer is out of
  range, whatever bytes the client sends.
\<close>

theorem parse_never_out_of_range:
  "parse (\<lambda>_. True) buf \<noteq> Panic"
  by (rule parse_no_panic) simp

text \<open>
  An allocation that fails for the announced number of items ends in a panic: the ten or
  twenty bytes of an array header are enough, no item has to follow.  (The largest \<open>i64\<close> always
  fails, since a vector may not exceed \<open>isize::MAX\<close> bytes.)
\<close>

theorem parse_huge_array_panics:
  assumes "\<not> alloc n" "n < 2 ^ 63"
  shows "parse alloc (ascii ''*'' @ show_nat n @ crlf) = Panic"
  using parse_line_ok [of "show_nat n" "0x2A" "[]"] parse_i64_show_nat [OF assms(2)] assms(1)
  by (simp add: parse.simps parse_array.simps ascii_def)

theorem parse_huge_array_panics_witness:
  "parse (\<lambda>n. n \<le> (2 ^ 63 - 1) div 24) (ascii ''*'' @ show_nat (2 ^ 63 - 1) @ crlf) = Panic"
  by (rule parse_huge_array_panics) simp_all

text \<open>
  The two bytes after the data of a bulk string are skipped unread: any two bytes in place of
  CR LF are accepted.
\<close>

theorem bulk_trailer_unchecked:
  assumes "length b < 2 ^ 63"
  shows "parse alloc (ascii ''$'' @ show_nat (length b) @ crlf @ b @ [x, y] @ rest) =
    Ok (Some (BulkString b, length (show_nat (length b)) + length b + 5))"
  using parse_line_ok [of "show_nat (length b)" "0x24" "b @ [x, y] @ rest"] assms
  by (simp add: parse.simps parse_bulk_string_def parse_i64_show_nat slice_def Let_def numeral_3_eq_3
      ascii_def del: power_numeral)

theorem bulk_trailer_unchecked_witness:
  "parse (\<lambda>_. True) (ascii ''$'' @ show_nat 1 @ crlf @ [0x61, 0x62, 0x63]) = Ok (Some (BulkString [0x61], 7))"
  using bulk_trailer_unchecked [of "[0x61]" "\<lambda>_. True" "0x62" "0x63" "[]"]
  by (simp add: show_nat.simps)

section \<open>Pipelined values\<close>

lemma parse_all_loop_stop:
  "offset \<le> length buf \<Longrightarrow> parse alloc (drop offset buf) = Ok None \<Longrightarrow>
   parse_all_loop alloc vs offset buf = Ok (vs, offset)"
  by (subst parse_all_loop.simps) (simp add: slice_def)

lemma parse_all_loop_next:
  "offset \<le> length buf \<Longrightarrow> parse alloc (drop offset buf) = Ok (Some (v, c)) \<Longrightarrow>
   parse_all_loop alloc vs offset buf = parse_all_loop alloc (vs @ [v]) (offset + c) buf"
  by (subst parse_all_loop.simps) (simp add: slice_def)

lemma parse_all_loop_encoding:
  assumes "list_all (resp_ok alloc) vs" "parse alloc rest = Ok None"
    "buf = pre @ concat (map encoding vs) @ rest"
  shows "parse_all_loop alloc us (length pre) buf =
    Ok (us @ vs, length pre + length (concat (map encoding vs)))"
  using assms
proof (induction vs arbitrary: us pre)
  case Nil
  then show ?case by (simp add: parse_all_loop_stop)
next
  case (Cons v vs)
  have "parse alloc (drop (length pre) buf) = Ok (Some (v, length (encoding v)))"
    using Cons.prems by (simp add: parse_encoding)
  with Cons.IH [of "pre @ encoding v" "us @ [v]"] Cons.prems show ?case
    by (simp add: parse_all_loop_next add.assoc)
qed

text \<open>
  \<open>parse_all\<close> splits a pipelined buffer into exactly the values that were written and stops
  before an incomplete frame at its end.
\<close>

theorem parse_all_pipeline:
  assumes "list_all (resp_ok alloc) vs" "parse alloc rest = Ok None"
  shows "parse_all alloc (concat (map encode_to_vec vs) @ rest) =
    Ok (vs, length (concat (map encode_to_vec vs)))"
  using parse_all_loop_encoding [OF assms, of "concat (map encoding vs) @ rest" "[]" "[]"]
  by (simp add: parse_all_def encode_to_vec cong: map_cong)

theorem parse_all_pipeline_witness:
  "parse_all (\<lambda>_. True) (concat (map encode_to_vec [NilV, BulkString [0x61]]) @ [0x24]) =
    Ok ([NilV, BulkString [0x61]], 12)"
  using parse_all_pipeline [of "\<lambda>_. True" "[NilV, BulkString [0x61]]" "[0x24]"]
  by (simp add: encode_to_vec ascii_def show_nat.simps parse.simps parse_bulk_string_def parse_line_def)

end
