(* ===== verification/WsBridge.thy ===== *)
theory WsBridge
  imports F64
begin

text \<open>
  \<open>src/server/ws_bridge.rs\<close>: the metrics bridge.  The aggregator that turns the events of a
  one-second window into a snapshot, and the task that receives events from a bounded channel and
  drains the window on every tick.  The serialisation to JSON and the WebSocket transport are
  calls of other crates and not modelled.
\<close>

section \<open>Events, snapshots, aggregator\<close>

record metric_event =
  op :: bytes
  latency_us :: u64

record metrics_snapshot =
  ops_per_sec :: u64
  p50_us :: u64
  p99_us :: u64
  p999_us :: u64
  used_slots :: u64
  total_slots :: u64
  fill_pct :: nat
  snap_breakdown :: "bytes \<rightharpoonup> u64"

record aggregator =
  latencies :: "u64 list"
  breakdown :: "bytes \<rightharpoonup> u64"

definition aggregator_new :: aggregator where
  "aggregator_new = \<lparr>latencies = [], breakdown = Map.empty\<rparr>"

definition record_event :: "metric_event \<Rightarrow> aggregator \<Rightarrow> aggregator" where
  "record_event event g = g\<lparr>latencies := latencies g @ [latency_us event],
    breakdown := (breakdown g)(op event \<mapsto>
      (case breakdown g (op event) of None \<Rightarrow> 0 | Some n \<Rightarrow> n) + 1)\<rparr>"

section \<open>Percentiles\<close>

definition percentile_index :: "nat \<Rightarrow> nat \<Rightarrow> nat" where
  "percentile_index n len =
    (let pct = (if n = 999 then f64_div (f64_nat 999) (f64_nat 10) else f64_nat n)
     in f64_to_int (f64_mul (f64_div pct (f64_nat 100)) (f64_nat (len - 1))))"

definition percentile :: "u64 list \<Rightarrow> nat \<Rightarrow> u64" where
  "percentile lats n =
    (if lats = [] then 0
     else lats ! (min (percentile_index n (length lats)) (length lats - 1)))"

definition drain :: "u64 \<Rightarrow> u64 \<Rightarrow> aggregator \<Rightarrow> aggregator \<times> metrics_snapshot" where
  "drain used total_count g =
    (let ops = of_nat (length (latencies g));
         lats = sort (latencies g);
         p50 = percentile lats 50;
         p99 = percentile lats 99;
         p999 = percentile lats 999;
         fill = (if total_count > 0
           then f64_mul (f64_div (f64_nat (unat used)) (f64_nat (unat total_count))) (f64_nat 100) else 0);
         snapshot = \<lparr>ops_per_sec = ops, p50_us = p50, p99_us = p99, p999_us = p999,
           used_slots = used, total_slots = total_count, fill_pct = fill, snap_breakdown = breakdown g\<rparr>
     in (g\<lparr>latencies := [], breakdown := Map.empty\<rparr>, snapshot))"

section \<open>The channel and the aggregator task\<close>

definition CHANNEL_CAPACITY :: nat where
  "CHANNEL_CAPACITY = 1000000"

text \<open>\<open>try_send\<close>: the event is dropped when the channel is full.\<close>

definition try_send :: "metric_event \<Rightarrow> metric_event list \<Rightarrow> metric_event list \<times> bool" where
  "try_send e queue = (if length queue < CHANNEL_CAPACITY then (queue @ [e], True) else (queue, False))"

record bridge =
  queue :: "metric_event list"
  agg :: aggregator
  snapshots :: "metrics_snapshot list"

definition bridge_start :: bridge where
  "bridge_start = \<lparr>queue = [], agg = aggregator_new, snapshots = []\<rparr>"

text \<open>
  What can happen next, in any order: the server emits an event, which the channel takes or not,
  the task receives one, or the interval ticks with the counts that \<open>slots_fn\<close> reports.
\<close>

datatype bridge_event = Emit metric_event bool | Recv | Tick u64 u64

inductive bridge_step :: "bridge \<Rightarrow> bridge_event \<Rightarrow> bridge \<Rightarrow> bool" where
  emit: "try_send e (queue b) = (q, taken) \<Longrightarrow> bridge_step b (Emit e taken) (b\<lparr>queue := q\<rparr>)"
| recv: "queue b = e # q \<Longrightarrow> bridge_step b Recv (b\<lparr>queue := q, agg := record_event e (agg b)\<rparr>)"
| tick: "drain used total_count (agg b) = (g, snapshot) \<Longrightarrow>
    bridge_step b (Tick used total_count) (b\<lparr>agg := g, snapshots := snapshots b @ [snapshot]\<rparr>)"

inductive bridge_run :: "bridge \<Rightarrow> bridge_event list \<Rightarrow> bridge \<Rightarrow> bool" where
  Nil: "bridge_run b [] b"
| Snoc: "bridge_run b evs b' \<Longrightarrow> bridge_step b' ev b'' \<Longrightarrow> bridge_run b (evs @ [ev]) b''"

inductive_cases bridge_emitE: "bridge_step b (Emit e taken) b'"
inductive_cases bridge_recvE: "bridge_step b Recv b'"
inductive_cases bridge_tickE: "bridge_step b (Tick used tot) b'"

section \<open>The median index\<close>

lemma median_index: "0 < len \<Longrightarrow> len < 2 ^ 53 \<Longrightarrow> percentile_index 50 len = len div 2"
proof -
  assume len: "0 < len" "len < 2 ^ 53"
  have half: "f64_div (f64_nat 50) (f64_nat 100) = 1 * 2 ^ 199"
    unfolding f64_div_def by (rule f64_round_exact) (simp_all add: f64_unit_def)
  have "f64_mul (1 * 2 ^ 199) (f64_nat (len - 1)) = (len - 1) * 2 ^ 199"
    unfolding f64_mul_def using len by (intro f64_round_exact) simp_all
  moreover have "f64_to_int ((len - 1) * 2 ^ 199) = len div 2"
  proof -
    have "2 * ((len - 1) * 2 ^ 199) + f64_unit = len * 2 ^ 200"
      using len(1) by (cases len) (simp_all add: f64_unit_def)
    then have "f64_to_int ((len - 1) * 2 ^ 199) = len * 2 ^ 200 div (2 * 2 ^ 200)"
      by (simp only: f64_to_int_def f64_unit_def)
    also have "\<dots> = len div 2"
      by (rule div_mult_mult2) simp
    finally show ?thesis .
  qed
  moreover have "(50 :: nat) \<noteq> 999" by simp
  ultimately show ?thesis
    by (simp only: percentile_index_def half Let_def if_False)
qed

lemma percentile_member: "lats \<noteq> [] \<Longrightarrow> percentile lats n \<in> List.set lats"
  by (simp add: percentile_def min_def less_Suc_eq_le flip: length_greater_0_conv)

lemma percentile_empty [simp]: "percentile [] n = 0"
  by (simp add: percentile_def)

section \<open>A window of events\<close>

definition count_op :: "bytes \<Rightarrow> metric_event list \<Rightarrow> nat" where
  "count_op c es = length (filter (\<lambda>e. op e = c) es)"

lemma record_events:
  "latencies (fold record_event es aggregator_new) = map latency_us es \<and>
   breakdown (fold record_event es aggregator_new) =
    (\<lambda>c. if count_op c es = 0 then None else Some (of_nat (count_op c es)))"
proof (induction es rule: rev_induct)
  case Nil
  then show ?case by (simp add: aggregator_new_def count_op_def)
next
  case (snoc e es)
  then show ?case
    by (auto simp: record_event_def count_op_def fun_eq_iff add.commute)
qed

section \<open>Properties\<close>



section \<open>The percentiles are in order\<close>

lemma f64_nat_pos: "0 < n \<Longrightarrow> 0 < f64_nat n"
  using f64_nat_mono [of 1 n] less_le_trans [OF f64_unit_pos] by simp

definition percentile_points :: "nat \<Rightarrow> nat" where
  "percentile_points n = (if n = 999 then f64_div (f64_nat 999) (f64_nat 10) else f64_nat n)"

lemma percentile_index_points:
  "percentile_index n len = f64_to_int (f64_mul (f64_div (percentile_points n) (f64_nat 100)) (f64_nat (len - 1)))"
  by (simp only: percentile_index_def percentile_points_def Let_def)

lemma percentile_points_order:
  "percentile_points 50 \<le> percentile_points 99" "percentile_points 99 \<le> percentile_points 999"
  "percentile_points 999 \<le> f64_nat 100"
proof -
  have "f64_div (f64_nat 990) (f64_nat 10) = 99 * f64_unit" "f64_div (f64_nat 1000) (f64_nat 10) = 100 * f64_unit"
    unfolding f64_div_def by (simp_all add: f64_round_exact_nat)
  moreover have "f64_div (f64_nat 990) (f64_nat 10) \<le> f64_div (f64_nat 999) (f64_nat 10)"
    "f64_div (f64_nat 999) (f64_nat 10) \<le> f64_div (f64_nat 1000) (f64_nat 10)"
    by (rule f64_div_mono; simp)+
  ultimately show "percentile_points 50 \<le> percentile_points 99" "percentile_points 99 \<le> percentile_points 999"
    "percentile_points 999 \<le> f64_nat 100"
    by (simp_all add: percentile_points_def)
qed

lemma percentile_index_mono:
  "percentile_points m \<le> percentile_points n \<Longrightarrow> percentile_index m len \<le> percentile_index n len"
  unfolding percentile_index_points by (intro f64_to_int_mono f64_mul_mono f64_div_mono f64_nat_pos) simp_all

lemma percentile_index_le:
  assumes "percentile_points n \<le> f64_nat 100" "len < 2 ^ 53"
  shows "percentile_index n len \<le> len - 1"
proof -
  have "f64_div (percentile_points n) (f64_nat 100) \<le> f64_unit"
    using f64_div_mono [OF assms(1), of "f64_nat 100"] f64_div_self [of "f64_nat 100"] f64_nat_pos [of 100]
    by (simp del: f64_nat_exact)
  then have "f64_mul (f64_div (percentile_points n) (f64_nat 100)) (f64_nat (len - 1)) \<le> f64_mul f64_unit (f64_nat (len - 1))"
    by (rule f64_mul_mono) simp
  also have "\<dots> = (len - 1) * f64_unit" using assms(2) by (simp add: f64_mul_1)
  finally show ?thesis
    unfolding percentile_index_points using f64_to_int_mono by fastforce
qed

lemma percentile_mono:
  assumes "m = n \<or> percentile_points m \<le> percentile_points n" "lats \<noteq> []" "sorted_wrt (\<le>) lats"
  shows "percentile lats m \<le> percentile lats n"
proof -
  have "percentile_index m (length lats) \<le> percentile_index n (length lats)"
    using assms(1) percentile_index_mono by blast
  moreover have "min i (length lats - 1) < length lats" for i
    using assms(2) by (cases lats) simp_all
  ultimately show ?thesis
    using assms(2,3) by (auto simp: percentile_def intro!: sorted_nth_mono min.mono)
qed

lemma drain_fields:
  assumes "drain used total_count g = (g', snapshot)"
  shows "p50_us snapshot = percentile (sort (latencies g)) 50" "p99_us snapshot = percentile (sort (latencies g)) 99"
    "p999_us snapshot = percentile (sort (latencies g)) 999"
    "fill_pct snapshot = (if total_count > 0
      then f64_mul (f64_div (f64_nat (unat used)) (f64_nat (unat total_count))) (f64_nat 100) else 0)"
  using assms [symmetric] by (simp_all only: drain_def Let_def prod.inject metrics_snapshot.simps)

lemma fill_le_100:
  assumes "used \<le> (total_count :: u64)" "total_count > 0"
  shows "f64_mul (f64_div (f64_nat (unat used)) (f64_nat (unat total_count))) (f64_nat 100) \<le> f64_nat 100"
proof -
  let ?u = "f64_nat (unat used)" and ?t = "f64_nat (unat total_count)"
  have pos: "0 < ?t" using assms(2) by (intro f64_nat_pos) (simp add: word_less_nat_alt)
  have "?u \<le> ?t" using assms(1) by (intro f64_nat_mono) (simp only: word_le_nat_alt)
  from f64_div_mono [OF this pos] have "f64_div ?u ?t \<le> f64_unit"
    by (simp only: f64_div_self [OF pos])
  then have "f64_mul (f64_div ?u ?t) (f64_nat 100) \<le> f64_mul f64_unit (f64_nat 100)"
    by (rule f64_mul_mono) (rule order_refl)
  also have "\<dots> = f64_nat 100" by (simp add: f64_mul_1)
  finally show ?thesis .
qed

text \<open>
  A snapshot's numbers are in order.  The median is at most the 99th percentile, which is at most
  the 99.9th, which is at most the largest latency of the window; the index computed in floating
  point never needs the clamp of the code below \<open>2 ^ 53\<close> samples; and the fill percentage is at most
  100 when the arena reports no more used slots than it has.
\<close>

theorem snapshot_in_order:
  assumes "drain used total_count g = (g', snapshot)" "latencies g \<noteq> []" "length (latencies g) < 2 ^ 53"
  shows "p50_us snapshot \<le> p99_us snapshot \<and> p99_us snapshot \<le> p999_us snapshot \<and>
    p999_us snapshot \<le> Max (List.set (latencies g)) \<and>
    (\<forall>n\<in>{50, 99, 999}. percentile_index n (length (latencies g)) \<le> length (latencies g) - 1) \<and>
    (used \<le> total_count \<longrightarrow> fill_pct snapshot \<le> f64_nat 100)"
  unfolding drain_fields [OF assms(1)]
proof (intro conjI ballI impI)
  let ?l = "sort (latencies g)"
  have l: "?l \<noteq> []" using assms(2) by (simp flip: length_greater_0_conv)
  note order = percentile_points_order
  show "percentile ?l 50 \<le> percentile ?l 99" "percentile ?l 99 \<le> percentile ?l 999"
    using order(1,2) l by (simp_all add: percentile_mono)
  show "percentile ?l 999 \<le> Max (List.set (latencies g))"
    using percentile_member [OF l, of 999] by simp
  show "percentile_index n (length (latencies g)) \<le> length (latencies g) - 1" if "n \<in> {50, 99, 999}" for n
    by (rule percentile_index_le [OF _ assms(3)])
      (use that order(3) order_trans [OF order(2,3)] order_trans [OF order(1) order_trans [OF order(2,3)]] in blast)
  show "(if total_count > 0 then f64_mul (f64_div (f64_nat (unat used)) (f64_nat (unat total_count))) (f64_nat 100)
      else 0) \<le> f64_nat 100" if "used \<le> total_count"
    using fill_le_100 [OF that] by (cases "total_count > 0") (simp_all only: if_True if_False le0)
qed

theorem snapshot_in_order_witness:
  "fill_pct (snd (drain 3 65536 \<lparr>latencies = [9, 2], breakdown = Map.empty\<rparr>)) \<le> f64_nat 100 \<and>
   p99_us (snd (drain 3 65536 \<lparr>latencies = [9, 2], breakdown = Map.empty\<rparr>)) \<le> 9"
  using snapshot_in_order [OF surjective_pairing, of "\<lparr>latencies = [9, 2], breakdown = Map.empty\<rparr>" 3 65536]
  by (auto simp del: f64_nat_exact)

text \<open>Events that the channel took in a run, and those it dropped.\<close>

definition window_sum :: "bridge \<Rightarrow> u64" where
  "window_sum b = sum_list (map ops_per_sec (snapshots b))"

definition in_flight :: "bridge \<Rightarrow> nat" where
  "in_flight b = length (latencies (agg b)) + length (queue b)"

fun taken_count :: "bridge_event list \<Rightarrow> nat" where
  "taken_count [] = 0"
| "taken_count (Emit e True # evs) = Suc (taken_count evs)"
| "taken_count (_ # evs) = taken_count evs"

lemma taken_count_append [simp]: "taken_count (xs @ ys) = taken_count xs + taken_count ys"
  by (induction xs rule: taken_count.induct) simp_all

definition conserved :: "nat \<Rightarrow> bridge \<Rightarrow> bool" where
  "conserved n b \<longleftrightarrow> window_sum b + of_nat (in_flight b) = of_nat n \<and> length (queue b) \<le> CHANNEL_CAPACITY"

lemma conserved_step:
  assumes "bridge_step b ev b'" "conserved n b"
  shows "conserved (n + taken_count [ev]) b'"
proof (cases ev)
  case (Emit e taken)
  with assms show ?thesis
    by (auto elim!: bridge_emitE simp: conserved_def try_send_def window_sum_def in_flight_def algebra_simps
        split: if_splits)
next
  case Recv
  with assms show ?thesis
    by (auto elim!: bridge_recvE simp: conserved_def window_sum_def in_flight_def record_event_def algebra_simps)
next
  case (Tick used tot)
  with assms show ?thesis
    by (auto elim!: bridge_tickE simp: conserved_def window_sum_def in_flight_def drain_def Let_def algebra_simps)
qed

text \<open>
  No event is lost or counted twice between the channel and the dashboard.  Whatever the order
  of emissions, receptions and ticks, the operation counts of all snapshots and the events still
  in the window and in the channel add up to the events the channel took; it takes every event
  unless a million are waiting, and never holds more.
\<close>

theorem bridge_conserves_events:
  assumes "bridge_run bridge_start evs b"
  shows "window_sum b + of_nat (in_flight b) = of_nat (taken_count evs) \<and>
    length (queue b) \<le> CHANNEL_CAPACITY \<and>
    (\<forall>e b'. bridge_step b (Emit e False) b' \<longrightarrow> length (queue b) = CHANNEL_CAPACITY \<and> b' = b)"
proof -
  have "conserved (taken_count evs) b"
    using assms
  proof (induction bridge_start evs b rule: bridge_run.induct)
    case Nil
    then show ?case
      by (simp add: conserved_def bridge_start_def aggregator_new_def window_sum_def in_flight_def)
  next
    case (Snoc evs b ev b')
    then show ?case using conserved_step [OF Snoc(3) Snoc(2)] by simp
  qed
  then show ?thesis
    by (auto simp: conserved_def try_send_def elim!: bridge_emitE split: if_splits)
qed

lemmas bridge_run_one = bridge_run.Snoc [OF bridge_run.Nil, simplified append_Nil]

theorem bridge_conserves_events_witness:
  "window_sum \<lparr>queue = [\<lparr>op = [1], latency_us = 4\<rparr>], agg = aggregator_new, snapshots = []\<rparr> = 0"
proof -
  have "bridge_run bridge_start [Emit \<lparr>op = [1], latency_us = 4\<rparr> True]
      (bridge_start\<lparr>queue := [\<lparr>op = [1], latency_us = 4\<rparr>]\<rparr>)"
    by (rule bridge_run_one, rule bridge_step.emit)
      (simp add: try_send_def bridge_start_def CHANNEL_CAPACITY_def)
  from bridge_conserves_events [OF this] show ?thesis
    by (simp add: in_flight_def bridge_start_def aggregator_new_def)
qed

end
