(* ===== verification/Server.thy ===== *)
theory Server
  imports Client Resp WsBridge
begin

text \<open>
  \<open>src/server/mod.rs\<close>: the command dispatcher and the per-connection loop of the TCP server.  A
  command takes the clock readings of its map operations as a function of their index; the
  Unicode case tables are the arguments \<open>uc\<close> and \<open>lc\<close> of the case conversions.
\<close>

section \<open>Command dispatcher\<close>

definition or_zero :: "u64 option \<Rightarrow> u64" where
  "or_zero n = (case n of Some n \<Rightarrow> n | None \<Rightarrow> 0)"

text \<open>The \<open>while\<close> loop over the options of SET, from \<open>args[i]\<close> on.\<close>

fun set_options :: "(bytes \<Rightarrow> bytes) \<Rightarrow> u64 \<Rightarrow> bytes list \<Rightarrow> u64" where
  "set_options uc ttl_secs [] = ttl_secs"
| "set_options uc ttl_secs [opt] = ttl_secs"
| "set_options uc ttl_secs (opt # arg # rest) =
    (let opt = to_uppercase uc (from_utf8_lossy opt)
     in if opt = ascii ''EX'' then set_options uc (or_zero (parse_u64 (from_utf8_lossy arg))) rest
        else if opt = ascii ''PX'' then
          (let px = or_zero (parse_u64 (from_utf8_lossy arg))
           in set_options uc ((px + 999) div 1000) rest)
        else set_options uc ttl_secs (arg # rest))"

fun del_count :: "bytes list \<Rightarrow> i64 \<Rightarrow> arena \<Rightarrow> arena \<times> i64" where
  "del_count [] deleted a = (a, deleted)"
| "del_count (k # ks) deleted a =
    (case client_del k a of (a1, r) \<Rightarrow> del_count ks (if r = Ok True then deleted + 1 else deleted) a1)"

fun exists_count :: "(nat \<Rightarrow> u64) \<Rightarrow> bytes list \<Rightarrow> i64 \<Rightarrow> arena \<Rightarrow> arena \<times> i64" where
  "exists_count clk [] count a = (a, count)"
| "exists_count clk (k # ks) count a =
    (case client_exists (clk 0) k a of (a1, r) \<Rightarrow>
      exists_count (\<lambda>i. clk (Suc i)) ks (if r = Ok True then count + 1 else count) a1)"

text \<open>\<open>args.chunks(2)\<close> of an even number of arguments.\<close>

fun pairs :: "bytes list \<Rightarrow> (bytes \<times> bytes) list" where
  "pairs (k # v # rest) = (k, v) # pairs rest"
| "pairs _ = []"

definition info_text :: "arena \<Rightarrow> bytes" where
  "info_text a = ascii ''# MemLane'' @ crlf @ ascii ''memlane_version:0.1.0'' @ crlf
    @ ascii ''used_slots:'' @ show_nat (unat (client_used_count a)) @ crlf
    @ ascii ''total_slots:'' @ show_nat (client_capacity a) @ crlf
    @ ascii ''fill_ratio:'' @ f64_fixed2 (f64_mul (client_fill_ratio a) (f64_nat 100)) @ ascii ''%'' @ crlf
    @ ascii ''transport:shared_memory'' @ crlf @ ascii ''protocol:RESP2'' @ crlf"

definition unknown_command :: "(bytes \<Rightarrow> bytes) \<Rightarrow> bytes \<Rightarrow> resp_value" where
  "unknown_command lc unknown = ErrorV (ascii ''ERR unknown command '' @ [0x27] @ to_lowercase lc unknown @ [0x27]
    @ ascii '', try PING, GET, SET, DEL, EXISTS, MGET, MSET, INCR, DECR, FLUSH, INFO'')"

text \<open>A client error as the reply \<open>err(&e.to_string())\<close>.\<close>

definition reply_or_err :: "('a \<Rightarrow> resp_value) \<Rightarrow> ('a, client_error) rresult \<Rightarrow> resp_value" where
  "reply_or_err f r = (case r of Ok x \<Rightarrow> f x | Err e \<Rightarrow> err (show_client_error e) | Panic \<Rightarrow> nil)"

definition dispatch ::
  "(bytes \<Rightarrow> bytes) \<Rightarrow> (bytes \<Rightarrow> bytes) \<Rightarrow> (nat \<Rightarrow> u64) \<Rightarrow> command \<Rightarrow> arena \<Rightarrow> arena \<times> resp_value" where
  "dispatch uc lc clk cmd a =
    (if name cmd = ascii ''PING'' then
       (a, if args cmd = [] then pong else bulk (args cmd ! 0))
     else if name cmd = ascii ''GET'' then
       (if length (args cmd) \<noteq> 1 then (a, wrong_args lc (ascii ''GET''))
        else case client_get (clk 0) (args cmd ! 0) a of (a', r) \<Rightarrow>
          (a', reply_or_err (\<lambda>v. case v of Some v \<Rightarrow> bulk v | None \<Rightarrow> nil) r))
     else if name cmd = ascii ''SET'' then
       (if length (args cmd) < 2 then (a, wrong_args lc (ascii ''SET''))
        else
          let ttl_secs = set_options uc 0 (drop 2 (args cmd))
          in case client_set (clk 0) (args cmd ! 0) (args cmd ! 1) ttl_secs a of (a', r) \<Rightarrow>
            (a', reply_or_err (\<lambda>_. ok) r))
     else if name cmd = ascii ''DEL'' then
       (if args cmd = [] then (a, wrong_args lc (ascii ''DEL''))
        else case del_count (args cmd) 0 a of (a', n) \<Rightarrow> (a', integer n))
     else if name cmd = ascii ''EXISTS'' then
       (if args cmd = [] then (a, wrong_args lc (ascii ''EXISTS''))
        else case exists_count clk (args cmd) 0 a of (a', n) \<Rightarrow> (a', integer n))
     else if name cmd = ascii ''MGET'' then
       (if args cmd = [] then (a, wrong_args lc (ascii ''MGET''))
        else case client_mget clk (args cmd) a of (a', r) \<Rightarrow>
          (a', reply_or_err (\<lambda>vs. Array (map (\<lambda>v. case v of Some v \<Rightarrow> bulk v | None \<Rightarrow> nil) vs)) r))
     else if name cmd = ascii ''MSET'' then
       (if args cmd = [] \<or> length (args cmd) mod 2 \<noteq> 0 then (a, wrong_args lc (ascii ''MSET''))
        else case client_mset clk (pairs (args cmd)) 0 a of (a', r) \<Rightarrow> (a', reply_or_err (\<lambda>_. ok) r))
     else if name cmd = ascii ''INCR'' then
       (if length (args cmd) \<noteq> 1 then (a, wrong_args lc (ascii ''INCR''))
        else case client_incr (clk 0) (clk 1) (args cmd ! 0) a of (a', r) \<Rightarrow> (a', reply_or_err integer r))
     else if name cmd = ascii ''DECR'' then
       (if length (args cmd) \<noteq> 1 then (a, wrong_args lc (ascii ''DECR''))
        else case client_decr (clk 0) (clk 1) (args cmd ! 0) a of (a', r) \<Rightarrow> (a', reply_or_err integer r))
     else if name cmd = ascii ''TTL'' then
       (a, if length (args cmd) \<noteq> 1 then wrong_args lc (ascii ''TTL'') else integer (- 1))
     else if name cmd \<in> {ascii ''FLUSH'', ascii ''FLUSHALL'', ascii ''FLUSHDB''} then
       (case client_flush a of (a', r) \<Rightarrow> (a', reply_or_err (\<lambda>_. ok) r))
     else if name cmd = ascii ''INFO'' then (a, bulk (info_text a))
     else if name cmd = ascii ''COMMAND'' then (a, Array [])
     else (a, unknown_command lc (name cmd)))"

definition dispatch_command ::
  "(bytes \<Rightarrow> bytes) \<Rightarrow> (bytes \<Rightarrow> bytes) \<Rightarrow> (nat \<Rightarrow> u64) \<Rightarrow> resp_value \<Rightarrow> arena \<Rightarrow> arena \<times> resp_value" where
  "dispatch_command uc lc clk val a = (case extract_command uc val of
      Ok cmd \<Rightarrow> dispatch uc lc clk cmd a
    | Err e \<Rightarrow> (a, err e)
    | Panic \<Rightarrow> (a, nil))"

definition command_name :: "(bytes \<Rightarrow> bytes) \<Rightarrow> resp_value \<Rightarrow> bytes" where
  "command_name uc val = (case val of
      Array (BulkString b # _) \<Rightarrow> to_uppercase uc (from_utf8_lossy b)
    | _ \<Rightarrow> ascii ''UNKNOWN'')"

section \<open>One connection\<close>

text \<open>
  What the loop cannot know: whether an allocation succeeds, the case tables, the clock readings
  of the operations of the \<open>n\<close>-th command, its measured latency, and whether the \<open>n\<close>-th write on the
  socket succeeds.
\<close>

record env =
  alloc :: "nat \<Rightarrow> bool"
  upper :: "bytes \<Rightarrow> bytes"
  lower :: "bytes \<Rightarrow> bytes"
  clock :: "nat \<Rightarrow> nat \<Rightarrow> u64"
  latency :: "nat \<Rightarrow> u64"
  write_ok :: "nat \<Rightarrow> bool"

text \<open>
  The state of a connection: the unread bytes, the shared arena, the bytes of each write and the
  metric events, oldest first.
\<close>

record conn =
  pending :: bytes
  store :: arena
  sent :: "bytes list"
  metrics :: "metric_event list"

datatype outcome = Waiting conn | Closed conn | IoError conn | Panicked

text \<open>\<open>socket.write_all\<close>: the bytes go out, or the handler returns the error.\<close>

definition write_all :: "env \<Rightarrow> bytes \<Rightarrow> conn \<Rightarrow> conn + conn" where
  "write_all env bs c =
    (if write_ok env (length (sent c)) then Inr (c\<lparr>sent := sent c @ [bs]\<rparr>) else Inl c)"

definition run_command :: "env \<Rightarrow> resp_value \<Rightarrow> conn \<Rightarrow> conn \<times> resp_value" where
  "run_command env val c =
    (case dispatch_command (upper env) (lower env) (clock env (length (metrics c))) val (store c) of
      (a', response) \<Rightarrow>
        (c\<lparr>store := a', metrics := metrics c @
            [\<lparr>op = command_name (upper env) val, latency_us = latency env (length (metrics c))\<rparr>]\<rparr>, response))"

lemma pending_run_command: "run_command env val c = (c', r) \<Longrightarrow> pending c' = pending c"
  by (auto simp: run_command_def split: prod.splits)

lemma pending_write_all: "write_all env bs c = Inr c' \<Longrightarrow> pending c' = pending c"
  by (auto simp: write_all_def split: if_splits)

text \<open>The inner loop over the complete commands in \<open>pending\<close>, and the \<open>drain\<close> after it.\<close>

function serve_loop :: "env \<Rightarrow> nat \<Rightarrow> conn \<Rightarrow> outcome" where
  "serve_loop env offset c =
    (case slice offset (length (pending c)) (pending c) of
      None \<Rightarrow> Panicked
    | Some rest \<Rightarrow> (case parse (alloc env) rest of
        Ok (Some (val, consumed)) \<Rightarrow>
          (case run_command env val c of (c1, response) \<Rightarrow>
            (case write_all env (encode_to_vec response) c1 of
              Inl c2 \<Rightarrow> IoError c2
            | Inr c2 \<Rightarrow> serve_loop env (offset + consumed) c2))
      | Ok None \<Rightarrow> Waiting (c\<lparr>pending := drop offset (pending c)\<rparr>)
      | Err e \<Rightarrow>
          (case write_all env (encode_to_vec (err (show_resp_error e))) c of
            Inl c2 \<Rightarrow> IoError c2
          | Inr c2 \<Rightarrow> Waiting (c2\<lparr>pending := []\<rparr>))
      | Panic \<Rightarrow> Panicked))"
  by pat_completeness auto

termination
proof (relation "measure (\<lambda>(env, offset, c). length (pending c) - offset)", goal_cases)
  case 1
  show ?case by simp
next
  case (2 env offset c rest r p val consumed c1 response c2)
  then show ?case
    using parse_bounds [of "alloc env" rest val consumed] pending_run_command [of env val c c1 response]
      pending_write_all [of env "encode_to_vec response" c1 c2]
    by (auto simp: slice_def split: if_splits)
qed

declare serve_loop.simps [simp del]

text \<open>\<open>handle_client\<close> on what the reads give: bytes, the end of the stream, or an error.\<close>

datatype read = Data bytes | ReadError

fun handle_client :: "env \<Rightarrow> read list \<Rightarrow> conn \<Rightarrow> outcome" where
  "handle_client env [] c = Waiting c"
| "handle_client env (ReadError # reads) c = IoError c"
| "handle_client env (Data bs # reads) c =
    (if bs = [] then Closed c
     else case serve_loop env 0 (c\<lparr>pending := pending c @ bs\<rparr>) of
       Waiting c' \<Rightarrow> handle_client env reads c'
     | out \<Rightarrow> out)"

definition connected :: "arena \<Rightarrow> conn" where
  "connected a = \<lparr>pending = [], store = a, sent = [], metrics = []\<rparr>"

section \<open>Frames through the loop\<close>

text \<open>One command and its reply, when the write succeeds.\<close>

definition execute :: "env \<Rightarrow> resp_value \<Rightarrow> conn \<Rightarrow> conn" where
  "execute env val c = (case run_command env val c of (c', response) \<Rightarrow>
    c'\<lparr>sent := sent c' @ [encode_to_vec response]\<rparr>)"

lemma pending_execute [simp]: "pending (execute env val c) = pending c"
  by (simp add: execute_def case_prod_beta pending_run_command [OF surjective_pairing])

lemma serve_next:
  assumes "offset \<le> length (pending c)" "write_ok env = (\<lambda>_. True)"
    "parse (alloc env) (drop offset (pending c)) = Ok (Some (v, n))"
  shows "serve_loop env offset c = serve_loop env (offset + n) (execute env v c)"
  using assms by (subst serve_loop.simps) (simp add: slice_def write_all_def execute_def case_prod_beta)

lemma serve_wait:
  assumes "offset \<le> length (pending c)" "parse (alloc env) (drop offset (pending c)) = Ok None"
  shows "serve_loop env offset c = Waiting (c\<lparr>pending := drop offset (pending c)\<rparr>)"
  using assms by (subst serve_loop.simps) (simp add: slice_def)

lemma execute_pending: "execute env v (c\<lparr>pending := p\<rparr>) = (execute env v c)\<lparr>pending := p\<rparr>"
  by (simp add: execute_def run_command_def case_prod_beta)

lemma fold_execute_pending: "fold (execute env) vs (c\<lparr>pending := p\<rparr>) = (fold (execute env) vs c)\<lparr>pending := p\<rparr>"
  by (induction vs arbitrary: c) (simp_all add: execute_pending)

lemma pending_fold_execute [simp]: "pending (fold (execute env) vs c) = pending c"
  by (induction vs arbitrary: c) simp_all

lemma serve_frames:
  assumes "write_ok env = (\<lambda>_. True)" "list_all (resp_ok (alloc env)) vs"
    "pending c = pre @ concat (map encoding vs) @ tail" "parse (alloc env) tail = Ok None"
  shows "serve_loop env (length pre) c = Waiting ((fold (execute env) vs c)\<lparr>pending := tail\<rparr>)"
  using assms(2,3)
proof (induction vs arbitrary: pre c)
  case Nil
  then show ?case using assms(4) by (simp add: serve_wait)
next
  case (Cons v vs)
  have "parse (alloc env) (drop (length pre) (pending c)) = Ok (Some (v, length (encoding v)))"
    using Cons.prems by (simp add: parse_encoding)
  then have "serve_loop env (length pre) c = serve_loop env (length (pre @ encoding v)) (execute env v c)"
    using Cons.prems(2) assms(1) by (simp add: serve_next)
  also have "\<dots> = Waiting ((fold (execute env) vs (execute env v c))\<lparr>pending := tail\<rparr>)"
    using Cons.prems by (intro Cons.IH) simp_all
  finally show ?case by simp
qed

lemma handle_chunks:
  assumes "write_ok env = (\<lambda>_. True)" "list_all (resp_ok (alloc env)) vs" "parse (alloc env) tail = Ok None"
    "pending c @ concat chunks = concat (map encoding vs) @ tail" "[] \<notin> List.set chunks"
    "parse (alloc env) (pending c) = Ok None"
  shows "handle_client env (map Data chunks) c = Waiting ((fold (execute env) vs c)\<lparr>pending := tail\<rparr>)"
  using assms(2,4,5,6)
proof (induction chunks arbitrary: c vs)
  case Nil
  have "vs = []"
  proof (cases vs)
    case (Cons v us)
    with Nil(1,2,4) parse_encoding [of "alloc env" v "concat (map encoding us) @ tail"] show ?thesis by simp
  qed
  with Nil show ?case by simp
next
  case (Cons x chunks)
  obtain vs1 vs2 p' where split: "vs = vs1 @ vs2" "pending c @ x = concat (map encoding vs1) @ p'"
    "parse (alloc env) p' = Ok None" "p' @ concat chunks = concat (map encoding vs2) @ tail"
    using wire.split_frames [OF Cons.prems(1) assms(3), of "pending c @ x" "concat chunks"] Cons.prems(2) by auto
  have "serve_loop env 0 (c\<lparr>pending := pending c @ x\<rparr>) = Waiting ((fold (execute env) vs1 c)\<lparr>pending := p'\<rparr>)"
    using serve_frames [OF assms(1), of vs1 "c\<lparr>pending := pending c @ x\<rparr>" "[]" p'] Cons.prems(1) split
    by (simp add: fold_execute_pending)
  moreover have "x \<noteq> []" using Cons.prems(3) by auto
  ultimately show ?case
    using Cons.prems(1,3) Cons.IH [of vs2 "(fold (execute env) vs1 c)\<lparr>pending := p'\<rparr>"] split
    by (simp add: fold_execute_pending)
qed

section \<open>Requests\<close>

text \<open>A command as clients send it: an array of bulk strings.\<close>

definition request :: "bytes list \<Rightarrow> resp_value" where
  "request parts = Array (map BulkString parts)"

lemma bulk_args_map [simp]: "bulk_args (map BulkString bs) = Ok bs"
  by (induction bs) simp_all

lemma extract_request [resp_simps]:
  "is_ascii n \<Longrightarrow> extract_command uc (request (n # as)) = Ok \<lparr>name = map upper_byte n, args = as\<rparr>"
  by (simp add: extract_command_def request_def is_ascii_valid to_uppercase_ascii)

lemma dispatch_request [resp_simps]:
  "is_ascii n \<Longrightarrow> dispatch_command uc lc clk (request (n # as)) a =
    dispatch uc lc clk \<lparr>name = map upper_byte n, args = as\<rparr> a"
  by (simp add: dispatch_command_def extract_request)

lemma resp_ok_request [resp_simps]:
  "resp_ok al (request parts) \<longleftrightarrow>
    length parts < 2 ^ 63 \<and> al (length parts) \<and> (\<forall>p\<in>List.set parts. length p < 2 ^ 63)"
  by (simp add: request_def list_all_iff)

lemma dispatch_get [resp_simps]:
  "dispatch uc lc clk \<lparr>name = ascii ''GET'', args = [k]\<rparr> a =
    (fst (client_get (clk 0) k a),
     reply_or_err (\<lambda>v. case v of Some v \<Rightarrow> bulk v | None \<Rightarrow> nil) (snd (client_get (clk 0) k a)))"
  by (simp add: dispatch_def ascii_def case_prod_beta)

lemma dispatch_set [resp_simps]:
  "dispatch uc lc clk \<lparr>name = ascii ''SET'', args = k # v # opts\<rparr> a =
    (fst (client_set (clk 0) k v (set_options uc 0 opts) a),
     reply_or_err (\<lambda>_. ok) (snd (client_set (clk 0) k v (set_options uc 0 opts) a)))"
  by (simp add: dispatch_def ascii_def case_prod_beta Let_def)

lemma dispatch_exists [resp_simps]:
  "ks \<noteq> [] \<Longrightarrow> dispatch uc lc clk \<lparr>name = ascii ''EXISTS'', args = ks\<rparr> a =
    (fst (exists_count clk ks 0 a), integer (snd (exists_count clk ks 0 a)))"
  by (simp add: dispatch_def ascii_def case_prod_beta)

lemma dispatch_del [resp_simps]:
  "ks \<noteq> [] \<Longrightarrow> dispatch uc lc clk \<lparr>name = ascii ''DEL'', args = ks\<rparr> a =
    (fst (del_count ks 0 a), integer (snd (del_count ks 0 a)))"
  by (simp add: dispatch_def ascii_def case_prod_beta)

lemma dispatch_incr [resp_simps]:
  "dispatch uc lc clk \<lparr>name = ascii ''INCR'', args = [k]\<rparr> a =
    (fst (client_incr (clk 0) (clk 1) k a), reply_or_err integer (snd (client_incr (clk 0) (clk 1) k a)))"
  by (simp add: dispatch_def ascii_def case_prod_beta)

lemma upper_literals [resp_simps]:
  "map upper_byte (ascii ''GET'') = ascii ''GET''" "map upper_byte (ascii ''SET'') = ascii ''SET''"
  "map upper_byte (ascii ''EXISTS'') = ascii ''EXISTS''" "map upper_byte (ascii ''DEL'') = ascii ''DEL''"
  "map upper_byte (ascii ''INCR'') = ascii ''INCR''"
  by (simp_all add: ascii_def upper_byte_def between_def)

lemma ascii_literals [resp_simps]:
  "is_ascii (ascii ''GET'')" "is_ascii (ascii ''SET'')" "is_ascii (ascii ''EXISTS'')"
  "is_ascii (ascii ''DEL'')" "is_ascii (ascii ''INCR'')"
  by (simp_all add: ascii_def)

section \<open>Properties of a connection\<close>

text \<open>
  C6: how the network cuts the stream into reads does not matter.  If the bytes a client sends are
  the encodings of some values followed by an incomplete frame, then, as long as writes succeed,
  every way of reading them in non-empty pieces executes exactly those values in order, each once,
  sends the reply of each, and keeps the incomplete frame.
\<close>

theorem chunking_irrelevant:
  assumes "write_ok env = (\<lambda>_. True)" "list_all (resp_ok (alloc env)) vs" "parse (alloc env) tail = Ok None"
    and "concat chunks = concat (map encode_to_vec vs) @ tail" "[] \<notin> List.set chunks"
  shows "handle_client env (map Data chunks) (connected a) =
    Waiting ((fold (execute env) vs (connected a))\<lparr>pending := tail\<rparr>)"
  using handle_chunks [OF assms(1-3), of "connected a" chunks] assms(4,5)
  by (simp add: connected_def parse.simps encode_to_vec cong: map_cong)

definition plain_env :: env where
  "plain_env = \<lparr>alloc = (\<lambda>_. True), upper = id, lower = id, clock = (\<lambda>n i. of_nat (1000 + n)),
    latency = (\<lambda>_. 1), write_ok = (\<lambda>_. True)\<rparr>"

theorem chunking_irrelevant_witness:
  "handle_client plain_env [Data (ascii ''*1''), Data (crlf @ ascii ''$4'' @ crlf @ ascii ''PI''),
      Data (ascii ''NG'' @ crlf @ ascii ''*'')] (connected blank_arena) =
   Waiting ((execute plain_env (request [ascii ''PING'']) (connected blank_arena))\<lparr>pending := ascii ''*''\<rparr>)"
  using chunking_irrelevant [of plain_env "[request [ascii ''PING'']]" "ascii ''*''"
      "[ascii ''*1'', crlf @ ascii ''$4'' @ crlf @ ascii ''PI'', ascii ''NG'' @ crlf @ ascii ''*'']" blank_arena]
  by (simp add: plain_env_def request_def ascii_def encode_to_vec show_nat.simps digit_byte_def
      parse.simps parse_array.simps parse_line_def)

lemma execute_store:
  "store (execute env v c) =
    fst (dispatch_command (upper env) (lower env) (clock env (length (metrics c))) v (store c))"
  "sent (execute env v c) = sent c @ [encode_to_vec
    (snd (dispatch_command (upper env) (lower env) (clock env (length (metrics c))) v (store c)))]"
  "length (metrics (execute env v c)) = Suc (length (metrics c))"
  by (simp_all add: execute_def run_command_def case_prod_beta)

text \<open>
  C13: end to end.  A client that sends SET and then GET of the same key, in any pieces, receives
  \<open>+OK\<close> and then the bulk string of exactly the value it stored.
\<close>

theorem set_get_over_the_wire:
  assumes "write_ok env = (\<lambda>_. True)" "alloc env 2" "alloc env 3"
    and "client_ok K a" "k \<in> K" "length k \<le> MAX_KEY_LEN" "length v \<le> MAX_VAL_LEN" "has_room a"
    and "concat chunks = encode_to_vec (request [ascii ''SET'', k, v]) @ encode_to_vec (request [ascii ''GET'', k])"
    and "[] \<notin> List.set chunks"
  shows "\<exists>c. handle_client env (map Data chunks) (connected a) = Waiting c \<and>
    concat (sent c) = ascii ''+OK'' @ crlf @ ascii ''$'' @ show_nat (length v) @ crlf @ v @ crlf"
proof -
  let ?vs = "[request [ascii ''SET'', k, v], request [ascii ''GET'', k]]"
  let ?c = "fold (execute env) ?vs (connected a)"
  have "alloc env (Suc (Suc 0))" "alloc env (Suc (Suc (Suc 0)))"
    using assms(2,3) by (simp_all only: numeral_2_eq_2 numeral_3_eq_3)
  then have ok: "list_all (resp_ok (alloc env)) ?vs"
    using assms(6,7) by (simp add: resp_simps MAX_KEY_LEN_def MAX_VAL_LEN_def ascii_def)
  have run: "handle_client env (map Data chunks) (connected a) = Waiting (?c\<lparr>pending := []\<rparr>)"
    using handle_chunks [OF assms(1) ok, of "[]" "connected a" chunks] assms(9,10)
    by (simp add: connected_def parse.simps encode_to_vec)
  have full: "snd (hashmap_set t k v 0 a) \<noteq> Full" for t
    by (rule set_room [OF client_ok_wf [OF assms(4)] assms(6,8)])
  let ?t = "clock env 0 0"
  note set = client_set_spec [OF assms(4-7), of ?t 0]
  from set(1) full obtain b where b: "snd (client_set ?t k v 0 a) = Ok b" by simp
  have "snd (client_get t k (fst (client_set ?t k v 0 a))) = Ok (Some v)" for t
    using client_get_spec(1) [OF set(2) assms(5,6), of t] set(3) full by (simp add: live_def)
  then have "concat (sent ?c) = ascii ''+OK'' @ crlf @ ascii ''$'' @ show_nat (length v) @ crlf @ v @ crlf"
    by (simp add: execute_store resp_simps connected_def b reply_or_err_def ok_def bulk_def) (simp add: ascii_def)
  with run show ?thesis by auto
qed

theorem set_get_over_the_wire_witness:
  "\<exists>c. handle_client plain_env (map Data [encode_to_vec (request [ascii ''SET'', [1], [2]]),
      encode_to_vec (request [ascii ''GET'', [1]])]) (connected (fresh_arena blank_arena)) = Waiting c \<and>
    concat (sent c) = ascii ''+OK'' @ crlf @ ascii ''$1'' @ crlf @ [2] @ crlf"
  using set_get_over_the_wire [of plain_env, OF _ _ _ client_ok_fresh, of "[1]" "[1]" "[2]"
      "[encode_to_vec (request [ascii ''SET'', [1], [2]]), encode_to_vec (request [ascii ''GET'', [1]])]"]
  by (simp add: plain_env_def MAX_KEY_LEN_def MAX_VAL_LEN_def has_room_fresh encode_to_vec request_def
      ascii_def show_nat.simps digit_byte_def)

lemma serve_loop_no_panic:
  "\<forall>n. alloc env n \<Longrightarrow> offset \<le> length (pending c) \<Longrightarrow> serve_loop env offset c \<noteq> Panicked"
proof (induction env offset c rule: serve_loop.induct)
  case (1 env offset c)
  have rest: "slice offset (length (pending c)) (pending c) = Some (drop offset (pending c))"
    using 1(3) by (simp add: slice_def)
  have no: "parse (alloc env) (drop offset (pending c)) \<noteq> Panic"
    by (rule parse_no_panic(1) [OF 1(2)])
  show ?case
  proof (cases "\<exists>v n. parse (alloc env) (drop offset (pending c)) = Ok (Some (v, n))")
    case True
    then obtain v n where vn: "parse (alloc env) (drop offset (pending c)) = Ok (Some (v, n))" by blast
    obtain c1 resp where c1: "run_command env v c = (c1, resp)" by fastforce
    show ?thesis
    proof (cases "write_all env (encode_to_vec resp) c1")
      case (Inl c2)
      then show ?thesis by (subst serve_loop.simps) (simp add: rest vn c1)
    next
      case (Inr c2)
      have "pending c2 = pending c"
        using pending_run_command [OF c1] pending_write_all [OF Inr] by simp
      with 1(1) [OF rest vn refl refl c1 [symmetric] Inr 1(2)] parse_bounds [OF vn] 1(3)
      have "serve_loop env (offset + n) c2 \<noteq> Panicked" by (simp add: le_diff_conv2)
      then show ?thesis by (subst serve_loop.simps) (simp add: rest vn c1 Inr)
    qed
  next
    case False
    with no show ?thesis
      by (subst serve_loop.simps) (auto simp: rest split: rresult.splits option.splits sum.splits)
  qed
qed



text \<open>
  A protocol error throws away the rest of the read.  When some complete commands are followed
  by a malformed frame, the commands are executed and answered, one error reply is sent, and every
  byte already received after the malformed frame begins is forgotten; the connection stays open
  and what arrives next is parsed from its first byte.
\<close>

theorem protocol_error_discards:
  assumes "write_ok env = (\<lambda>_. True)" "list_all (resp_ok (alloc env)) vs" "parse (alloc env) bad = Err e"
    and "pending c @ bs = concat (map encode_to_vec vs) @ bad" "bs \<noteq> []"
  defines "c' \<equiv> fold (execute env) vs c"
  shows "handle_client env (Data bs # reads) c =
    handle_client env reads
      (c'\<lparr>sent := sent c' @ [encode_to_vec (err (show_resp_error e))], pending := []\<rparr>)"
proof -
  have "serve_loop env (length pre) d = Waiting ((fold (execute env) us d)\<lparr>
      sent := sent (fold (execute env) us d) @ [encode_to_vec (err (show_resp_error e))], pending := []\<rparr>)"
    if "pending d = pre @ concat (map encoding us) @ bad" "list_all (resp_ok (alloc env)) us" for d pre us
    using that
  proof (induction us arbitrary: d pre)
    case Nil
    then show ?case
      using assms(1,3) by (subst serve_loop.simps) (simp add: slice_def write_all_def)
  next
    case (Cons u us)
    have "parse (alloc env) (drop (length pre) (pending d)) = Ok (Some (u, length (encoding u)))"
      using Cons.prems by (simp add: parse_encoding)
    then have "serve_loop env (length pre) d = serve_loop env (length (pre @ encoding u)) (execute env u d)"
      using Cons.prems(1) assms(1) by (simp add: serve_next)
    with Cons.IH [of "execute env u d" "pre @ encoding u"] Cons.prems show ?case by simp
  qed
  from this [of "c\<lparr>pending := pending c @ bs\<rparr>" "[]" vs] assms(2,4,5) show ?thesis
    by (simp add: c'_def encode_to_vec fold_execute_pending cong: map_cong)
qed

theorem protocol_error_discards_witness:
  "handle_client plain_env [Data (ascii ''?'' @ encode_to_vec (request [ascii ''PING'']))] (connected blank_arena) =
    Waiting ((connected blank_arena)\<lparr>sent := [encode_to_vec (err (show_resp_error
      (Protocol (ascii ''Unknown RESP type byte: 0x3f''))))]\<rparr>)"
proof -
  have "parse (alloc plain_env) (ascii ''?'' @ encode_to_vec (request [ascii ''PING''])) =
      Err (Protocol (ascii ''Unknown RESP type byte: 0x3f''))"
    by (simp add: ascii_def parse.simps hex_byte_def hex_digit_def)
  from protocol_error_discards [OF _ _ this, of "[]" "connected blank_arena" _ "[]"] show ?thesis
    by (simp add: plain_env_def connected_def ascii_def)
qed

section \<open>Properties of the commands\<close>

lemma dispatch_cr_name:
  assumes "0x0D \<in> List.set n"
  shows "dispatch uc lc clk \<lparr>name = n, args = as\<rparr> a = (a, unknown_command lc n)"
proof -
  have "n \<noteq> lit" if "0x0D \<notin> List.set lit" for lit using assms that by auto
  then show ?thesis by (simp add: dispatch_def ascii_def)
qed

lemma case_cr [simp]: "upper_byte b = 0x0D \<longleftrightarrow> b = 0x0D" "lower_byte b = 0x0D \<longleftrightarrow> b = 0x0D"
proof -
  have "b = 0x2D" if "b - 0x20 = 0x0D" using that by (simp add: diff_eq_eq)
  then show "upper_byte b = 0x0D \<longleftrightarrow> b = 0x0D"
    by (auto simp: upper_byte_def between_def)
  have "b = 0xED" if "b + 0x20 = 0x0D" using that by (simp add: eq_diff_eq [symmetric])
  then show "lower_byte b = 0x0D \<longleftrightarrow> b = 0x0D"
    by (auto simp: lower_byte_def between_def)
qed

lemma case_crlf [simp]: "upper_byte 0x0A = 0x0A" "lower_byte 0x0A = 0x0A"
  "upper_byte 0x0D = 0x0D" "lower_byte 0x0D = 0x0D"
  by (simp_all add: upper_byte_def lower_byte_def between_def)

lemma case_ascii [simp]: "b < 0x80 \<Longrightarrow> upper_byte b < 0x80" "b < 0x80 \<Longrightarrow> lower_byte b < 0x80"
proof -
  assume b: "b < 0x80"
  have "b - 0x20 < 0x80" if "0x61 \<le> b"
    using b that by (simp add: word_less_nat_alt word_le_nat_alt unat_sub)
  then show "upper_byte b < 0x80" using b by (simp add: upper_byte_def between_def)
  have "b + 0x20 < 0x80" if "b \<le> 0x5A"
    using b that by (simp add: word_less_nat_alt word_le_nat_alt unat_word_ariths)
  then show "lower_byte b < 0x80" using b by (simp add: lower_byte_def between_def)
qed

lemma is_ascii_map:
  "is_ascii bs \<Longrightarrow> is_ascii (map upper_byte bs)" "is_ascii bs \<Longrightarrow> is_ascii (map lower_byte bs)"
  by (auto simp: is_ascii_def)

lemma lower_upper_line:
  assumes "is_ascii s" "0x0D \<notin> List.set s"
  shows "line_ok (ascii ''ERR unknown command '' @ [0x27] @ map lower_byte (map upper_byte s))"
proof -
  let ?l = "ascii ''ERR unknown command '' @ [0x27] @ map lower_byte (map upper_byte s)"
  have "is_ascii ?l" using is_ascii_map [of s] is_ascii_map [of "map upper_byte s"] assms(1)
    by (simp add: ascii_def del: map_map)
  moreover have "0x0D \<notin> List.set ?l" using assms(2) by (auto simp: ascii_def)
  ultimately show ?thesis
    by (simp add: line_ok_def is_ascii_valid find_crlf_no_cr del: append.simps)
qed

text \<open>
  Reply splitting.  The error reply to an unknown command repeats its name unescaped.  A name
  with CR LF in it ends the reply early: a client that parses the reply gets an error line cut at
  the CR LF and finds the rest of the name, which the sender chose, at the start of the next reply.
\<close>

theorem unknown_command_splits_reply:
  fixes uc lc :: "bytes \<Rightarrow> bytes" and clk :: "nat \<Rightarrow> u64" and a :: arena
  assumes "is_ascii s" "is_ascii t" "0x0D \<notin> List.set s"
  defines "reply \<equiv> encode_to_vec (snd (dispatch_command uc lc clk (request [s @ crlf @ t]) a))"
  shows "\<exists>n < length reply.
    parse al reply =
      Ok (Some (ErrorV (ascii ''ERR unknown command '' @ [0x27] @ map lower_byte (map upper_byte s)), n)) \<and>
    take (length t) (drop n reply) = map lower_byte (map upper_byte t)"
proof -
  let ?line = "ascii ''ERR unknown command '' @ [0x27] @ map lower_byte (map upper_byte s)"
  let ?rest = "map lower_byte (map upper_byte t) @ [0x27] @
    ascii '', try PING, GET, SET, DEL, EXISTS, MGET, MSET, INCR, DECR, FLUSH, INFO'' @ crlf"
  let ?n = "s @ crlf @ t"
  have name: "is_ascii ?n" using assms(1,2) by simp
  have up: "is_ascii (map upper_byte ?n)" by (rule is_ascii_map(1) [OF name])
  have "0x0D \<in> List.set (map upper_byte ?n)" by (auto simp: image_iff)
  from dispatch_cr_name [OF this]
  have "snd (dispatch_command uc lc clk (request [?n]) a) = unknown_command lc (map upper_byte ?n)"
    by (simp only: dispatch_request [OF name] snd_conv)
  then have "reply = 0x2D # ?line @ crlf @ ?rest"
    unfolding reply_def unknown_command_def to_lowercase_ascii [OF up] encode_to_vec by simp
  with parse_line_ok [OF lower_upper_line [OF assms(1,3)], of "0x2D" ?rest]
  have "parse al reply = Ok (Some (ErrorV ?line, length ?line + 3))"
    by (simp add: parse.simps parse_error_def)
  moreover have "drop (length ?line + 3) reply = ?rest"
    using \<open>reply = _\<close> by (simp add: numeral_3_eq_3)
  ultimately show ?thesis
    using \<open>reply = _\<close> by (intro exI [of _ "length ?line + 3"]) simp
qed

theorem unknown_command_splits_reply_witness:
  "\<exists>n. parse (\<lambda>_. True) (encode_to_vec (snd (dispatch_command id id (\<lambda>_. 5)
      (request [ascii ''X'' @ crlf @ ascii ''+OK'']) blank_arena))) =
    Ok (Some (ErrorV (ascii ''ERR unknown command '' @ [0x27] @ ascii ''x''), n))"
  using unknown_command_splits_reply [where s = "ascii ''X''" and t = "ascii ''+OK''" and al = "\<lambda>_. True"
      and uc = id and lc = id and clk = "\<lambda>_. 5" and a = blank_arena]
  by (auto simp: ascii_def upper_byte_def lower_byte_def between_def)

section \<open>Counting commands\<close>

lemma exists_count_add:
  assumes "client_ok K a" "List.set ks \<subseteq> K" "\<forall>k\<in>List.set ks. length k \<le> MAX_KEY_LEN" "mono clk"
  shows "snd (exists_count clk ks n a) =
    n + of_nat (length (filter (\<lambda>i. live (clk i) (entry a) (ks ! i) \<noteq> None) [0..<length ks]))"
  using assms
proof (induction clk ks n a rule: exists_count.induct)
  case (2 clk k ks n a)
  let ?clk = "\<lambda>i. clk (Suc i)" and ?a1 = "fst (client_exists (clk 0) k a)"
  note ex = client_exists_spec [OF 2(2), of k "clk 0"]
  have a1: "snd (client_exists (clk 0) k a) = Ok (live (clk 0) (entry a) k \<noteq> None)" "client_ok K ?a1"
    "entry ?a1 = purge (clk 0) k (entry a)"
    using ex 2(3,4) by simp_all
  have mono: "mono ?clk" using 2(5) by (auto simp: mono_def)
  have "clk 0 \<le> clk (Suc i)" for i using 2(5) by (simp add: mono_def)
  then have live: "live (clk (Suc i)) (entry ?a1) = live (clk (Suc i)) (entry a)" for i
    by (simp add: a1(3) live_purge)
  have upt: "length (filter P [0..<length (k # ks)]) =
      (if P 0 then 1 else 0) + length (filter (\<lambda>i. P (Suc i)) [0..<length ks])" for P
    by (simp add: upt_conv_Cons map_Suc_upt [symmetric] filter_map comp_def del: upt_Suc)
  from 2(1) [OF prod.collapse a1(2) _ _ mono] 2(3,4) a1(1)
  have "snd (exists_count ?clk ks (if live (clk 0) (entry a) k \<noteq> None then n + 1 else n) ?a1) =
      (if live (clk 0) (entry a) k \<noteq> None then n + 1 else n) +
      of_nat (length (filter (\<lambda>i. live (clk (Suc i)) (entry a) (ks ! i) \<noteq> None) [0..<length ks]))"
    by (simp add: live)
  then show ?case
    using a1(1) by (simp only: upt exists_count.simps case_prod_beta) (simp add: add.assoc)
qed simp

text \<open>
  EXISTS counts the listed keys that have a live value, a key listed twice counting twice, with
  a clock that does not run backwards.
\<close>

theorem exists_reply:
  assumes "client_ok K a" "List.set ks \<subseteq> K" "\<forall>k\<in>List.set ks. length k \<le> MAX_KEY_LEN" "mono clk" "ks \<noteq> []"
  shows "snd (dispatch_command uc lc clk (request (ascii ''EXISTS'' # ks)) a) =
    Integer (of_nat (length (filter (\<lambda>i. live (clk i) (entry a) (ks ! i) \<noteq> None) [0..<length ks])))"
  using exists_count_add [OF assms(1-4), of 0] assms(5) by (simp add: resp_simps integer_def)

theorem exists_reply_witness:
  "snd (dispatch_command id id (\<lambda>_. 9) (request [ascii ''EXISTS'', [1], [1]])
    (fst (client_set 5 [1] [2] 0 (fresh_arena blank_arena)))) = Integer 2"
proof -
  have len: "length [2 :: u8] \<le> MAX_VAL_LEN" "length [1 :: u8] \<le> MAX_KEY_LEN"
    by (simp_all add: MAX_KEY_LEN_def MAX_VAL_LEN_def)
  note ent = entry_set_fresh_client [where now = 5 and ttl = 0, OF len]
  from exists_reply [OF ent(1), of "[[1], [1]]" "\<lambda>_. 9" id id] len(2) show ?thesis
    by (simp add: ent(2) live_def mono_def)
qed

lemma hashmap_del_client:
  assumes "arena_wf a" "length k \<le> MAX_KEY_LEN"
  shows "snd (client_del k a) = Ok (entry a k \<noteq> None)" "arena_wf (fst (client_del k a))"
    "entry (fst (client_del k a)) = (entry a)(k := None)"
  using hashmap_del_spec [OF assms(1), of k] wf_hashmap_del [OF assms(1), of k] assms(2)
  by (simp_all add: client_del_def case_prod_beta)

lemma del_count_add:
  assumes "arena_wf a" "\<forall>k\<in>List.set ks. length k \<le> MAX_KEY_LEN"
  shows "snd (del_count ks n a) = n + of_nat (card (List.set ks \<inter> dom (entry a))) \<and>
    entry (fst (del_count ks n a)) = entry a |` (- List.set ks)"
  using assms
proof (induction ks n a rule: del_count.induct)
  case (2 k ks n a)
  let ?a1 = "fst (client_del k a)"
  have del: "snd (client_del k a) = Ok (entry a k \<noteq> None)" "arena_wf ?a1" "entry ?a1 = (entry a)(k := None)"
    using hashmap_del_client [of a k] 2(2,3) by simp_all
  have "insert k (List.set ks) \<inter> dom (entry a) =
      (if entry a k \<noteq> None then insert k (List.set ks \<inter> dom (entry ?a1)) else List.set ks \<inter> dom (entry ?a1))"
    and no_k: "k \<notin> dom (entry ?a1)"
    unfolding del(3) by auto
  then have card: "card (List.set (k # ks) \<inter> dom (entry a)) =
      (if entry a k \<noteq> None then 1 else 0) + card (List.set ks \<inter> dom (entry ?a1))"
    by simp
  have rest: "entry ?a1 |` (- List.set ks) = entry a |` (- List.set (k # ks))"
    unfolding del(3) by (auto simp: restrict_map_def)
  have "del_count (k # ks) n a = del_count ks (if entry a k \<noteq> None then n + 1 else n) ?a1"
    by (simp add: case_prod_beta del(1))
  with 2(1) [OF prod.collapse del(2)] 2(3) del(1) show ?case
    unfolding card rest [symmetric] by (simp add: add.assoc)
qed (simp add: restrict_map_def)

text \<open>
  DEL answers the number of different keys of its arguments that the arena holds (an expired
  one included), and removes exactly those.
\<close>

theorem del_reply:
  assumes "arena_wf a" "\<forall>k\<in>List.set ks. length k \<le> MAX_KEY_LEN" "ks \<noteq> []"
  shows "snd (dispatch_command uc lc clk (request (ascii ''DEL'' # ks)) a) =
      Integer (of_nat (card (List.set ks \<inter> dom (entry a)))) \<and>
    entry (fst (dispatch_command uc lc clk (request (ascii ''DEL'' # ks)) a)) = entry a |` (- List.set ks)"
  using del_count_add [OF assms(1,2), of 0] assms(3) by (simp add: resp_simps integer_def)

theorem del_reply_witness:
  "snd (dispatch_command id id (\<lambda>_. 9) (request [ascii ''DEL'', [1], [1], [3]])
    (fst (client_set 5 [1] [2] 0 (fresh_arena blank_arena)))) = Integer 1"
proof -
  have len: "length [2 :: u8] \<le> MAX_VAL_LEN" "length [1 :: u8] \<le> MAX_KEY_LEN"
    by (simp_all add: MAX_KEY_LEN_def MAX_VAL_LEN_def)
  note ent = entry_set_fresh_client [where now = 5 and ttl = 0, OF len]
  from del_reply [OF client_ok_wf [OF ent(1)], of "[[1], [1], [3]]" id id] len(2) show ?thesis
    by (simp add: ent(2))
qed

section \<open>Numbers in commands\<close>

lemma show_int_neg: "0 < m \<Longrightarrow> show_int (- int m) = 0x2D # show_nat m"
  by (simp add: show_int_def)

lemma sint_of_nat_big:
  assumes "2 ^ 63 \<le> n" "n < 2 ^ 64"
  shows "sint (of_nat n :: i64) = - int (2 ^ 64 - n)"
proof -
  have "(of_nat n :: i64) = of_int (int n - 2 ^ 64)" by simp
  then have "sint (of_nat n :: i64) = signed_take_bit 63 (int n - 2 ^ 64)"
    by (simp only: sint_sbintrunc') simp
  also have "\<dots> = int n - 2 ^ 64"
    using assms by (intro signed_take_bit_int_eq_self) simp_all
  finally show ?thesis using assms(2) by (simp add: of_nat_diff)
qed

text \<open>
  A counter that reaches \<open>2 ^ 63\<close> is answered as a negative number: the \<open>u64\<close> is cast to the \<open>i64\<close>
  of a RESP integer.
\<close>

theorem incr_reply_negative:
  assumes "client_ok K a" "k \<in> K" "length k \<le> MAX_KEY_LEN"
    and "entry a k = Some (show_nat n, 0)" "2 ^ 63 - 1 \<le> n" "n < 2 ^ 64 - 1"
  shows "encode_to_vec (snd (dispatch_command uc lc clk (request [ascii ''INCR'', k]) a)) =
    ascii '':-'' @ show_nat (2 ^ 64 - (n + 1)) @ crlf"
proof -
  have live: "live t (entry a) k = Some (show_nat n)" for t
    using assms(4) by (simp add: live_def)
  have n: "read_number (live (clk 0) (entry a) k) = of_nat n"
    using assms(6) parse_u64_show [of n] by (simp add: live read_number_def Let_def)
  have "snd (client_incr (clk 0) (clk 1) k a) = Ok (of_nat (n + 1))"
    using incr_spec(1) [OF assms(1-3), of "clk 0" "clk 1"] unfolding n by (simp add: live add.commute)
  moreover have "sint (of_nat (n + 1) :: i64) = - int (2 ^ 64 - (n + 1))"
    by (rule sint_of_nat_big) (use assms(5,6) in simp_all)
  ultimately have "encode_to_vec (snd (dispatch_command uc lc clk (request [ascii ''INCR'', k]) a)) =
      0x3A # show_int (- int (2 ^ 64 - (n + 1))) @ crlf"
    by (simp add: resp_simps reply_or_err_def integer_def)
  moreover have "0 < 2 ^ 64 - (n + 1)" using assms(6) by simp
  ultimately show ?thesis by (simp only: show_int_neg) (simp add: ascii_def)
qed

theorem incr_reply_negative_witness:
  "encode_to_vec (snd (dispatch_command id id (\<lambda>_. 9) (request [ascii ''INCR'', [1]])
    (fst (client_set 5 [1] (show_nat (2 ^ 64 - 2)) 0 (fresh_arena blank_arena))))) = ascii '':-1'' @ crlf"
proof -
  have "length (show_nat (2 ^ 64 - 2)) \<le> 20" by (rule length_show_nat) simp_all
  then have len: "length (show_nat (2 ^ 64 - 2)) \<le> MAX_VAL_LEN" "length [1 :: u8] \<le> MAX_KEY_LEN"
    by (simp_all add: MAX_KEY_LEN_def MAX_VAL_LEN_def)
  note ent = entry_set_fresh_client [where now = 5 and ttl = 0, OF len]
  have "entry (fst (client_set 5 [1] (show_nat (2 ^ 64 - 2)) 0 (fresh_arena blank_arena))) [1] =
      Some (show_nat (2 ^ 64 - 2), 0)"
    by (simp only: ent(2)) simp
  from incr_reply_negative [where uc = id and lc = id and clk = "\<lambda>_. 9", OF ent(1) _ len(2) this]
  show ?thesis by (simp add: ascii_def show_nat.simps [of "Suc 0"] digit_byte_def)
qed

text \<open>
  The expiry argument of SET.  \<open>EX\<close> takes the number as seconds, \<open>PX\<close> rounds milliseconds up to
  seconds, in any mixture of cases.  A number of milliseconds within 999 of the largest \<open>u64\<close> wraps
  around to no expiry at all, and so does an argument that is no number, without an error.
\<close>

theorem set_expiry_argument:
  assumes "n < 2 ^ 64"
  shows "set_options uc 0 [ascii ''ex'', show_nat n] = of_nat n \<and>
    (n + 999 < 2 ^ 64 \<longrightarrow> set_options uc 0 [ascii ''pX'', show_nat n] = of_nat ((n + 999) div 1000)) \<and>
    (2 ^ 64 \<le> n + 999 \<longrightarrow> set_options uc 0 [ascii ''PX'', show_nat n] = 0) \<and>
    (is_ascii bad \<longrightarrow> parse_u64 bad = None \<longrightarrow> set_options uc 0 [ascii ''EX'', bad] = 0)"
proof -
  have opts: "to_uppercase uc (from_utf8_lossy (ascii ''ex'')) = ascii ''EX''"
    "to_uppercase uc (from_utf8_lossy (ascii ''EX'')) = ascii ''EX''"
    "to_uppercase uc (from_utf8_lossy (ascii ''pX'')) = ascii ''PX''"
    "to_uppercase uc (from_utf8_lossy (ascii ''PX'')) = ascii ''PX''" "ascii ''PX'' \<noteq> ascii ''EX''"
    by (simp_all add: ascii_def to_uppercase_ascii upper_byte_def between_def)
  have px: "set_options uc 0 [ascii ''pX'', show_nat n] = (of_nat n + 999) div 1000"
    "set_options uc 0 [ascii ''PX'', show_nat n] = (of_nat n + 999) div 1000"
    using parse_u64_show [OF assms] by (simp_all add: opts or_zero_def)
  have sum: "unat (of_nat n + 999 :: u64) = (n + 999) mod 2 ^ 64"
    using assms by (simp add: unat_word_ariths unat_of_nat take_bit_eq_mod)
  have "(of_nat n + 999 :: u64) div 1000 = of_nat ((n + 999) div 1000)" if "n + 999 < 2 ^ 64"
  proof (rule word_unat_eq_iff [THEN iffD2])
    have "(n + 999) div 1000 < 2 ^ 64" using that by simp
    then show "unat ((of_nat n + 999 :: u64) div 1000) = unat (of_nat ((n + 999) div 1000) :: u64)"
      using that by (simp add: unat_div sum del: power_numeral)
  qed
  moreover have "(of_nat n + 999 :: u64) div 1000 = 0" if "2 ^ 64 \<le> n + 999"
  proof (rule word_unat_eq_iff [THEN iffD2])
    have "(n + 999) mod 2 ^ 64 = n + 999 - 2 ^ 64"
      using that assms by (simp add: le_mod_geq)
    then show "unat ((of_nat n + 999 :: u64) div 1000) = unat (0 :: u64)"
      using assms by (simp add: unat_div sum)
  qed
  ultimately show ?thesis
    using parse_u64_show [OF assms] px by (simp add: opts or_zero_def)
qed

theorem set_expiry_argument_witness:
  "set_options id 0 [ascii ''PX'', show_nat (2 ^ 64 - 1)] = 0 \<and>
   set_options id 0 [ascii ''ex'', show_nat 60] = 60 \<and> set_options id 0 [ascii ''pX'', show_nat 1500] = 2 \<and>
   set_options id 0 [ascii ''EX'', ascii ''1h''] = 0"
proof -
  have "parse_u64 (ascii ''1h'') = None" "is_ascii (ascii ''1h'')"
    by (simp_all add: ascii_def parse_u64_def between_def)
  with set_expiry_argument [of "2 ^ 64 - 1" id "ascii ''1h''"] set_expiry_argument [of 60 id]
    set_expiry_argument [of 1500 id]
  show ?thesis by simp
qed

text \<open>
  Options other than EX and PX are skipped.  SET with NX, which asks to store only an absent key,
  overwrites a present one and clears its expiry, and answers \<open>+OK\<close>.
\<close>

theorem set_nx_overwrites:
  assumes "client_ok K a" "k \<in> K" "length k \<le> MAX_KEY_LEN" "length v \<le> MAX_VAL_LEN"
    and "live (clk 0) (entry a) k \<noteq> None"
  shows "snd (dispatch_command uc lc clk (request [ascii ''SET'', k, v, ascii ''NX'']) a) = ok \<and>
    entry (fst (dispatch_command uc lc clk (request [ascii ''SET'', k, v, ascii ''NX'']) a)) =
      (entry a)(k \<mapsto> (v, 0))"
  using client_set_spec [OF assms(1-4), of "clk 0" 0]
    set_live [OF client_ok_wf [OF assms(1)] assms(3,5), of v 0]
  by (simp add: resp_simps reply_or_err_def)

theorem set_nx_overwrites_witness:
  "snd (dispatch_command id id (\<lambda>_. 9) (request [ascii ''SET'', [1], [7], ascii ''NX''])
    (fst (client_set 5 [1] [2] 0 (fresh_arena blank_arena)))) = ok"
proof -
  have len: "length [2 :: u8] \<le> MAX_VAL_LEN" "length [1 :: u8] \<le> MAX_KEY_LEN"
    by (simp_all add: MAX_KEY_LEN_def MAX_VAL_LEN_def)
  note ent = entry_set_fresh_client [where now = 5 and ttl = 0, OF len]
  from set_nx_overwrites [OF ent(1), of "[1]" "[7]" "\<lambda>_. 9" id id] len show ?thesis
    by (simp add: ent(2) live_def MAX_VAL_LEN_def)
qed

end
