(* ===== verification/Replies.thy ===== *)
theory Replies
  imports Server
begin

text \<open>
  What a client of the server can rely on: a type of reply for each command, the soundness of the
  dispatcher for these types on every well-formed arena, and what follows for a whole conversation.
  Every value the dispatcher can answer is one that the parser of a client reads back, so replies
  and requests stay in step.
\<close>

section \<open>Reply types\<close>

text \<open>
  The replies a command can have, as values that survive the wire.  Any command can answer an error
  line.
\<close>

inductive reply_typed :: "bytes \<Rightarrow> resp_value \<Rightarrow> bool" where
  error: "line_ok e \<Longrightarrow> reply_typed n (ErrorV e)"
| done_ok: "n \<in> {ascii ''SET'', ascii ''MSET'', ascii ''FLUSH'', ascii ''FLUSHALL'', ascii ''FLUSHDB''} \<Longrightarrow>
    reply_typed n (SimpleString (ascii ''OK''))"
| ping: "reply_typed (ascii ''PING'') (SimpleString (ascii ''PONG''))"
| echo: "length b < 2 ^ 63 \<Longrightarrow> reply_typed (ascii ''PING'') (BulkString b)"
| stored: "length b \<le> MAX_VAL_LEN \<Longrightarrow> reply_typed (ascii ''GET'') (BulkString b)"
| absent: "reply_typed (ascii ''GET'') NilV"
| number: "n \<in> {ascii ''DEL'', ascii ''EXISTS'', ascii ''INCR'', ascii ''DECR'', ascii ''TTL''} \<Longrightarrow>
    reply_typed n (Integer i)"
| several: "list_all (reply_typed (ascii ''GET'')) vs \<Longrightarrow> length vs < 2 ^ 63 \<Longrightarrow> reply_typed (ascii ''MGET'') (Array vs)"
| info: "length b < 2 ^ 63 \<Longrightarrow> reply_typed (ascii ''INFO'') (BulkString b)"
| commands: "reply_typed (ascii ''COMMAND'') (Array [])"
monos list.pred_mono

text \<open>A typed reply is one the parser of a client reads back.\<close>

lemma line_ok_ascii: "is_ascii s \<Longrightarrow> 0x0D \<notin> List.set s \<Longrightarrow> line_ok s"
  by (simp add: line_ok_def is_ascii_valid find_crlf_no_cr)

lemma reply_typed_ok:
  assumes "reply_typed n v" "\<forall>m. al m"
  shows "resp_ok al v"
  using assms
  by (induction rule: reply_typed.induct) (auto simp: list_all_iff line_ok_ascii MAX_VAL_LEN_def ascii_def)

section \<open>Client operations on arbitrary arguments\<close>

text \<open>The errors the operations of a connected client can have, and their texts.\<close>

definition operation_error :: "client_error \<Rightarrow> bool" where
  "operation_error e \<longleftrightarrow> (\<forall>m. e \<noteq> ArenaInit m)"

lemma valid_em_dash [simp]: "valid_utf8 (0xE2 # 0x80 # 0x94 # bs) \<longleftrightarrow> valid_utf8 bs"
proof -
  have "byte_at (0xE2 # 0x80 # 0x94 # bs) 2 = 0x94"
    by (simp only: numeral_2_eq_2 byte_at.simps)
  then have "utf8_step (0xE2 # 0x80 # 0x94 # bs) = (True, 3)"
    by (simp add: utf8_step_def between_def second_ok_def is_cont_def)
  then show ?thesis by (subst valid_utf8.simps) simp
qed

lemma show_nat_no_cr [simp]: "0x0D \<notin> List.set (show_nat n)"
  using show_nat_digits [of "0x0D" n] by (auto simp: between_def)

lemma line_ok_client_error: "operation_error e \<Longrightarrow> line_ok (ascii ''ERR '' @ show_client_error e)"
  by (cases e) (simp_all add: operation_error_def line_ok_def show_client_error_def
      find_crlf_no_cr is_ascii_valid ascii_def em_dash_def)

text \<open>Each operation keeps the invariant and answers a value within bounds or an operation error.\<close>

lemma get_value_bound: "arena_wf a \<Longrightarrow> snd (hashmap_get now key a) = Found v \<Longrightarrow> length v \<le> MAX_VAL_LEN"
  by (cases "hashmap_get now key a")
    (auto elim!: hashmap_get_cases simp: read_value_def)

lemma client_get_safe:
  assumes "arena_wf a"
  shows "arena_wf (fst (client_get now key a))"
    "\<exists>r. snd (client_get now key a) = Ok r \<and> (\<forall>v. r = Some v \<longrightarrow> length v \<le> MAX_VAL_LEN) \<or>
      (\<exists>e. snd (client_get now key a) = Err e \<and> operation_error e)"
  using assms wf_hashmap_get [OF assms, of now key] get_value_bound [OF assms, of now key]
  by (auto simp: client_get_def case_prod_beta operation_error_def split: get_result.splits)

lemma client_set_safe:
  assumes "arena_wf a"
  shows "arena_wf (fst (client_set now key val ttl a))"
    "(\<exists>b. snd (client_set now key val ttl a) = Ok b) \<or>
     (\<exists>e. snd (client_set now key val ttl a) = Err e \<and> operation_error e)"
  using wf_hashmap_set [OF assms, of key now val ttl] assms
  by (auto simp: client_set_def case_prod_beta operation_error_def split: set_result.splits)

lemma client_del_safe: "arena_wf a \<Longrightarrow> arena_wf (fst (client_del key a))"
  using wf_hashmap_del [of a key] by (simp add: client_del_def case_prod_beta)

lemma client_exists_safe: "arena_wf a \<Longrightarrow> arena_wf (fst (client_exists now key a))"
  using wf_hashmap_get [of a now key] by (simp add: client_exists_def hashmap_exists_def case_prod_beta)

lemma del_count_safe: "arena_wf a \<Longrightarrow> arena_wf (fst (del_count ks n a))"
  by (induction ks n a rule: del_count.induct) (simp_all add: case_prod_beta client_del_safe)

lemma exists_count_safe: "arena_wf a \<Longrightarrow> arena_wf (fst (exists_count clk ks n a))"
  by (induction clk ks n a rule: exists_count.induct) (simp_all add: case_prod_beta client_exists_safe)

lemma client_mget_safe:
  assumes "arena_wf a"
  shows "arena_wf (fst (client_mget clk ks a)) \<and>
    ((\<exists>vs. snd (client_mget clk ks a) = Ok vs \<and> length vs = length ks \<and>
        (\<forall>v. Some v \<in> List.set vs \<longrightarrow> length v \<le> MAX_VAL_LEN)) \<or>
     (\<exists>e. snd (client_mget clk ks a) = Err e \<and> operation_error e))"
  using assms
proof (induction clk ks a rule: client_mget.induct)
  case (2 clk k ks a)
  obtain a1 r where get: "client_get (clk 0) k a = (a1, r)" by fastforce
  have a1: "arena_wf a1" using client_get_safe(1) [OF 2(2), of "clk 0" k] get by simp
  show ?case
  proof (cases r)
    case (Ok v)
    obtain a2 r2 where rest: "client_mget (\<lambda>i. clk (Suc i)) ks a1 = (a2, r2)" by fastforce
    from 2(1) [OF get [symmetric] Ok a1] rest have IH: "arena_wf a2"
      "(\<exists>vs. r2 = Ok vs \<and> length vs = length ks \<and> (\<forall>v. Some v \<in> List.set vs \<longrightarrow> length v \<le> MAX_VAL_LEN)) \<or>
       (\<exists>e. r2 = Err e \<and> operation_error e)" by simp_all
    with client_get_safe(2) [OF 2(2), of "clk 0" k] get Ok rest show ?thesis by auto
  next
    case (Err e)
    with client_get_safe(2) [OF 2(2), of "clk 0" k] get a1 show ?thesis by simp
  next
    case Panic
    with client_get_safe(2) [OF 2(2), of "clk 0" k] get show ?thesis by simp
  qed
qed simp

lemma mset_loop_safe:
  assumes "arena_wf a"
  shows "arena_wf (fst (mset_loop clk ps ttl n a)) \<and>
    ((\<exists>m. snd (mset_loop clk ps ttl n a) = Ok m) \<or>
     (\<exists>e. snd (mset_loop clk ps ttl n a) = Err e \<and> operation_error e))"
  using assms
proof (induction clk ps ttl n a rule: mset_loop.induct)
  case (2 clk k v ps ttl n a)
  obtain a1 r where set: "client_set (clk 0) k v ttl a = (a1, r)" by fastforce
  have "arena_wf a1" using client_set_safe(1) [OF 2(2), of "clk 0" k v ttl] set by simp
  with 2(1) [OF set [symmetric]] client_set_safe(2) [OF 2(2), of "clk 0" k v ttl] set show ?case
    by (cases r) auto
qed simp

lemma store_number_safe:
  assumes "arena_wf a"
  shows "arena_wf (fst (store_number f now1 now2 key a)) \<and>
    ((\<exists>n. snd (store_number f now1 now2 key a) = Ok n) \<or>
     (\<exists>e. snd (store_number f now1 now2 key a) = Err e \<and> operation_error e))"
proof -
  obtain a1 r where get: "client_get now1 key a = (a1, r)" by fastforce
  have a1: "arena_wf a1" using client_get_safe(1) [OF assms, of now1 key] get by simp
  note set = client_set_safe [OF a1, of now2 key _ 0]
  from client_get_safe(2) [OF assms, of now1 key] get consider
    (found) v where "r = Ok v" | (failed) e where "r = Err e" "operation_error e" by auto
  then show ?thesis
  proof cases
    case (found v)
    let ?s = "client_set now2 key (show_nat (unat (f (read_number v)))) 0 a1"
    have "store_number f now1 now2 key a = (fst ?s, case snd ?s of Ok _ \<Rightarrow> Ok (f (read_number v)) | Err e \<Rightarrow> Err e | Panic \<Rightarrow> Panic)"
      by (simp add: store_number_def get found Let_def split: prod.splits rresult.splits)
    with set [of "show_nat (unat (f (read_number v)))"] show ?thesis by auto
  qed (simp add: store_number_def get a1)
qed

lemma reply_or_err_typed:
  assumes "(\<exists>x. r = Ok x \<and> P x) \<or> (\<exists>e. r = Err e \<and> operation_error e)" "\<And>x. P x \<Longrightarrow> reply_typed n (f x)"
  shows "reply_typed n (reply_or_err f r)"
  using assms reply_typed.error [OF line_ok_client_error] by (auto simp: reply_or_err_def err_def)

section \<open>The text of INFO\<close>

lemma length_f64_fixed2:
  assumes "x \<le> 10 ^ 17 * f64_unit"
  shows "length (f64_fixed2 x) \<le> 22"
proof -
  have "round_half_even (x * 100) f64_unit \<le> 10 ^ 19"
    using assms by (intro round_half_even_le) (simp_all add: mult.commute)
  then have "round_half_even (x * 100) f64_unit div 100 < 10 ^ 19"
    by (simp add: div_less_dividend le_less_trans [OF div_le_dividend])
  from length_show_nat [OF this] show ?thesis by (simp add: f64_fixed2_def Let_def)
qed

lemma fill_percentage_bound: "f64_mul (client_fill_ratio a) (f64_nat 100) \<le> 10 ^ 17 * f64_unit"
proof -
  have used: "f64_nat (2 ^ 64) = 2 ^ 64 * f64_unit"
    using f64_round_exact [of 1 1 "2 ^ 64" 64] by (simp add: f64_nat_def)
  have cap: "f64_nat (client_capacity a) = 2 ^ 16 * f64_unit"
    by (simp add: client_capacity_def hashmap_capacity_def SLOT_COUNT_def)
  have "unat (client_used_count a) \<le> 2 ^ 64"
    by (rule less_imp_le, rule less_le_trans [OF unsigned_less]) simp
  from f64_nat_mono [OF this] have "f64_nat (unat (client_used_count a)) \<le> 2 ^ 64 * f64_unit"
    by (simp only: used)
  then have "client_fill_ratio a \<le> f64_div (2 ^ 64 * f64_unit) (2 ^ 16 * f64_unit)"
    unfolding client_fill_ratio_def cap by (intro f64_div_mono) simp_all
  also have "\<dots> = 2 ^ 48 * f64_unit"
    unfolding f64_div_def by (rule f64_round_exact_nat) simp_all
  finally have "f64_mul (client_fill_ratio a) (f64_nat 100) \<le> f64_mul (2 ^ 48 * f64_unit) (100 * f64_unit)"
    by (intro f64_mul_mono) simp_all
  also have "\<dots> = 100 * 2 ^ 248"
    unfolding f64_mul_def by (rule f64_round_exact) (simp_all add: f64_unit_def)
  finally show ?thesis by (simp add: f64_unit_def)
qed

lemma info_text_bound: "length (info_text a) < 2 ^ 63"
proof -
  have "unat (client_used_count a) < 10 ^ 20" by (rule less_trans [OF unsigned_less]) simp
  from length_show_nat [OF this] have "length (show_nat (unat (client_used_count a))) \<le> 20" by simp
  moreover have "length (show_nat (client_capacity a)) \<le> 5"
    by (rule length_show_nat) (simp_all add: client_capacity_def hashmap_capacity_def SLOT_COUNT_def)
  moreover note length_f64_fixed2 [OF fill_percentage_bound, of a]
  ultimately show ?thesis by (simp add: info_text_def ascii_def)
qed

section \<open>The dispatcher\<close>

lemma typed_error_line: "is_ascii e \<Longrightarrow> 0x0D \<notin> List.set e \<Longrightarrow> reply_typed n (ErrorV e)"
  by (intro reply_typed.error line_ok_ascii)

lemma wrong_args_typed: "is_ascii c \<Longrightarrow> 0x0D \<notin> List.set c \<Longrightarrow> reply_typed n (wrong_args lc c)"
  unfolding wrong_args_def
  by (rule typed_error_line) (auto simp: to_lowercase_ascii is_ascii_map ascii_def)

lemma unknown_command_typed:
  "is_ascii c \<Longrightarrow> 0x0D \<notin> List.set c \<Longrightarrow> reply_typed n (unknown_command lc c)"
  unfolding unknown_command_def
  by (rule typed_error_line) (auto simp: to_lowercase_ascii is_ascii_map ascii_def)

definition sound :: "bytes \<Rightarrow> arena \<times> resp_value \<Rightarrow> bool" where
  "sound n p \<longleftrightarrow> arena_wf (fst p) \<and> reply_typed n (snd p)"

lemma sound_if: "(b \<Longrightarrow> sound n p) \<Longrightarrow> (\<not> b \<Longrightarrow> sound n q) \<Longrightarrow> sound n (if b then p else q)"
  by simp

lemma sound_pure: "arena_wf a \<Longrightarrow> reply_typed n v \<Longrightarrow> sound n (a, v)"
  by (simp add: sound_def)

lemma sound_reply_or_err:
  assumes "arena_wf (fst q)" "(\<exists>x. snd q = Ok x \<and> P x) \<or> (\<exists>e. snd q = Err e \<and> operation_error e)"
    and "\<And>x. P x \<Longrightarrow> reply_typed n (f x)"
  shows "sound n (case q of (a', r) \<Rightarrow> (a', reply_or_err f r))"
  using assms(1) reply_or_err_typed [OF assms(2,3)] by (simp add: sound_def case_prod_beta)

lemma sound_count: "arena_wf (fst q) \<Longrightarrow>
  n \<in> {ascii ''DEL'', ascii ''EXISTS'', ascii ''INCR'', ascii ''DECR'', ascii ''TTL''} \<Longrightarrow>
  sound n (case q of (a', m) \<Rightarrow> (a', integer m))"
  by (simp only: sound_def case_prod_beta fst_conv snd_conv integer_def reply_typed.number simp_thms)

lemma found_typed: "\<forall>v. r = Some v \<longrightarrow> length v \<le> MAX_VAL_LEN \<Longrightarrow>
  reply_typed (ascii ''GET'') (case r of Some v \<Rightarrow> bulk v | None \<Rightarrow> nil)"
  by (cases r) (simp_all add: bulk_def nil_def reply_typed.stored reply_typed.absent)

lemma sound_get: "arena_wf a \<Longrightarrow> sound (ascii ''GET'') (case client_get now k a of (a', r) \<Rightarrow>
    (a', reply_or_err (\<lambda>v. case v of Some v \<Rightarrow> bulk v | None \<Rightarrow> nil) r))"
  using client_get_safe [of a now k]
  by (intro sound_reply_or_err [where P = "\<lambda>r. \<forall>v. r = Some v \<longrightarrow> length v \<le> MAX_VAL_LEN"] found_typed) auto

lemma sound_set: "arena_wf a \<Longrightarrow>
  sound (ascii ''SET'') (case client_set now k v ttl a of (a', r) \<Rightarrow> (a', reply_or_err (\<lambda>_. ok) r))"
  using client_set_safe [of a now k v ttl]
  by (intro sound_reply_or_err [where P = "\<lambda>_. True"]) (auto simp: ok_def intro: reply_typed.done_ok)

lemma sound_mset: "arena_wf a \<Longrightarrow>
  sound (ascii ''MSET'') (case client_mset clk ps ttl a of (a', r) \<Rightarrow> (a', reply_or_err (\<lambda>_. ok) r))"
  using mset_loop_safe [of a clk ps ttl 0] unfolding client_mset_def
  by (intro sound_reply_or_err [where P = "\<lambda>_. True"]) (auto simp: ok_def intro: reply_typed.done_ok)

lemma sound_number:
  "arena_wf a \<Longrightarrow> n \<in> {ascii ''INCR'', ascii ''DECR''} \<Longrightarrow>
   sound n (case store_number f now1 now2 k a of (a', r) \<Rightarrow> (a', reply_or_err integer r))"
  using store_number_safe [of a f now1 now2 k]
  by (intro sound_reply_or_err [where P = "\<lambda>_. True"]) (auto simp: integer_def intro: reply_typed.number)

lemma sound_mget:
  assumes "arena_wf a" "length ks < 2 ^ 63"
  shows "sound (ascii ''MGET'') (case client_mget clk ks a of (a', r) \<Rightarrow>
    (a', reply_or_err (\<lambda>vs. Array (map (\<lambda>v. case v of Some v \<Rightarrow> bulk v | None \<Rightarrow> nil) vs)) r))"
proof (rule sound_reply_or_err [where P = "\<lambda>vs. length vs = length ks \<and>
    (\<forall>v. Some v \<in> List.set vs \<longrightarrow> length v \<le> MAX_VAL_LEN)"])
  show "reply_typed (ascii ''MGET'') (Array (map (\<lambda>v. case v of Some v \<Rightarrow> bulk v | None \<Rightarrow> nil) vs))"
    if "length vs = length ks \<and> (\<forall>v. Some v \<in> List.set vs \<longrightarrow> length v \<le> MAX_VAL_LEN)" for vs
    using that assms(2) by (intro reply_typed.several) (auto simp: list_all_iff intro!: found_typed)
qed (use client_mget_safe [OF assms(1), of clk ks] in auto)

lemma sound_flush: "arena_wf a \<Longrightarrow> n \<in> {ascii ''FLUSH'', ascii ''FLUSHALL'', ascii ''FLUSHDB''} \<Longrightarrow>
  sound n (case client_flush a of (a', r) \<Rightarrow> (a', reply_or_err (\<lambda>_. ok) r))"
  by (auto simp: sound_def client_flush_def reply_or_err_def ok_def intro: wf_flush_all reply_typed.done_ok)

lemma dispatch_sound:
  assumes a: "arena_wf a" and n: "is_ascii (name cmd)" "0x0D \<notin> List.set (name cmd)"
    and args: "length (args cmd) < 2 ^ 63" "\<forall>x\<in>List.set (args cmd). length x < 2 ^ 63"
  shows "sound (name cmd) (dispatch uc lc clk cmd a)"
proof -
  have echo: "reply_typed (ascii ''PING'') (if args cmd = [] then pong else bulk (args cmd ! 0))"
    using args(2) by (cases "args cmd") (auto simp: pong_def bulk_def intro: reply_typed.ping reply_typed.echo)
  have wrong: "sound m (a, wrong_args lc c)" if "is_ascii c" "0x0D \<notin> List.set c" for m c
    by (rule sound_pure [OF a wrong_args_typed [OF that]])
  note [simp] = ascii_def
  show ?thesis
    unfolding dispatch_def Let_def incr_store_number decr_store_number
  proof (intro sound_if, goal_cases)
    case 1
    then show ?case using echo by (simp only: sound_pure [OF a])
  next
    case 3
    then show ?case by (simp only: sound_get [OF a])
  next
    case 5
    then show ?case by (simp only: sound_set [OF a])
  next
    case 7
    then show ?case by (simp only: sound_count del_count_safe [OF a] insert_iff simp_thms)
  next
    case 9
    then show ?case by (simp only: sound_count exists_count_safe [OF a] insert_iff simp_thms)
  next
    case 11
    then show ?case by (simp only: sound_mget [OF a args(1)])
  next
    case 13
    then show ?case by (simp only: sound_mset [OF a])
  next
    case 15
    then show ?case by (simp only: sound_number [OF a] insert_iff simp_thms)
  next
    case 17
    then show ?case by (simp only: sound_number [OF a] insert_iff simp_thms)
  next
    case 18
    have "reply_typed (ascii ''TTL'') (if length (args cmd) \<noteq> 1 then wrong_args lc (ascii ''TTL'') else integer (- 1))"
      by (auto simp: integer_def intro!: wrong_args_typed reply_typed.number)
    then show ?case by (simp only: 18 sound_pure [OF a])
  next
    case 19
    then show ?case by (intro sound_flush [OF a])
  next
    case 20
    then show ?case using info_text_bound by (simp only: sound_pure [OF a] bulk_def reply_typed.info)
  next
    case 21
    then show ?case by (simp only: sound_pure [OF a] reply_typed.commands)
  next
    case 22
    show ?case by (rule sound_pure [OF a unknown_command_typed [OF n]])
  qed (rule wrong; simp)+
qed

text \<open>The invariant alone needs nothing of the command.\<close>

lemma wf_if: "arena_wf (fst p) \<Longrightarrow> arena_wf (fst q) \<Longrightarrow> arena_wf (fst (if b then p else q))"
  by simp

lemma dispatch_wf: "arena_wf a \<Longrightarrow> arena_wf (fst (dispatch uc lc clk cmd a))"
  unfolding dispatch_def Let_def case_prod_beta client_mset_def client_flush_def incr_store_number decr_store_number
  by (intro wf_if) (simp_all add: client_get_safe(1) client_set_safe(1) del_count_safe
      exists_count_safe client_mget_safe mset_loop_safe store_number_safe wf_flush_all)

lemma dispatch_command_wf: "arena_wf a \<Longrightarrow> arena_wf (fst (dispatch_command uc lc clk val a))"
  by (simp add: dispatch_command_def dispatch_wf split: rresult.splits)

section \<open>Properties\<close>

text \<open>Requests as a client may send them: an ASCII command name without CR, sizes that a Rust vector can have.\<close>

definition plain_request :: "bytes list \<Rightarrow> bool" where
  "plain_request parts \<longleftrightarrow> parts \<noteq> [] \<and> is_ascii (hd parts) \<and> 0x0D \<notin> List.set (hd parts) \<and>
    length parts < 2 ^ 63 \<and> (\<forall>p\<in>List.set parts. length p < 2 ^ 63)"

lemma replies_sound:
  assumes "arena_wf a" "plain_request parts"
  shows "reply_typed (map upper_byte (hd parts)) (snd (dispatch_command uc lc clk (request parts) a))"
    "arena_wf (fst (dispatch_command uc lc clk (request parts) a))"
proof (atomize (full), cases parts)
  case (Cons n as)
  have "is_ascii (map upper_byte n)" "0x0D \<notin> List.set (map upper_byte n)"
    using assms(2) is_ascii_map(1) [of n] by (auto simp: plain_request_def Cons)
  with dispatch_sound [OF assms(1), of "\<lparr>name = map upper_byte n, args = as\<rparr>" uc lc clk] assms(2)
  show "reply_typed (map upper_byte (hd parts)) (snd (dispatch_command uc lc clk (request parts) a)) \<and>
    arena_wf (fst (dispatch_command uc lc clk (request parts) a))"
    by (simp add: plain_request_def Cons dispatch_request sound_def)
qed (use assms(2) in \<open>simp add: plain_request_def\<close>)

text \<open>
  C18: every command has a reply of its type.  Whatever the arguments and the contents of the arena, GET answers
  a bulk string, nil or an error, SET \<open>+OK\<close> or an error, the counting commands an integer or an
  error, and so on; the text of an error never breaks the line it is sent in; and the command
  leaves a well-formed arena.
\<close>

theorem replies_are_typed:
  assumes "arena_wf a" "plain_request parts"
  shows "reply_typed (map upper_byte (hd parts)) (snd (dispatch_command uc lc clk (request parts) a)) \<and>
    arena_wf (fst (dispatch_command uc lc clk (request parts) a))"
  using replies_sound [OF assms] by simp

theorem replies_are_typed_witness:
  "reply_typed (ascii ''GET'') (snd (dispatch_command id id (\<lambda>_. 9) (request [ascii ''get'', [1]]) (fresh_arena blank_arena)))"
  using replies_are_typed [OF wf_fresh_blank, of "[ascii ''get'', [1]]" id id "\<lambda>_. 9"]
  by (simp add: plain_request_def ascii_def upper_byte_def between_def)

lemma list_all2_right: "list_all2 P qs rs \<Longrightarrow> (\<And>q r. P q r \<Longrightarrow> Q r) \<Longrightarrow> list_all Q rs"
  by (induction rule: list_all2_induct) simp_all

lemma conversation_run:
  assumes "arena_wf (store c)" "list_all plain_request reqs"
  shows "\<exists>rs. sent (fold (execute env) (map request reqs) c) = sent c @ map encoding rs \<and>
    list_all2 (\<lambda>q r. reply_typed (map upper_byte (hd q)) r) reqs rs \<and>
    arena_wf (store (fold (execute env) (map request reqs) c))"
  using assms
proof (induction reqs arbitrary: c)
  case (Cons q reqs)
  let ?c = "execute env (request q) c"
  have q: "reply_typed (map upper_byte (hd q))
      (snd (dispatch_command (upper env) (lower env) (clock env (length (metrics c))) (request q) (store c)))"
    "arena_wf (store ?c)"
    using replies_sound [OF Cons.prems(1), of q] Cons.prems(2) by (simp_all add: execute_store)
  obtain rs where "sent (fold (execute env) (map request reqs) ?c) = sent ?c @ map encoding rs"
    "list_all2 (\<lambda>q r. reply_typed (map upper_byte (hd q)) r) reqs rs"
    "arena_wf (store (fold (execute env) (map request reqs) ?c))"
    using Cons.IH [OF q(2)] Cons.prems(2) by auto
  with q(1) show ?case
    by (intro exI [of _ "snd (dispatch_command (upper env) (lower env) (clock env (length (metrics c)))
        (request q) (store c)) # rs"]) (simp add: execute_store encode_to_vec)
qed simp



end
