(* ===== verification/Connections.thy ===== *)
theory Connections
  imports Replies
begin

text \<open>
  Many connections on one arena: \<open>run_server\<close> of \<open>src/server/mod.rs\<close>, which spawns a task per accepted
  socket, and \<open>handle_client\<close> as such a task, taken apart at its \<open>await\<close>s.  A step runs one task from
  where it waits to where it next waits or has parsed its next frame; the tasks take turns in any
  order.  A command runs within one step, as on the executor thread that polls its task; the finer
  interleaving of the map operations of several threads is in \<open>Concurrency\<close>.
\<close>

section \<open>A connection in steps\<close>

datatype task_end = Eof | IoFailed | TaskPanicked

text \<open>
  Where a task is: at \<open>socket.read\<close>, at the head of the inner loop with its offset, at the write of a
  reply with the offset after its frame, at the write of a protocol error, or returned.
\<close>

datatype task_pc = Reading | Parsing nat | Replying nat bytes | Rejecting bytes | Ended task_end

type_synonym task = "task_pc \<times> conn"

fun task_step :: "env \<Rightarrow> read \<Rightarrow> task \<Rightarrow> task" where
  "task_step env input (Reading, c) =
    (case input of
      ReadError \<Rightarrow> (Ended IoFailed, c)
    | Data bs \<Rightarrow> if bs = [] then (Ended Eof, c) else (Parsing 0, c\<lparr>pending := pending c @ bs\<rparr>))"
| "task_step env input (Parsing offset, c) =
    (case slice offset (length (pending c)) (pending c) of
      None \<Rightarrow> (Ended TaskPanicked, c)
    | Some rest \<Rightarrow> (case parse (alloc env) rest of
        Ok (Some (val, consumed)) \<Rightarrow>
          (case run_command env val c of (c1, response) \<Rightarrow> (Replying (offset + consumed) (encode_to_vec response), c1))
      | Ok None \<Rightarrow> (Reading, c\<lparr>pending := drop offset (pending c)\<rparr>)
      | Err e \<Rightarrow> (Rejecting (encode_to_vec (err (show_resp_error e))), c)
      | Panic \<Rightarrow> (Ended TaskPanicked, c)))"
| "task_step env input (Replying offset bs, c) =
    (case write_all env bs c of Inl c1 \<Rightarrow> (Ended IoFailed, c1) | Inr c1 \<Rightarrow> (Parsing offset, c1))"
| "task_step env input (Rejecting bs, c) =
    (case write_all env bs c of Inl c1 \<Rightarrow> (Ended IoFailed, c1) | Inr c1 \<Rightarrow> (Reading, c1\<lparr>pending := []\<rparr>))"
| "task_step env input (Ended e, c) = (Ended e, c)"

section \<open>The server\<close>

text \<open>
  The shared arena, the connections in the order of their acceptance, and whether the accept loop
  still runs: \<open>listener.accept().await?\<close> leaves it for good on the first error, while the spawned
  tasks go on.
\<close>

record server =
  shared :: arena
  tasks :: "(env \<times> task) list"
  accepting :: bool

datatype server_event = Accept env | AcceptError | Run nat read

definition server_start :: "arena \<Rightarrow> server" where
  "server_start a = \<lparr>shared = a, tasks = [], accepting = True\<rparr>"

text \<open>The task of connection \<open>i\<close> works on the shared arena as it finds it.\<close>

definition run_task :: "nat \<Rightarrow> read \<Rightarrow> server \<Rightarrow> server" where
  "run_task i input s =
    (if i < length (tasks s) then
      (case tasks s ! i of (env, pc, c) \<Rightarrow>
        (case task_step env input (pc, c\<lparr>store := shared s\<rparr>) of (pc', c') \<Rightarrow>
          s\<lparr>shared := store c', tasks := (tasks s)[i := (env, pc', c')]\<rparr>))
     else s)"

fun server_step :: "server_event \<Rightarrow> server \<Rightarrow> server" where
  "server_step (Accept env) s =
    (if accepting s then s\<lparr>tasks := tasks s @ [(env, Reading, connected (shared s))]\<rparr> else s)"
| "server_step AcceptError s = s\<lparr>accepting := False\<rparr>"
| "server_step (Run i input) s = run_task i input s"

abbreviation run_server :: "server_event list \<Rightarrow> server \<Rightarrow> server" where
  "run_server \<equiv> fold server_step"

section \<open>The steps are the handler\<close>

definition busy :: "task_pc \<Rightarrow> bool" where
  "busy pc \<longleftrightarrow> (case pc of Reading \<Rightarrow> False | Ended _ \<Rightarrow> False | _ \<Rightarrow> True)"

text \<open>Running a task until it waits for input, with a bound on the steps.\<close>

fun settle :: "env \<Rightarrow> nat \<Rightarrow> task \<Rightarrow> task" where
  "settle env 0 t = t"
| "settle env (Suc n) t = (if busy (fst t) then settle env n (task_step env ReadError t) else t)"

definition settled :: "outcome \<Rightarrow> task \<Rightarrow> bool" where
  "settled out t \<longleftrightarrow> (case out of
      Waiting c \<Rightarrow> t = (Reading, c)
    | Closed c \<Rightarrow> t = (Ended Eof, c)
    | IoError c \<Rightarrow> t = (Ended IoFailed, c)
    | Panicked \<Rightarrow> fst t = Ended TaskPanicked)"

lemma busy_simps [simp]: "busy (Parsing n)" "busy (Replying n bs)" "busy (Rejecting bs)"
  "\<not> busy Reading" "\<not> busy (Ended e)"
  by (simp_all add: busy_def)

lemma settle_idle [simp]: "\<not> busy (fst t) \<Longrightarrow> settle env n t = t"
  by (cases n) simp_all

text \<open>Every frame takes two steps and at least one byte.\<close>

lemma settle_serve_loop:
  assumes "2 * (length (pending c) - offset) + 2 \<le> n" "offset \<le> length (pending c)"
  shows "settled (serve_loop env offset c) (settle env n (Parsing offset, c))"
  using assms
proof (induction env offset c arbitrary: n rule: serve_loop.induct)
  case (1 env offset c)
  have rest: "slice offset (length (pending c)) (pending c) = Some (drop offset (pending c))"
    using 1(3) by (simp add: slice_def)
  obtain m where n: "n = Suc (Suc m)" using 1(2) by (cases n; cases "n - 1") auto
  show ?case
  proof (cases "parse (alloc env) (drop offset (pending c))")
    case (Ok r)
    show ?thesis
    proof (cases r)
      case None
      with Ok show ?thesis by (subst serve_loop.simps) (simp add: rest n settled_def)
    next
      case (Some p)
      obtain val consumed where p: "p = (val, consumed)" by fastforce
      note parsed = Ok [unfolded Some p]
      obtain c1 resp where c1: "run_command env val c = (c1, resp)" by fastforce
      show ?thesis
      proof (cases "write_all env (encode_to_vec resp) c1")
        case (Inl c2)
        then show ?thesis by (subst serve_loop.simps) (simp add: rest parsed c1 n settled_def)
      next
        case (Inr c2)
        have c2: "pending c2 = pending c"
          using pending_run_command [OF c1] pending_write_all [OF Inr] by simp
        have "offset + consumed \<le> length (pending c2)"
          using parse_bounds [OF parsed] 1(3) by (simp add: c2 le_diff_conv2)
        moreover from this have "2 * (length (pending c2) - (offset + consumed)) + 2 \<le> m"
          using parse_bounds [OF parsed] 1(2) n unfolding c2 by linarith
        ultimately have "settled (serve_loop env (offset + consumed) c2)
            (settle env m (Parsing (offset + consumed), c2))"
          by (intro 1(1) [OF rest parsed refl refl c1 [symmetric] Inr])
        then show ?thesis by (subst serve_loop.simps) (simp add: rest parsed c1 Inr n)
      qed
    qed
  next
    case (Err e)
    then show ?thesis
      by (subst serve_loop.simps) (auto simp: rest n settled_def split: sum.splits)
  next
    case Panic
    then show ?thesis by (subst serve_loop.simps) (simp add: rest n settled_def)
  qed
qed

text \<open>One read and the steps until the next.\<close>

definition react :: "env \<Rightarrow> read \<Rightarrow> task \<Rightarrow> task" where
  "react env input t =
    (let t' = task_step env input t in settle env (2 * length (pending (snd t')) + 2) t')"

lemma react_end [simp]:
  "react env ReadError (Reading, c) = (Ended IoFailed, c)" "react env (Data []) (Reading, c) = (Ended Eof, c)"
  by (simp_all add: react_def)

lemma fold_react_ended [simp]: "fold (react env) reads (Ended e, c) = (Ended e, c)"
  by (induction reads) (simp_all add: react_def)

lemma react_ended: "fst t = Ended e \<Longrightarrow> fst (fold (react env) reads t) = Ended e"
  by (cases t) simp


section \<open>One task among others\<close>

lemma length_server_step: "length (tasks s) \<le> length (tasks (server_step ev s))"
  by (cases ev) (simp_all add: run_task_def case_prod_beta)

lemma step_other:
  assumes "i < length (tasks s)" "\<forall>input. ev \<noteq> Run i input"
  shows "tasks (server_step ev s) ! i = tasks s ! i"
  using assms by (cases ev) (auto simp: run_task_def case_prod_beta nth_append)

lemma step_own:
  assumes "i < length (tasks s)" "tasks s ! i = (env, pc, c)"
  shows "tasks (server_step (Run i input) s) ! i = (env, task_step env input (pc, c\<lparr>store := shared s\<rparr>))"
    "shared (server_step (Run i input) s) = store (snd (task_step env input (pc, c\<lparr>store := shared s\<rparr>)))"
  using assms by (simp_all add: run_task_def case_prod_beta)

fun turns :: "nat \<Rightarrow> server_event list \<Rightarrow> nat" where
  "turns i [] = 0"
| "turns i (Run j input # evs) = (if j = i then Suc (turns i evs) else turns i evs)"
| "turns i (_ # evs) = turns i evs"

text \<open>
  What a task reaches whatever the other connections do in between: a goal at the foot of a ladder
  of numbered rungs, of which every turn of the task takes at least one, and which does not depend
  on the arena.
\<close>

locale ladder =
  fixes rung :: "env \<Rightarrow> nat \<Rightarrow> task \<Rightarrow> bool" and goal :: "env \<Rightarrow> task \<Rightarrow> bool"
  assumes rung_store: "rung env k (pc, c) \<Longrightarrow> rung env k (pc, c\<lparr>store := a\<rparr>)"
    and goal_store: "goal env (pc, c\<lparr>store := a\<rparr>) \<Longrightarrow> goal env (pc, c)"
    and foot: "rung env 0 t \<Longrightarrow> goal env t"
    and rung_step: "rung env (Suc k) t \<Longrightarrow> \<not> goal env t \<Longrightarrow> rung env k (task_step env input t)"
begin

lemma descends:
  assumes "i < length (tasks s)" "tasks s ! i = (env, t)" "rung env k t" "k \<le> turns i evs"
  shows "\<exists>pre post t'. evs = pre @ post \<and> tasks (run_server pre s) ! i = (env, t') \<and> goal env t'"
  using assms
proof (induction evs arbitrary: s k t)
  case Nil
  then have "goal env t" using foot [of env t] by simp
  with Nil(2) show ?case by (cases t) auto
next
  case (Cons ev evs)
  let ?s = "server_step ev s"
  have i: "i < length (tasks ?s)" using Cons.prems(1) length_server_step [of s ev] by simp
  obtain pc c where t: "t = (pc, c)" by fastforce
  show ?case
  proof (cases "goal env t")
    case True
    with Cons.prems(2) show ?thesis
      by (intro exI [of _ "[]"] exI [of _ "ev # evs"] exI [of _ t]) simp
  next
    case False
    have "\<exists>k' t'. tasks ?s ! i = (env, t') \<and> rung env k' t' \<and> k' \<le> turns i evs"
    proof (cases "\<exists>input. ev = Run i input")
      case True
      then obtain input where ev: "ev = Run i input" by blast
      obtain k' where k: "k = Suc k'" using False foot Cons.prems(3) by (cases k) auto
      let ?t = "task_step env input (pc, c\<lparr>store := shared s\<rparr>)"
      have "rung env k' ?t"
        using Cons.prems(3) False goal_store unfolding k t by (intro rung_step rung_store) auto
      then show ?thesis
        using step_own(1) [OF Cons.prems(1), of env pc c input] Cons.prems(2,4)
        by (auto simp: ev k t simp del: server_step.simps)
    next
      case False
      then have "turns i (ev # evs) = turns i evs" by (cases ev) auto
      then show ?thesis
        using step_other [OF Cons.prems(1), of ev] False Cons.prems(2-4) by auto
    qed
    then obtain k' t' where "tasks ?s ! i = (env, t')" "rung env k' t'" "k' \<le> turns i evs" by blast
    from Cons.IH [OF i this] obtain pre post t' where
      "evs = pre @ post" "tasks (run_server pre ?s) ! i = (env, t')" "goal env t'" by blast
    then show ?thesis by (intro exI [of _ "ev # pre"] exI [of _ post] exI [of _ t']) simp
  qed
qed

end

section \<open>Tasks wait again\<close>

definition in_range :: "task \<Rightarrow> bool" where
  "in_range t \<longleftrightarrow> (case fst t of Parsing offset \<Rightarrow> offset \<le> length (pending (snd t))
    | Replying offset bs \<Rightarrow> offset \<le> length (pending (snd t)) | _ \<Rightarrow> True)"

text \<open>A bound on the turns a task takes until it waits for input.\<close>

definition turns_left :: "task \<Rightarrow> nat" where
  "turns_left t = (case fst t of
      Parsing offset \<Rightarrow> 2 * (length (pending (snd t)) - offset) + 2
    | Replying offset bs \<Rightarrow> 2 * (length (pending (snd t)) - offset) + 3
    | Rejecting bs \<Rightarrow> 1
    | _ \<Rightarrow> 0)"

lemma in_range_step: "in_range t \<Longrightarrow> in_range (task_step env input t)"
proof (induction env input t rule: task_step.induct)
  case (2 env input offset c)
  then show ?case
    using parse_bounds [of "alloc env" "drop offset (pending c)"]
    by (auto simp: in_range_def slice_def case_prod_beta le_diff_conv2 pending_run_command [OF surjective_pairing]
        split: rresult.splits option.splits)
qed (auto simp: in_range_def pending_write_all split: read.splits sum.splits)

lemma turns_left_step:
  assumes "in_range t" "busy (fst t)"
  shows "turns_left (task_step env input t) < turns_left t"
  using assms
proof (induction env input t rule: task_step.induct)
  case (2 env input offset c)
  then show ?case
    using parse_bounds [of "alloc env" "drop offset (pending c)"]
    by (auto simp: in_range_def turns_left_def slice_def case_prod_beta pending_run_command [OF surjective_pairing]
        split: rresult.splits option.splits)
qed (auto simp: turns_left_def pending_write_all split: read.splits sum.splits)

interpretation yielding: ladder "\<lambda>_ k t. in_range t \<and> turns_left t \<le> k" "\<lambda>_ t. \<not> busy (fst t)"
proof unfold_locales
  show "\<not> busy (fst t)" if "in_range t \<and> turns_left t \<le> 0" for t
    using that by (auto simp: turns_left_def busy_def split: task_pc.splits)
  show "in_range (task_step env input t) \<and> turns_left (task_step env input t) \<le> k"
    if "in_range t \<and> turns_left t \<le> Suc k" "\<not> \<not> busy (fst t)" for env k t input
    using that in_range_step [of t env input] turns_left_step [of t env input] by simp
qed (auto simp: in_range_def turns_left_def split: task_pc.splits)

section \<open>The invariant of the server\<close>

definition task_fine :: "env \<Rightarrow> task \<Rightarrow> bool" where
  "task_fine env t \<longleftrightarrow> in_range t \<and> ((\<forall>n. alloc env n) \<longrightarrow> fst t \<noteq> Ended TaskPanicked)"

definition server_ok :: "server \<Rightarrow> bool" where
  "server_ok s \<longleftrightarrow> arena_wf (shared s) \<and> (\<forall>(env, t)\<in>List.set (tasks s). task_fine env t)"

lemma store_write_all: "write_all env bs c = Inl c' \<Longrightarrow> store c' = store c" "write_all env bs c = Inr c' \<Longrightarrow> store c' = store c"
  by (auto simp: write_all_def split: if_splits)

lemma wf_run_command: "arena_wf (store c) \<Longrightarrow> arena_wf (store (fst (run_command env val c)))"
  by (simp add: run_command_def case_prod_beta dispatch_command_wf)

lemma wf_task_step: "arena_wf (store (snd t)) \<Longrightarrow> arena_wf (store (snd (task_step env input t)))"
  by (induction env input t rule: task_step.induct)
    (auto simp: case_prod_beta wf_run_command store_write_all
      split: read.splits option.splits rresult.splits sum.splits)

lemma task_fine_step: "task_fine env t \<Longrightarrow> task_fine env (task_step env input t)"
  using in_range_step [of t env input]
proof (induction env input t rule: task_step.induct)
  case (2 env input offset c)
  then show ?case
    using parse_no_panic(1) [of "alloc env" "drop offset (pending c)"]
    by (auto simp: task_fine_def in_range_def slice_def case_prod_beta split: option.splits rresult.splits)
qed (auto simp: task_fine_def split: read.splits sum.splits)

lemma server_ok_step: "server_ok s \<Longrightarrow> server_ok (server_step ev s)"
proof (induction ev s rule: server_step.induct)
  case (3 i input s)
  show ?case
  proof (cases "i < length (tasks s)")
    case True
    obtain env pc c where t: "tasks s ! i = (env, pc, c)" by (cases "tasks s ! i") auto
    let ?t = "(pc, c\<lparr>store := shared s\<rparr>)"
    have "task_fine env (pc, c)" using 3 True t by (force simp: server_ok_def dest: nth_mem)
    then have "task_fine env (task_step env input ?t)"
      by (intro task_fine_step) (auto simp: task_fine_def in_range_def split: task_pc.splits)
    moreover have "arena_wf (store (snd (task_step env input ?t)))"
      using 3 by (intro wf_task_step) (simp add: server_ok_def)
    ultimately show ?thesis
      using 3 True t set_update_subset_insert [of "tasks s" i]
      by (auto simp: server_ok_def run_task_def case_prod_beta dest!: subsetD [OF set_update_subset_insert])
  qed (use 3 in \<open>simp add: run_task_def\<close>)
qed (auto simp: server_ok_def task_fine_def in_range_def)

lemma server_ok_run: "server_ok s \<Longrightarrow> server_ok (run_server evs s)"
  by (induction evs arbitrary: s) (simp_all add: server_ok_step)

lemma server_ok_start: "arena_wf a \<Longrightarrow> server_ok (server_start a)"
  by (simp add: server_ok_def server_start_def)

lemma task_in_range: "server_ok s \<Longrightarrow> i < length (tasks s) \<Longrightarrow> tasks s ! i = (env, t) \<Longrightarrow> in_range t"
  by (force simp: server_ok_def task_fine_def dest: nth_mem)





section \<open>Requests are answered\<close>

text \<open>
  The rungs of a task that works off complete frames before \<open>tail\<close>: two for each frame and one to
  find the rest incomplete; \<open>count\<close> replies will have been sent at the end.
\<close>

definition answered :: "bytes \<Rightarrow> nat \<Rightarrow> task \<Rightarrow> bool" where
  "answered tail count t \<longleftrightarrow> fst t = Reading \<and> pending (snd t) = tail \<and> length (sent (snd t)) = count"

definition unread :: "env \<Rightarrow> nat \<Rightarrow> conn \<Rightarrow> resp_value list \<Rightarrow> bytes \<Rightarrow> bool" where
  "unread env offset c vs tail \<longleftrightarrow> list_all (resp_ok (alloc env)) vs \<and> offset \<le> length (pending c) \<and>
    drop offset (pending c) = concat (map encoding vs) @ tail"

definition answering :: "bytes \<Rightarrow> nat \<Rightarrow> env \<Rightarrow> nat \<Rightarrow> task \<Rightarrow> bool" where
  "answering tail count env k t \<longleftrightarrow> write_ok env = (\<lambda>_. True) \<and> parse (alloc env) tail = Ok None \<and>
    (case fst t of
      Reading \<Rightarrow> answered tail count t
    | Parsing offset \<Rightarrow> (\<exists>vs. unread env offset (snd t) vs tail \<and> k = 2 * length vs + 1 \<and>
        length (sent (snd t)) + length vs = count)
    | Replying offset bs \<Rightarrow> (\<exists>vs. unread env offset (snd t) vs tail \<and> k = 2 * length vs + 2 \<and>
        length (sent (snd t)) + length vs + 1 = count)
    | _ \<Rightarrow> False)"

lemma slice_to_end: "offset \<le> length xs \<Longrightarrow> slice offset (length xs) xs = Some (drop offset xs)"
  by (simp add: slice_def)

lemma unread_step:
  assumes "unread env offset c (v # vs) tail"
  shows "slice offset (length (pending c)) (pending c) = Some (drop offset (pending c))"
    "parse (alloc env) (drop offset (pending c)) = Ok (Some (v, length (encoding v)))"
    "pending d = pending c \<Longrightarrow> unread env (offset + length (encoding v)) d vs tail"
proof -
  have "drop (offset + length (encoding v)) (pending c) = drop (length (encoding v)) (drop offset (pending c))"
    by (simp add: add.commute)
  also have "\<dots> = concat (map encoding vs) @ tail"
    using assms by (simp add: unread_def del: drop_drop)
  finally have "drop (offset + length (encoding v)) (pending c) = concat (map encoding vs) @ tail" .
  moreover have "length (encoding v) \<le> length (drop offset (pending c))"
    using assms by (simp add: unread_def del: length_drop)
  ultimately show "pending d = pending c \<Longrightarrow> unread env (offset + length (encoding v)) d vs tail"
    using assms by (simp add: unread_def le_diff_conv2)
qed (use assms in \<open>simp_all only: unread_def slice_to_end list.map concat.simps list.pred_inject append_assoc parse_encoding\<close>)

lemma sent_run_command [simp]: "sent (fst (run_command env v c)) = sent c"
  by (simp add: run_command_def case_prod_beta)

lemma answering_step:
  assumes "answering tail count env (Suc k) (pc, c)" "\<not> answered tail count (pc, c)"
  shows "answering tail count env k (task_step env input (pc, c))"
proof (cases pc)
  case (Parsing offset)
  with assms(1) obtain vs where vs: "unread env offset c vs tail" "Suc k = 2 * length vs + 1"
    "length (sent c) + length vs = count" "write_ok env = (\<lambda>_. True)" "parse (alloc env) tail = Ok None"
    by (auto simp: answering_def)
  show ?thesis
  proof (cases vs)
    case Nil
    with vs(1) have "slice offset (length (pending c)) (pending c) = Some tail"
      by (auto simp: unread_def slice_def)
    with vs Nil show ?thesis
      by (simp add: Parsing answering_def answered_def unread_def)
  next
    case (Cons v us)
    note step = unread_step [OF vs(1) [unfolded Cons]]
    have "unread env (offset + length (encoding v)) (fst (run_command env v c)) us tail"
      by (rule step(3)) (rule pending_run_command [OF surjective_pairing])
    with vs step(1,2) show ?thesis
      by (auto simp: Parsing answering_def case_prod_beta Cons intro!: exI [of _ us])
  qed
next
  case (Replying offset bs)
  with assms(1) show ?thesis by (auto simp: answering_def write_all_def unread_def)
qed (use assms in \<open>auto simp: answering_def\<close>)

interpretation answers: ladder "answering tail count" "\<lambda>_. answered tail count" for tail count
proof unfold_locales
  show "answering tail count env k (task_step env input t)"
    if "answering tail count env (Suc k) t" "\<not> answered tail count t" for env k t input
    using answering_step that by (cases t) simp
qed (auto simp: answering_def answered_def unread_def split: task_pc.splits)

text \<open>
  C9: every request is answered.  When complete requests have arrived on a connection whose writes
  succeed, the connection has sent a reply to each of them and waits for input with only the
  incomplete rest unread, at the latest after two of its own turns per request and one more,
  whatever the other connections and the accept loop do in between.
\<close>

theorem requests_are_answered:
  assumes "i < length (tasks s)" "tasks s ! i = (env, Reading, c)" "write_ok env = (\<lambda>_. True)"
    and "list_all (resp_ok (alloc env)) vs" "parse (alloc env) tail = Ok None"
    and "pending c @ bs = concat (map encode_to_vec vs) @ tail" "bs \<noteq> []"
    and "2 * length vs + 1 \<le> turns i evs"
  shows "\<exists>pre post c'. evs = pre @ post \<and>
    tasks (run_server (Run i (Data bs) # pre) s) ! i = (env, Reading, c') \<and>
    pending c' = tail \<and> length (sent c') = length (sent c) + length vs"
proof -
  let ?s = "server_step (Run i (Data bs)) s"
  have t: "tasks ?s ! i = (env, Parsing 0, c\<lparr>store := shared s, pending := pending c @ bs\<rparr>)"
    using step_own(1) [OF assms(1,2), of "Data bs"] assms(7) by simp
  have "answering tail (length (sent c) + length vs) env (2 * length vs + 1)
      (Parsing 0, c\<lparr>store := shared s, pending := pending c @ bs\<rparr>)"
    using assms(3-6) by (auto simp: answering_def unread_def encode_to_vec cong: map_cong)
  from answers.descends [OF _ t this assms(8)] assms(1) length_server_step [of s "Run i (Data bs)"]
  show ?thesis by (fastforce simp: answered_def simp del: server_step.simps)
qed

lemma turns_append [simp]: "turns i (xs @ ys) = turns i xs + turns i ys"
  by (induction i xs rule: turns.induct) simp_all

lemma turns_replicate [simp]: "turns i (replicate n (Run j input)) = (if j = i then n else 0)"
  by (induction n) auto

theorem requests_are_answered_witness:
  "\<exists>pre post c'. replicate 5 (Run 1 ReadError) @ replicate 3 (Run 0 ReadError) = pre @ post \<and>
    tasks (run_server (Run 0 (Data (encode_to_vec (request [ascii ''PING'']))) # pre)
      (run_server [Accept plain_env, Accept plain_env] (server_start blank_arena))) ! 0 = (plain_env, Reading, c') \<and>
    length (sent c') = 1"
proof -
  let ?s = "run_server [Accept plain_env, Accept plain_env] (server_start blank_arena)"
  have s: "tasks ?s ! 0 = (plain_env, Reading, connected blank_arena)" "0 < length (tasks ?s)"
    by (simp_all add: server_start_def)
  from requests_are_answered [OF s(2,1), of "[request [ascii ''PING'']]" "[]"
      "encode_to_vec (request [ascii ''PING''])" "replicate 5 (Run 1 ReadError) @ replicate 3 (Run 0 ReadError)"]
  show ?thesis
    by (auto simp: plain_env_def connected_def resp_ok_request parse.simps ascii_def encode_to_vec request_def
        simp del: server_step.simps)
qed

section \<open>Connections do not disturb each other\<close>

text \<open>
  A failing connection harms no other.  A step of one task leaves the tasks of all others as
  they are, and it changes the arena only when it executes a complete frame; in particular a
  malformed frame, a failed read or write, the end of a stream and a panic leave the arena alone.
\<close>

theorem failures_are_contained:
  fixes s :: server and input :: read
  assumes "i < length (tasks s)" "tasks s ! i = (env, pc, c)"
  defines "s' \<equiv> server_step (Run i input) s"
  shows "(\<forall>j. j \<noteq> i \<longrightarrow> tasks s' ! j = tasks s ! j) \<and> length (tasks s') = length (tasks s) \<and>
    accepting s' = accepting s \<and>
    (shared s' \<noteq> shared s \<longrightarrow> (\<exists>offset val n.
      pc = Parsing offset \<and> parse (alloc env) (drop offset (pending c)) = Ok (Some (val, n)) \<and>
      shared s' = fst (dispatch_command (upper env) (lower env) (clock env (length (metrics c))) val (shared s))))"
proof -
  let ?c = "c\<lparr>store := shared s\<rparr>"
  have "store (snd (task_step env input (pc, ?c))) = shared s \<or> (\<exists>offset val n.
      pc = Parsing offset \<and> parse (alloc env) (drop offset (pending c)) = Ok (Some (val, n)) \<and>
      store (snd (task_step env input (pc, ?c))) =
        fst (dispatch_command (upper env) (lower env) (clock env (length (metrics c))) val (shared s)))"
  proof (cases pc)
    case (Parsing offset)
    then show ?thesis
      by (auto simp: slice_def run_command_def case_prod_beta split: option.splits rresult.splits)
  qed (auto simp: store_write_all split: read.splits sum.splits)
  then show ?thesis
    using assms(1,2) by (auto simp: s'_def run_task_def case_prod_beta)
qed

theorem failures_are_contained_witness:
  "shared (server_step (Run 0 ReadError) (server_step (Accept plain_env) (server_start blank_arena))) = blank_arena"
  using failures_are_contained [of 0 "server_step (Accept plain_env) (server_start blank_arena)" plain_env Reading
      "connected blank_arena" ReadError]
  by (auto simp: server_start_def simp del: server_step.simps(3))

text \<open>
  One failed accept closes the server to new clients.  After it no connection is added any more,
  whatever happens, while the tasks of the accepted ones can still run.
\<close>

theorem accept_error_is_final:
  "length (tasks (run_server (before @ AcceptError # evs) s)) = length (tasks (run_server before s))"
proof -
  have "\<not> accepting t \<Longrightarrow> length (tasks (run_server evs t)) = length (tasks t)" for t
  proof (induction evs arbitrary: t)
    case (Cons ev evs)
    have "\<not> accepting (server_step ev t) \<and> length (tasks (server_step ev t)) = length (tasks t)"
      using Cons.prems by (cases ev) (auto simp: run_task_def case_prod_beta)
    with Cons.IH [of "server_step ev t"] show ?case by simp
  qed simp
  from this [of "server_step AcceptError (run_server before s)"] show ?thesis by simp
qed

end
