(* ===== verification/Dashboard.thy ===== *)
theory Dashboard
  imports WsBridge "HOL-Library.Sublist"
begin

text \<open>
  The tasks of \<open>src/server/ws_bridge.rs\<close> behind the aggregator: the task that publishes one snapshot
  per tick, the accept loop of the WebSocket server, and the handler of one dashboard.  What comes
  from other crates is an input: the JSON text of a snapshot (\<open>json\<close>), the welcome text, the branch
  that \<open>select!\<close> takes with the value it delivers, and whether a send on the socket succeeds.
\<close>

section \<open>The aggregator task\<close>

datatype agg_input = Received metric_event | ChannelClosed | IntervalTick u64 u64

text \<open>The messages the task publishes; the task ends when the channel is closed.\<close>

fun aggregator_task :: "(metrics_snapshot \<Rightarrow> bytes option) \<Rightarrow> agg_input list \<Rightarrow> aggregator \<Rightarrow> bytes list" where
  "aggregator_task json [] g = []"
| "aggregator_task json (Received e # inputs) g = aggregator_task json inputs (record_event e g)"
| "aggregator_task json (ChannelClosed # inputs) g = []"
| "aggregator_task json (IntervalTick used total_count # inputs) g =
    (case drain used total_count g of (g', snapshot) \<Rightarrow>
      (case json snapshot of Some m \<Rightarrow> [m] | None \<Rightarrow> []) @ aggregator_task json inputs g')"

section \<open>The accept loop\<close>

text \<open>
  Publications and the outcomes of \<open>accept\<close> in the order in which they happen.  A dashboard
  subscribes when it is accepted; a failed accept is logged and the loop goes on.  The result is,
  for each dashboard, what is published after it subscribed.
\<close>

datatype ws_event = Published bytes | Accepted | AcceptFailed

fun published :: "ws_event list \<Rightarrow> bytes list" where
  "published [] = []"
| "published (Published m # evs) = m # published evs"
| "published (_ # evs) = published evs"

fun ws_accept_loop :: "ws_event list \<Rightarrow> bytes list list" where
  "ws_accept_loop [] = []"
| "ws_accept_loop (Published m # evs) = ws_accept_loop evs"
| "ws_accept_loop (Accepted # evs) = published evs # ws_accept_loop evs"
| "ws_accept_loop (AcceptFailed # evs) = ws_accept_loop evs"

section \<open>One dashboard\<close>

datatype broadcast_result = Value bytes | Lagged nat | SendersGone

datatype ws_message = Text bytes | Ping bytes | Pong bytes | Close | OtherMessage

datatype incoming = Message ws_message | StreamError | StreamEnd

datatype selected = FromBridge broadcast_result | FromBrowser incoming

record ws_conn =
  attempts :: nat
  delivered :: "ws_message list"

datatype ws_outcome = Forwarding ws_conn | Disconnected ws_conn

text \<open>The \<open>n\<close>-th send on the socket delivers its message or fails.\<close>

definition ws_send :: "(nat \<Rightarrow> bool) \<Rightarrow> ws_message \<Rightarrow> ws_conn \<Rightarrow> ws_conn \<times> bool" where
  "ws_send send_ok m c =
    (if send_ok (attempts c) then (c\<lparr>attempts := Suc (attempts c), delivered := delivered c @ [m]\<rparr>, True)
     else (c\<lparr>attempts := Suc (attempts c)\<rparr>, False))"

text \<open>The loop of \<open>handle_ws_client\<close>, as long as \<open>select!\<close> delivers something.\<close>

fun ws_loop :: "(nat \<Rightarrow> bool) \<Rightarrow> selected list \<Rightarrow> ws_conn \<Rightarrow> ws_outcome" where
  "ws_loop send_ok [] c = Forwarding c"
| "ws_loop send_ok (FromBridge (Value m) # rest) c =
    (case ws_send send_ok (Text m) c of
      (c', True) \<Rightarrow> ws_loop send_ok rest c'
    | (c', False) \<Rightarrow> Disconnected c')"
| "ws_loop send_ok (FromBridge (Lagged n) # rest) c = ws_loop send_ok rest c"
| "ws_loop send_ok (FromBridge SendersGone # rest) c = Disconnected c"
| "ws_loop send_ok (FromBrowser (Message Close) # rest) c = Disconnected c"
| "ws_loop send_ok (FromBrowser StreamEnd # rest) c = Disconnected c"
| "ws_loop send_ok (FromBrowser (Message (Ping d)) # rest) c =
    ws_loop send_ok rest (fst (ws_send send_ok (Pong d) c))"
| "ws_loop send_ok (FromBrowser _ # rest) c = ws_loop send_ok rest c"

text \<open>The handshake, the welcome message, whose failure is ignored, and the loop.\<close>

definition handle_ws_client :: "(nat \<Rightarrow> bool) \<Rightarrow> bytes \<Rightarrow> bool \<Rightarrow> selected list \<Rightarrow> ws_outcome" where
  "handle_ws_client send_ok welcome handshake inputs =
    (if handshake
     then ws_loop send_ok inputs (fst (ws_send send_ok (Text welcome) \<lparr>attempts = 0, delivered = []\<rparr>))
     else Disconnected \<lparr>attempts = 0, delivered = []\<rparr>)"

section \<open>What the task publishes\<close>

text \<open>The windows: the events between two ticks, with the slot counts at the tick.\<close>

fun windows :: "metric_event list \<Rightarrow> agg_input list \<Rightarrow> (metric_event list \<times> u64 \<times> u64) list" where
  "windows es [] = []"
| "windows es (Received e # inputs) = windows (es @ [e]) inputs"
| "windows es (ChannelClosed # inputs) = []"
| "windows es (IntervalTick used total_count # inputs) = (es, used, total_count) # windows [] inputs"

definition window_snapshot :: "metric_event list \<times> u64 \<times> u64 \<Rightarrow> metrics_snapshot" where
  "window_snapshot w = (case w of (es, used, total_count) \<Rightarrow>
    snd (drain used total_count (fold record_event es aggregator_new)))"

lemma drain_resets: "fst (drain used total_count g) = aggregator_new"
  by (simp add: drain_def Let_def aggregator_new_def)

lemma aggregator_task_windows:
  "aggregator_task json inputs (fold record_event es aggregator_new) =
    List.map_filter (\<lambda>w. json (window_snapshot w)) (windows es inputs)"
proof (induction es inputs rule: windows.induct)
  case (2 es e inputs)
  then show ?case by simp
next
  case (4 es used total_count inputs)
  then show ?case
    by (simp add: map_filter_simps window_snapshot_def case_prod_beta drain_resets split: option.splits)
qed (simp_all add: map_filter_simps)

fun received :: "agg_input list \<Rightarrow> metric_event list" where
  "received [] = []"
| "received (Received e # inputs) = e # received inputs"
| "received (_ # inputs) = received inputs"

text \<open>The windows are consecutive pieces of the events received.\<close>

lemma windows_prefix: "prefix (concat (map fst (windows es inputs))) (es @ received inputs)"
proof (induction es inputs rule: windows.induct)
  case (4 es used total_count inputs)
  then show ?case by simp
qed (simp_all add: prefix_def)

section \<open>What a dashboard receives\<close>

text \<open>
  The contract of the broadcast channel, which the hypotheses below name: a receiver gets the
  messages sent after it subscribed in their order; when it is too slow the oldest are dropped and
  their number reported; the end is reported after the last message.
\<close>

fun broadcast_delivers :: "bytes list \<Rightarrow> broadcast_result list \<Rightarrow> bool" where
  "broadcast_delivers msgs [] \<longleftrightarrow> True"
| "broadcast_delivers msgs (Value m # rs) \<longleftrightarrow> (\<exists>msgs'. msgs = m # msgs' \<and> broadcast_delivers msgs' rs)"
| "broadcast_delivers msgs (Lagged n # rs) \<longleftrightarrow> n \<le> length msgs \<and> broadcast_delivers (drop n msgs) rs"
| "broadcast_delivers msgs (SendersGone # rs) \<longleftrightarrow> msgs = [] \<and> rs = []"

fun bridge_results :: "selected list \<Rightarrow> broadcast_result list" where
  "bridge_results [] = []"
| "bridge_results (FromBridge r # inputs) = r # bridge_results inputs"
| "bridge_results (FromBrowser _ # inputs) = bridge_results inputs"

fun lag :: "broadcast_result list \<Rightarrow> nat" where
  "lag [] = 0"
| "lag (Lagged n # rs) = n + lag rs"
| "lag (_ # rs) = lag rs"

fun arrived :: "broadcast_result list \<Rightarrow> bytes list" where
  "arrived [] = []"
| "arrived (Value m # rs) = m # arrived rs"
| "arrived (_ # rs) = arrived rs"

fun texts :: "ws_message list \<Rightarrow> bytes list" where
  "texts [] = []"
| "texts (Text m # ms) = m # texts ms"
| "texts (_ # ms) = texts ms"

fun pongs :: "ws_message list \<Rightarrow> bytes list" where
  "pongs [] = []"
| "pongs (Pong d # ms) = d # pongs ms"
| "pongs (_ # ms) = pongs ms"

fun pings :: "selected list \<Rightarrow> bytes list" where
  "pings [] = []"
| "pings (FromBrowser (Message (Ping d)) # inputs) = d # pings inputs"
| "pings (_ # inputs) = pings inputs"

definition stops :: "selected \<Rightarrow> bool" where
  "stops i \<longleftrightarrow> i \<in> {FromBridge SendersGone, FromBrowser (Message Close), FromBrowser StreamEnd}"

lemma texts_append [simp]: "texts (xs @ ys) = texts xs @ texts ys"
  by (induction xs rule: texts.induct) simp_all

lemma pongs_append [simp]: "pongs (xs @ ys) = pongs xs @ pongs ys"
  by (induction xs rule: pongs.induct) simp_all

lemma ws_send_ok: "send_ok = (\<lambda>_. True) \<Longrightarrow>
  ws_send send_ok m c = (\<lparr>attempts = Suc (attempts c), delivered = delivered c @ [m]\<rparr>, True)"
  by (simp add: ws_send_def)

lemma ws_loop_forwards:
  assumes "send_ok = (\<lambda>_. True)" "\<forall>i\<in>List.set inputs. \<not> stops i"
  shows "\<exists>c'. ws_loop send_ok inputs c = Forwarding c' \<and>
    texts (delivered c') = texts (delivered c) @ arrived (bridge_results inputs) \<and>
    pongs (delivered c') = pongs (delivered c) @ pings inputs"
  using assms
  by (induction send_ok inputs c rule: ws_loop.induct) (auto simp: stops_def ws_send_ok)

lemma broadcast_arrived:
  "broadcast_delivers msgs rs \<Longrightarrow> subseq (arrived rs) msgs \<and> length (arrived rs) + lag rs \<le> length msgs \<and>
    (lag rs = 0 \<longrightarrow> prefix (arrived rs) msgs)"
proof (induction msgs rs rule: broadcast_delivers.induct)
  case (3 msgs n rs)
  then have "subseq (arrived rs) (drop n msgs)" by simp
  then have "subseq (arrived rs) (take n msgs @ drop n msgs)"
    by (rule list_emb_append2)
  with 3 show ?case by auto
qed auto

lemma accept_suffix: "since \<in> List.set (ws_accept_loop evs) \<Longrightarrow> suffix since (published evs)"
  by (induction evs rule: ws_accept_loop.induct) (auto intro: suffix_ConsI)

section \<open>Properties\<close>

text \<open>
  C30: what a dashboard shows.  While the browser neither closes nor breaks the connection and sends
  succeed, it gets the welcome, then JSON texts of the windows published since it connected: in
  order, none twice, and none missing unless the broadcast channel reports them as skipped; every
  ping is answered by a pong with its data, in order.  The windows themselves are consecutive
  pieces of the events the aggregator received.
\<close>

theorem dashboard_sees_windows:
  assumes "send_ok = (\<lambda>_. True)" "\<forall>i\<in>List.set inputs. \<not> stops i"
    and "published evs = aggregator_task json agg_inputs aggregator_new" "since \<in> List.set (ws_accept_loop evs)"
    and "broadcast_delivers since (bridge_results inputs)"
  shows "\<exists>c ms. handle_ws_client send_ok welcome True inputs = Forwarding c \<and>
    texts (delivered c) = welcome # ms \<and> pongs (delivered c) = pings inputs \<and>
    subseq ms (List.map_filter (\<lambda>w. json (window_snapshot w)) (windows [] agg_inputs)) \<and>
    length ms + lag (bridge_results inputs) \<le> length since \<and>
    (lag (bridge_results inputs) = 0 \<longrightarrow> prefix ms since) \<and>
    prefix (concat (map fst (windows [] agg_inputs))) (received agg_inputs)"
proof -
  obtain c where c: "handle_ws_client send_ok welcome True inputs = Forwarding c"
    "texts (delivered c) = welcome # arrived (bridge_results inputs)" "pongs (delivered c) = pings inputs"
    using ws_loop_forwards [OF assms(1,2), of "\<lparr>attempts = Suc 0, delivered = [Text welcome]\<rparr>"]
    by (auto simp: handle_ws_client_def ws_send_ok [OF assms(1)])
  obtain before where "List.map_filter (\<lambda>w. json (window_snapshot w)) (windows [] agg_inputs) = before @ since"
    using aggregator_task_windows [of json agg_inputs "[]"] accept_suffix [OF assms(4)] assms(3)
    by (auto simp: suffix_def)
  moreover note broadcast_arrived [OF assms(5)]
  ultimately show ?thesis
    using c windows_prefix [of "[]" agg_inputs] by (auto intro: list_emb_append2)
qed

theorem dashboard_sees_windows_witness:
  "\<exists>c ms. handle_ws_client (\<lambda>_. True) [1] True [FromBridge (Lagged 1), FromBrowser (Message (Ping [7])),
      FromBridge (Value [2])] = Forwarding c \<and> texts (delivered c) = [1] # ms \<and> pongs (delivered c) = [[7]] \<and> length ms \<le> 1"
proof -
  let ?json = "\<lambda>s. Some [of_nat (unat (ops_per_sec s))]"
  let ?evs = "[IntervalTick 0 8, Received \<lparr>op = [9], latency_us = 4\<rparr>, Received \<lparr>op = [9], latency_us = 5\<rparr>,
    IntervalTick 1 8]"
  have "published [Accepted, AcceptFailed, Published [0], Published [2]] = aggregator_task ?json ?evs aggregator_new"
    by (simp add: drain_def Let_def record_event_def aggregator_new_def)
  from dashboard_sees_windows [OF refl _ this, of
      "[FromBridge (Lagged 1), FromBrowser (Message (Ping [7])), FromBridge (Value [2])]" "[[0], [2]]" "[1]"]
  show ?thesis by (auto simp: stops_def simp del: ws_loop.simps)
qed

text \<open>
  When a dashboard goes away its task ends.  The end of the broadcast, a close frame, the end of the stream
  and a snapshot that cannot be sent end the loop at once, whatever else is waiting; a lost pong,
  an unreadable frame and a lag report do not.
\<close>

theorem dashboard_disconnects:
  assumes "ws_loop send_ok pre c = Forwarding d"
  shows "(stops i \<longrightarrow> ws_loop send_ok (pre @ i # post) c = Disconnected d) \<and>
    (\<not> send_ok (attempts d) \<longrightarrow> ws_loop send_ok (pre @ FromBridge (Value m) # post) c =
      Disconnected (d\<lparr>attempts := Suc (attempts d)\<rparr>)) \<and>
    (\<not> send_ok (attempts d) \<longrightarrow> ws_loop send_ok (pre @ [FromBrowser (Message (Ping m))]) c =
      Forwarding (d\<lparr>attempts := Suc (attempts d)\<rparr>)) \<and>
    ws_loop send_ok (pre @ [FromBrowser StreamError, FromBridge (Lagged n)]) c = Forwarding d"
proof -
  have "ws_loop send_ok (pre @ rest) c = ws_loop send_ok rest d" for rest
    using assms
    by (induction send_ok pre c rule: ws_loop.induct) (simp_all split: prod.splits bool.splits)
  then show ?thesis by (auto simp: stops_def ws_send_def)
qed

theorem dashboard_disconnects_witness:
  "ws_loop (\<lambda>n. n = 0) [FromBridge (Value [1]), FromBridge (Value [2]), FromBridge (Value [3])]
    \<lparr>attempts = 0, delivered = []\<rparr> = Disconnected \<lparr>attempts = 2, delivered = [Text [1]]\<rparr>"
  using dashboard_disconnects [of "\<lambda>n. n = 0" "[FromBridge (Value [1])]" "\<lparr>attempts = 0, delivered = []\<rparr>"
      "\<lparr>attempts = 1, delivered = [Text [1]]\<rparr>"]
  by (simp add: ws_send_def del: ws_loop.simps(2)) (simp add: ws_send_def)

end
