(* ===== verification/System.thy ===== *)
theory System
  imports Connections Dashboard
begin

text \<open>
  \<open>start_all\<close> of \<open>src/server/ws_bridge.rs\<close>: the TCP server and the metrics bridge started together
  around one client.  The connection tasks send an event per command into the metrics channel, the
  aggregator task receives them, and at every tick it publishes a snapshot with the slot counts
  that \<open>slots_fn\<close> reads from the shared arena.
\<close>

section \<open>The process\<close>

text \<open>\<open>dropped\<close> counts the calls of \<open>try_send\<close> that failed; the code ignores their result.\<close>

record system =
  srv :: server
  brg :: bridge
  dropped :: nat

datatype system_event = Serve server_event | Collect | Publish

definition slots_fn :: "arena \<Rightarrow> u64 \<times> u64" where
  "slots_fn a = (client_used_count a, of_nat (client_capacity a))"

definition start_all :: "arena \<Rightarrow> system" where
  "start_all a = \<lparr>srv = server_start a, brg = bridge_start, dropped = 0\<rparr>"

definition send_metric :: "metric_event \<Rightarrow> system \<Rightarrow> system" where
  "send_metric e s = (case try_send e (queue (brg s)) of (q, taken) \<Rightarrow>
    s\<lparr>brg := (brg s)\<lparr>queue := q\<rparr>, dropped := (if taken then dropped s else Suc (dropped s))\<rparr>)"

definition metrics_of :: "nat \<Rightarrow> server \<Rightarrow> metric_event list" where
  "metrics_of i s = (if i < length (tasks s) then metrics (snd (snd (tasks s ! i))) else [])"

text \<open>The events that a step of the server adds.\<close>

definition new_metrics :: "server_event \<Rightarrow> server \<Rightarrow> metric_event list" where
  "new_metrics ev s = (case ev of
      Run i input \<Rightarrow> drop (length (metrics_of i s)) (metrics_of i (server_step ev s))
    | _ \<Rightarrow> [])"

text \<open>
  A turn of a connection or of the accept loop, the aggregator receiving an event when there is one,
  and a tick of its interval.
\<close>

fun system_step :: "system_event \<Rightarrow> system \<Rightarrow> system" where
  "system_step (Serve ev) s = fold send_metric (new_metrics ev (srv s)) (s\<lparr>srv := server_step ev (srv s)\<rparr>)"
| "system_step Collect s = (case queue (brg s) of
      [] \<Rightarrow> s
    | e # q \<Rightarrow> s\<lparr>brg := (brg s)\<lparr>queue := q, agg := record_event e (agg (brg s))\<rparr>\<rparr>)"
| "system_step Publish s = (case slots_fn (shared (srv s)) of (used, capacity) \<Rightarrow>
    (case drain used capacity (agg (brg s)) of (g, snapshot) \<Rightarrow>
      s\<lparr>brg := (brg s)\<lparr>agg := g, snapshots := snapshots (brg s) @ [snapshot]\<rparr>\<rparr>))"

section \<open>Counting commands\<close>

definition commands_run :: "server \<Rightarrow> nat" where
  "commands_run s = sum_list (map (\<lambda>(env, pc, c). length (metrics c)) (tasks s))"

lemma metrics_write_all: "write_all env bs c = Inl c' \<Longrightarrow> metrics c' = metrics c" "write_all env bs c = Inr c' \<Longrightarrow> metrics c' = metrics c"
  by (auto simp: write_all_def split: if_splits)

lemma metrics_run_command: "prefix (metrics c) (metrics (fst (run_command env v c)))"
  by (simp add: run_command_def case_prod_beta)

lemma metrics_task_step: "prefix (metrics (snd t)) (metrics (snd (task_step env input t)))"
  by (induction env input t rule: task_step.induct)
    (auto simp: case_prod_beta metrics_write_all metrics_run_command
      split: read.splits option.splits rresult.splits sum.splits)

lemma length_prefix_drop: "prefix xs ys \<Longrightarrow> length ys = length xs + length (drop (length xs) ys)"
  by (simp add: prefix_length_le)

lemma commands_run_step: "commands_run (server_step ev s) = commands_run s + length (new_metrics ev s)"
proof (cases "\<exists>i input. ev = Run i input \<and> i < length (tasks s)")
  case True
  then obtain i input where ev: "ev = Run i input" "i < length (tasks s)" by blast
  obtain env pc c where t: "tasks s ! i = (env, pc, c)" by (cases "tasks s ! i") auto
  let ?t = "task_step env input (pc, c\<lparr>store := shared s\<rparr>)" and ?f = "\<lambda>(env, pc, c). length (metrics c)"
  have tasks: "tasks (server_step ev s) = (tasks s)[i := (env, ?t)]"
    using ev t by (simp add: run_task_def case_prod_beta)
  have new: "new_metrics ev s = drop (length (metrics c)) (metrics (snd ?t))"
    using ev t tasks by (simp add: new_metrics_def metrics_of_def del: server_step.simps)
  have "length (metrics (snd ?t)) = length (metrics c) + length (new_metrics ev s)"
    unfolding new using length_prefix_drop [OF metrics_task_step [of "(pc, c\<lparr>store := shared s\<rparr>)" env input]] by simp
  moreover have "map ?f (tasks s) ! i \<le> sum_list (map ?f (tasks s))"
    using ev by (intro elem_le_sum_list) simp
  ultimately show ?thesis
    using ev t sum_list_update [of i "map ?f (tasks s)" "length (metrics (snd ?t))"]
    unfolding commands_run_def tasks map_update by (simp add: case_prod_beta [where p = ?t])
next
  case False
  then show ?thesis
    by (cases ev) (auto simp: commands_run_def new_metrics_def run_task_def metrics_of_def connected_def)
qed

definition accounted :: "nat \<Rightarrow> system \<Rightarrow> bool" where
  "accounted n s \<longleftrightarrow> (\<exists>m. conserved m (brg s) \<and> m + dropped s = n)"

lemma accounted_send: "accounted n s \<Longrightarrow> accounted (Suc n) (send_metric e s)"
proof -
  assume "accounted n s"
  then obtain m where m: "conserved m (brg s)" "m + dropped s = n" by (auto simp: accounted_def)
  obtain q taken where send: "try_send e (queue (brg s)) = (q, taken)" by fastforce
  from conserved_step [OF bridge_step.emit [OF send] m(1)] m(2) show ?thesis
    by (cases taken) (fastforce simp: accounted_def send_metric_def send)+
qed

lemma accounted_sends: "accounted n s \<Longrightarrow> accounted (n + length es) (fold send_metric es s)"
proof (induction es arbitrary: n s)
  case (Cons e es)
  from Cons.IH [OF accounted_send [OF Cons.prems]] show ?case by simp
qed simp

lemma srv_sends [simp]: "srv (fold send_metric es s) = srv s"
  by (induction es arbitrary: s) (simp_all add: send_metric_def case_prod_beta)

lemma accounted_step:
  assumes "accounted (commands_run (srv s)) s"
  shows "accounted (commands_run (srv (system_step ev s))) (system_step ev s)"
proof (cases ev)
  case (Serve sev)
  have "accounted (commands_run (srv s)) (s\<lparr>srv := server_step sev (srv s)\<rparr>)"
    using assms by (simp add: accounted_def)
  from accounted_sends [OF this] show ?thesis by (simp add: Serve commands_run_step)
next
  case Collect
  show ?thesis
  proof (cases "queue (brg s)")
    case (Cons e q)
    from assms obtain m where "conserved m (brg s)" "m + dropped s = commands_run (srv s)"
      by (auto simp: accounted_def)
    with conserved_step [OF bridge_step.recv [OF Cons]] show ?thesis
      by (auto simp: Collect Cons accounted_def)
  qed (use assms in \<open>simp add: Collect\<close>)
next
  case Publish
  obtain used capacity where slots: "slots_fn (shared (srv s)) = (used, capacity)" by fastforce
  obtain g snapshot where drain: "drain used capacity (agg (brg s)) = (g, snapshot)" by fastforce
  from assms obtain m where "conserved m (brg s)" "m + dropped s = commands_run (srv s)"
    by (auto simp: accounted_def)
  with conserved_step [OF bridge_step.tick [OF drain]] show ?thesis
    by (auto simp: Publish slots drain accounted_def)
qed


end
