(* ===== verification/KeySpace.thy ===== *)
theory KeySpace
  imports Client
begin

text \<open>
  Clients whose keys are known beforehand: with fewer keys than slots every SET has room, and without
  two keys of one hash the arena stands for a map on which every operation of the client has the
  effect and the answer that the map gives.  The locale \<open>key_space\<close> is the first half, the locale
  \<open>script\<close> both, for a part of the keys.
\<close>

section \<open>Room by counting\<close>

definition known_state :: "u8 \<Rightarrow> bool" where
  "known_state st \<longleftrightarrow> st \<in> {STATE_EMPTY, STATE_TOMBSTONE, STATE_OCCUPIED}"

lemma known_states [simp]: "known_state STATE_EMPTY" "known_state STATE_TOMBSTONE" "known_state STATE_OCCUPIED"
  by (simp_all add: known_state_def)

definition states_ok :: "arena \<Rightarrow> bool" where
  "states_ok a \<longleftrightarrow> (\<forall>i<SLOT_COUNT. known_state (state (slot a i)))"

text \<open>An arena with fewer keys than slots has room.\<close>

lemma room_by_counting:
  assumes "arena_wf a" "states_ok a" "dom (entry a) \<subseteq> K" "finite K" "card K < SLOT_COUNT"
  shows "has_room a"
proof (rule ccontr)
  assume "\<not> has_room a"
  with assms(2) have held: "holds a i (read_key (slot a i))" if "i < SLOT_COUNT" for i
    using that by (intro holds_occupied) (auto simp: has_room_def states_ok_def known_state_def)
  have "i = j" if "i < SLOT_COUNT" "j < SLOT_COUNT" "read_key (slot a i) = read_key (slot a j)" for i j
    using wf_unique [OF assms(1) held [OF that(1)], of j] held [OF that(2)] that(3) by simp
  then have "inj_on (\<lambda>i. read_key (slot a i)) {..<SLOT_COUNT}" by (intro inj_onI) simp
  moreover have "read_key (slot a i) \<in> K" if "i < SLOT_COUNT" for i
    using entry_holds [OF assms(1) held [OF that]] assms(3) by (auto simp: domIff)
  then have "(\<lambda>i. read_key (slot a i)) ` {..<SLOT_COUNT} \<subseteq> K" by auto
  ultimately have "card {..<SLOT_COUNT} \<le> card K" by (rule card_inj_on_le [OF _ _ assms(4)])
  then show False using assms(5) by simp
qed

lemma states_ok_bury: "states_ok a \<Longrightarrow> states_ok (bury i a)"
  by (auto simp: states_ok_def arena_simps)

lemma states_ok_get: "arena_wf a \<Longrightarrow> states_ok a \<Longrightarrow> states_ok (fst (hashmap_get now key a))"
  by (cases "hashmap_get now key a", rule hashmap_get_cases [of a now key]) (auto intro: states_ok_bury)

lemma states_ok_del: "arena_wf a \<Longrightarrow> states_ok a \<Longrightarrow> states_ok (fst (hashmap_del key a))"
  by (rule hashmap_del_cases [of a key]) (auto simp: states_ok_def arena_simps)

lemma states_ok_set:
  assumes "arena_wf a" "states_ok a" "length key \<le> MAX_KEY_LEN"
  shows "states_ok (fst (hashmap_set now key val ttl a))"
proof (cases "hashmap_set now key val ttl a")
  case (Pair a' r)
  obtain b where b: "evicts now (siphash key) a b" "set_done key val (ttl_to_expiry now ttl) now b a' r"
    using hashmap_set_done [OF assms(1,3) Pair] by blast
  have from_a: "state (slot b i) = state (slot a i) \<or> state (slot b i) = STATE_TOMBSTONE" for i
    using b(1) unfolding evicts_def by (cases "slot b i = slot a i") auto
  have "known_state (state (slot b i))" if "i < SLOT_COUNT" for i
    using assms(2) from_a [of i] that by (auto simp: states_ok_def)
  then have "states_ok b" by (simp add: states_ok_def)
  with b(2) show ?thesis
    by (auto simp: Pair set_done_def states_ok_def arena_simps slot_simps split: set_result.splits)
qed

section \<open>Operations that cannot fail\<close>

text \<open>Arenas whose keys are from a set smaller than the slot array: there every SET has room.\<close>

locale key_space =
  fixes K :: "bytes set"
  assumes finite_keys: "finite K" and few_keys: "card K < SLOT_COUNT"
    and short_keys: "k \<in> K \<Longrightarrow> length k \<le> MAX_KEY_LEN"
begin

definition fits :: "arena \<Rightarrow> bool" where
  "fits a \<longleftrightarrow> arena_wf a \<and> states_ok a \<and> dom (entry a) \<subseteq> K"

lemma fits_get:
  assumes "fits a" "k \<in> K"
  shows "\<exists>x. client_get now k a = (fst (hashmap_get now k a), Ok x)" "fits (fst (hashmap_get now k a))"
proof -
  have wf: "arena_wf a" using assms(1) by (simp add: fits_def)
  show "\<exists>x. client_get now k a = (fst (hashmap_get now k a), Ok x)"
    using short_keys [OF assms(2)] by (auto simp: client_get_def case_prod_beta split: get_result.splits)
  have "entry a k' \<noteq> None" if "entry (bury i a) k' \<noteq> None" for i k'
    using that unfolding entry_None_iff by (auto simp: holds_bury)
  then have bury: "dom (entry (bury i a)) \<subseteq> dom (entry a)" for i by (meson domIff subsetI)
  have "dom (entry (fst (hashmap_get now k a))) \<subseteq> dom (entry a)"
  proof (cases "hashmap_get now k a")
    case (Pair a' r)
    from hashmap_get_cases [OF wf Pair] bury show ?thesis by cases (simp_all add: Pair)
  qed
  with assms(1) wf_hashmap_get [OF wf] states_ok_get [OF wf] show "fits (fst (hashmap_get now k a))"
    unfolding fits_def by blast
qed

lemma fits_set:
  assumes "fits a" "k \<in> K" "length v \<le> MAX_VAL_LEN"
  shows "\<exists>x. client_set now k v ttl a = (fst (hashmap_set now k v ttl a), Ok x)" "fits (fst (hashmap_set now k v ttl a))"
    "snd (hashmap_set now k v ttl a) \<noteq> Full"
proof -
  have wf: "arena_wf a" using assms(1) by (simp add: fits_def)
  note len = short_keys [OF assms(2)]
  have "has_room a"
    using assms(1) by (intro room_by_counting [OF wf _ _ finite_keys few_keys]) (simp_all add: fits_def)
  then show room: "snd (hashmap_set now k v ttl a) \<noteq> Full" by (rule set_room [OF wf len])
  with len assms(3) show "\<exists>x. client_set now k v ttl a = (fst (hashmap_set now k v ttl a), Ok x)"
    by (auto simp: client_set_def case_prod_beta split: set_result.splits)
  have "dom (entry (fst (hashmap_set now k v ttl a))) \<subseteq> insert k (dom (entry a))"
  proof (cases "hashmap_set now k v ttl a")
    case (Pair a' r)
    obtain b where b: "evicts now (siphash k) a b" "arena_wf b" "set_done k v (ttl_to_expiry now ttl) now b a' r"
      using hashmap_set_done [OF wf len Pair] by blast
    have "entry b k' \<noteq> None \<Longrightarrow> entry a k' \<noteq> None" for k'
      using evicts_entry [OF wf b(2,1), of k'] by auto
    with set_done_entry [OF b(2,3)] room show ?thesis by (auto simp: Pair)
  qed
  with assms(1,2) wf_hashmap_set [OF wf len] states_ok_set [OF wf _ len] show "fits (fst (hashmap_set now k v ttl a))"
    unfolding fits_def by blast
qed

lemma fits_del:
  assumes "fits a" "k \<in> K"
  shows "fits (fst (hashmap_del k a))"
  using assms wf_hashmap_del [of a k] states_ok_del [of a k] hashmap_del_spec(2) [of a k]
  by (auto simp: fits_def)

text \<open>
  Entries without expiry are kept whatever the clock shows, and then keys with equal hashes do not
  disturb each other: \<open>get\<close> tells them apart, and only an expired entry makes it stop too early.
\<close>

definition kept :: "arena \<Rightarrow> kv_map \<Rightarrow> bool" where
  "kept a m \<longleftrightarrow> fits a \<and> entry a = m \<and> (\<forall>k v e. m k = Some (v, e) \<longrightarrow> e = 0)"

lemma kept_wf: "kept a m \<Longrightarrow> arena_wf a"
  by (simp add: kept_def fits_def)

lemma kept_fits: "kept a m \<Longrightarrow> fits a"
  by (simp add: kept_def)

lemma kept_entry: "kept a m \<Longrightarrow> entry a k = Some (v, e) \<Longrightarrow> e = 0"
  unfolding kept_def by blast

lemma kept_not_expired: "kept a m \<Longrightarrow> holds a i k \<Longrightarrow> \<not> is_expired now (slot a i)"
  using kept_entry [of a m k] entry_holds [OF kept_wf, of a m i k] by (simp add: is_expired_iff)

lemma kept_hashmap_get:
  assumes "kept a m"
  shows "hashmap_get now k a = (a, case m k of Some (v, e) \<Rightarrow> Found v | None \<Rightarrow> NotFound)"
proof (cases "hashmap_get now k a")
  case (Pair a' r)
  have m: "entry a = m" using assms by (simp add: kept_def)
  show ?thesis
  proof (cases rule: hashmap_get_cases [OF kept_wf [OF assms] Pair, case_names absent expired found])
    case absent
    then have "entry a k = None" by (simp add: entry_None_iff)
    with absent m show ?thesis by (simp add: Pair)
  next
    case (expired i)
    with kept_not_expired [OF assms] show ?thesis by blast
  next
    case (found i)
    with entry_holds [OF kept_wf [OF assms] found(3)] m show ?thesis by (auto simp: Pair)
  qed
qed

lemma kept_get:
  assumes "kept a m" "k \<in> K"
  shows "client_get now k a = (a, Ok (map_option fst (m k)))"
  using short_keys [OF assms(2)] by (simp add: client_get_def kept_hashmap_get [OF assms(1)] split: option.splits)

lemma kept_set:
  assumes "kept a m" "k \<in> K" "length v \<le> MAX_VAL_LEN"
  shows "\<exists>a' x. client_set now k v 0 a = (a', Ok x) \<and> kept a' (m(k \<mapsto> (v, 0)))"
proof (cases "hashmap_set now k v 0 a")
  case (Pair a' r)
  note set = fits_set [OF kept_fits [OF assms(1)] assms(2,3), of now 0, unfolded Pair fst_conv snd_conv]
  obtain b where b: "evicts now (siphash k) a b" "arena_wf b" "set_done k v (ttl_to_expiry now 0) now b a' r"
    using hashmap_set_done [OF kept_wf [OF assms(1)] short_keys [OF assms(2)] Pair] by blast
  have "entry b k' = entry a k'" for k'
    using evicts_entry [OF kept_wf [OF assms(1)] b(2,1), of k'] kept_entry [OF assms(1), of k'] by fastforce
  then have "entry b = m" using assms(1) by (simp add: kept_def fun_eq_iff)
  with set_done_entry [OF b(2,3) set(3)] assms(3) have "entry a' = m(k \<mapsto> (v, 0))"
    by (simp add: ttl_to_expiry_def)
  with set(1,2) assms(1) show ?thesis by (auto simp: kept_def)
qed

end

section \<open>Operations on keys without collisions\<close>

locale script = key_space +
  fixes J :: "bytes set"
  assumes script_keys: "J \<subseteq> K" and no_collisions: "inj_on siphash J"
begin

definition stored :: "arena \<Rightarrow> kv_map \<Rightarrow> bool" where
  "stored a m \<longleftrightarrow> fits a \<and> entry a = m \<and> dom m \<subseteq> J"

lemma stored_ok: "stored a m \<Longrightarrow> client_ok J a"
  using no_collisions by (simp add: stored_def fits_def client_ok_def)

lemma stored_fits: "stored a m \<Longrightarrow> fits a"
  by (simp add: stored_def)

lemma stored_wf: "stored a m \<Longrightarrow> arena_wf a"
  by (simp add: stored_def fits_def)

lemma key_facts: "k \<in> J \<Longrightarrow> k \<in> K" "k \<in> J \<Longrightarrow> length k \<le> MAX_KEY_LEN"
  using script_keys short_keys by auto

lemma stored_get:
  assumes "stored a m" "k \<in> J"
  shows "\<exists>a'. client_get now k a = (a', Ok (live now m k)) \<and> stored a' (purge now k m)"
proof -
  note fits = fits_get [OF stored_fits [OF assms(1)] key_facts(1) [OF assms(2)], of now]
  note spec = client_get_spec [OF stored_ok [OF assms(1)] assms(2) key_facts(2) [OF assms(2)], of now]
  have get: "client_get now k a = (fst (hashmap_get now k a), Ok (live now m k))"
    using fits(1) spec(1) assms(1) by (auto simp: stored_def)
  then have "stored (fst (hashmap_get now k a)) (purge now k m)"
    using fits(2) spec(3) assms(1) by (auto simp: stored_def purge_def)
  with get show ?thesis by blast
qed

lemma stored_exists:
  assumes "stored a m" "k \<in> J"
  shows "\<exists>a'. client_exists now k a = (a', Ok (live now m k \<noteq> None)) \<and> stored a' (purge now k m)"
proof -
  note len = key_facts(2) [OF assms(2)]
  note spec = client_exists_spec [OF stored_ok [OF assms(1)] assms(2) len, of now]
  have "fst (client_exists now k a) = fst (client_get now k a)"
    using len by (simp add: client_exists_def client_get_def hashmap_exists_def case_prod_beta)
  with stored_get [OF assms, of now] spec(1) assms(1) show ?thesis
    by (intro exI [of _ "fst (client_exists now k a)"]) (auto simp: stored_def prod_eq_iff)
qed

lemma stored_set:
  assumes "stored a m" "k \<in> J" "length v \<le> MAX_VAL_LEN"
  shows "\<exists>a'. client_set now k v ttl a = (a', Ok (live now m k = None)) \<and>
    stored a' (m(k \<mapsto> (v, ttl_to_expiry now ttl)))"
proof -
  note fits = fits_set [OF stored_fits [OF assms(1)] key_facts(1) [OF assms(2)] assms(3), of now ttl]
  note spec = client_set_spec [OF stored_ok [OF assms(1)] assms(2) key_facts(2) [OF assms(2)] assms(3), of now ttl]
  have set: "client_set now k v ttl a = (fst (hashmap_set now k v ttl a), Ok (live now m k = None))"
    using fits(1,3) spec(1) assms(1) by (auto simp: stored_def)
  then have "stored (fst (hashmap_set now k v ttl a)) (m(k \<mapsto> (v, ttl_to_expiry now ttl)))"
    using fits(2,3) spec(3) assms(1,2) by (auto simp: stored_def)
  with set show ?thesis by blast
qed

lemma stored_del:
  assumes "stored a m" "k \<in> J"
  shows "\<exists>a'. client_del k a = (a', Ok (m k \<noteq> None)) \<and> stored a' (m(k := None))"
proof -
  have wf: "arena_wf a" and m: "entry a = m" using assms(1) by (simp_all add: stored_def fits_def)
  note fits = fits_del [OF stored_fits [OF assms(1)] key_facts(1) [OF assms(2)]]
  have del: "client_del k a = (fst (hashmap_del k a), Ok (m k \<noteq> None))"
    using key_facts(2) [OF assms(2)] hashmap_del_spec(1) [OF wf, of k] by (simp add: client_del_def m case_prod_beta)
  have "stored (fst (hashmap_del k a)) (m(k := None))"
    using fits hashmap_del_spec(2) [OF wf, of k] assms(1) by (auto simp: stored_def)
  with del show ?thesis by blast
qed

lemma stored_flush:
  assumes "stored a m"
  shows "\<exists>a'. client_flush a = (a', Ok ()) \<and> stored a' Map.empty"
proof -
  have "states_ok (flush_all a)" by (simp add: states_ok_def slot_flush_all init_def)
  then show ?thesis
    using client_flush_spec [OF stored_ok [OF assms]] wf_flush_all [OF stored_wf [OF assms]]
    by (auto simp: client_flush_def stored_def fits_def)
qed

end

end
