(* ===== verification/BasicUsage.thy ===== *)
theory BasicUsage
  imports System KeySpace "HOL-Library.Monad_Syntax"
begin

text \<open>
  The demonstration program \<open>examples/basic_usage.rs\<close>: a client that creates an arena, runs through the
  operations of the library, prints what they give and then serves the arena.  The program is a
  sequence of calls that are unwrapped: a value of the option monad, \<open>None\<close> for a panic.  What it
  prints is a record; the lines that show measured times are left out.  Clock readings are a
  sequence, numbered in the order in which the calls take them.
\<close>

section \<open>The program\<close>

definition unwrap :: "arena \<times> ('a, client_error) rresult \<Rightarrow> (arena \<times> 'a) option" where
  "unwrap r = (case r of (a, Ok x) \<Rightarrow> Some (a, x) | (a, Err e) \<Rightarrow> None | (a, Panic) \<Rightarrow> None)"

record usage_report =
  arena_ready :: "nat \<times> nat"
  hello_stored :: "bytes option"
  counted :: "u64 list"
  hello_deleted :: "bytes option"
  read_at_once :: "bytes option"
  read_later :: "bytes option"
  users_inserted :: nat
  users_found :: "(bytes \<times> bytes) list"

record usage_stats =
  used_slots_shown :: u64
  total_slots_shown :: nat
  fill_shown :: bytes

definition user_pairs :: "(bytes \<times> bytes) list" where
  "user_pairs =
    [(ascii ''user:1'', ascii ''alice''), (ascii ''user:2'', ascii ''bob''), (ascii ''user:3'', ascii ''carol''),
     (ascii ''user:4'', ascii ''dave''), (ascii ''user:5'', ascii ''eve'')]"

definition user_keys :: "bytes list" where
  "user_keys = [ascii ''user:1'', ascii ''user:2'', ascii ''user:3'', ascii ''user:99'']"

definition bench_key :: "nat \<Rightarrow> bytes" where
  "bench_key i = ascii ''bench:'' @ show_nat (i mod 10000)"

definition shown_user :: "bytes \<times> bytes option \<Rightarrow> bytes \<times> bytes" where
  "shown_user kv = (from_utf8_lossy (fst kv),
    case snd kv of Some v \<Rightarrow> from_utf8_lossy v | None \<Rightarrow> ascii ''(nil)'')"

text \<open>The loop \<open>for i in 0..n\<close>, from \<open>i\<close> on.\<close>

fun for_each :: "(nat \<Rightarrow> arena \<Rightarrow> arena option) \<Rightarrow> nat \<Rightarrow> nat \<Rightarrow> arena \<Rightarrow> arena option" where
  "for_each body i 0 a = Some a"
| "for_each body i (Suc n) a = do { a \<leftarrow> body i a; for_each body (Suc i) n a }"

definition api_demo :: "(nat \<Rightarrow> u64) \<Rightarrow> arena \<Rightarrow> (arena \<times> usage_report) option" where
  "api_demo clk a = do {
    (a, _) \<leftarrow> unwrap (client_set (clk 0) (ascii ''hello'') (ascii ''world'') 0 a);
    (a, hello) \<leftarrow> unwrap (client_get (clk 1) (ascii ''hello'') a);
    (a, _) \<leftarrow> unwrap (client_set (clk 2) (ascii ''counter'') (ascii ''0'') 0 a);
    (a, n1) \<leftarrow> unwrap (client_incr (clk 3) (clk 4) (ascii ''counter'') a);
    (a, n2) \<leftarrow> unwrap (client_incr (clk 5) (clk 6) (ascii ''counter'') a);
    (a, n3) \<leftarrow> unwrap (client_decr (clk 7) (clk 8) (ascii ''counter'') a);
    (a, _) \<leftarrow> unwrap (client_del (ascii ''hello'') a);
    (a, gone) \<leftarrow> unwrap (client_get (clk 9) (ascii ''hello'') a);
    (a, _) \<leftarrow> unwrap (client_set (clk 10) (ascii ''expiring_key'') (ascii ''i will disappear'') 2 a);
    (a, fresh) \<leftarrow> unwrap (client_get (clk 11) (ascii ''expiring_key'') a);
    (a, stale) \<leftarrow> unwrap (client_get (clk 12) (ascii ''expiring_key'') a);
    (a, n) \<leftarrow> unwrap (client_mset (\<lambda>i. clk (13 + i)) user_pairs 0 a);
    (a, vs) \<leftarrow> unwrap (client_mget (\<lambda>i. clk (18 + i)) user_keys a);
    Some (a, \<lparr>arena_ready = (client_capacity a, client_capacity a * 1300 div 1000000),
      hello_stored = map_option from_utf8_lossy hello, counted = [n1, n2, n3], hello_deleted = gone,
      read_at_once = map_option from_utf8_lossy fresh, read_later = stale,
      users_inserted = n, users_found = map shown_user (zip user_keys vs)\<rparr>)
  }"

definition throughput_demo :: "(nat \<Rightarrow> u64) \<Rightarrow> nat \<Rightarrow> arena \<Rightarrow> arena option" where
  "throughput_demo clk ops a = do {
    (a, _) \<leftarrow> unwrap (client_set (clk 0) (ascii ''bench:key'') (ascii ''bench:value'') 0 a);
    a \<leftarrow> for_each (\<lambda>i a. map_option fst (unwrap (client_get (clk (1 + i)) (ascii ''bench:key'') a))) 0 ops a;
    for_each (\<lambda>i a. map_option fst (unwrap (client_set (clk (1 + ops + i)) (bench_key i) (ascii ''value'') 0 a))) 0 ops a
  }"

text \<open>
  The statistics after the loops, and the server that \<open>start_all\<close> leaves the arena to.
\<close>

definition example_main ::
  "int \<Rightarrow> int \<Rightarrow> int \<Rightarrow> arena option \<Rightarrow> (nat \<Rightarrow> u64) \<Rightarrow> (system \<times> usage_report \<times> usage_stats) option" where
  "example_main ret_open errno ret_trunc ret_mmap clk = do {
    m \<leftarrow> (case client_create ret_open errno ret_trunc ret_mmap of Ok m \<Rightarrow> Some m | Err e \<Rightarrow> None | Panic \<Rightarrow> None);
    (a, report) \<leftarrow> api_demo clk (mem m);
    a \<leftarrow> throughput_demo (\<lambda>i. clk (22 + i)) 1000000 a;
    Some (start_all a, report, \<lparr>used_slots_shown = client_used_count a, total_slots_shown = client_capacity a,
      fill_shown = f64_fixed2 (f64_mul (client_fill_ratio a) (f64_nat 100))\<rparr>)
  }"

section \<open>Running the calls\<close>

text \<open>Running a script of operations on keys without collisions: the outcome of a prefix, then the rest.\<close>

definition returns :: "('x \<Rightarrow> bool) \<Rightarrow> 'x option \<Rightarrow> bool" where
  "returns Q r \<longleftrightarrow> (\<exists>y. r = Some y \<and> Q y)"

context script begin

lemma run_set:
  assumes "stored a m" "k \<in> J \<and> length v \<le> MAX_VAL_LEN"
    and "\<And>a'. stored a' (m(k \<mapsto> (v, ttl_to_expiry now ttl))) \<Longrightarrow> returns Q (rest (a', live now m k = None))"
  shows "returns Q (unwrap (client_set now k v ttl a) \<bind> rest)"
  using stored_set [OF assms(1), of k v now ttl] assms(2,3) by (auto simp: unwrap_def)

lemma run_get:
  assumes "stored a m" "k \<in> J"
    and "\<And>a'. stored a' (purge now k m) \<Longrightarrow> returns Q (rest (a', live now m k))"
  shows "returns Q (unwrap (client_get now k a) \<bind> rest)"
  using stored_get [OF assms(1,2), of now] assms(3) by (auto simp: unwrap_def)

lemma run_del:
  assumes "stored a m" "k \<in> J"
    and "\<And>a'. stored a' (m(k := None)) \<Longrightarrow> returns Q (rest (a', m k \<noteq> None))"
  shows "returns Q (unwrap (client_del k a) \<bind> rest)"
  using stored_del [OF assms(1,2)] assms(3) by (auto simp: unwrap_def)

end

text \<open>The compound operations are sequences of the basic ones.\<close>

lemma unwrap_Ok_cases:
  "unwrap r \<bind> f = (case r of (a, Ok x) \<Rightarrow> f (a, x) | (a, Err e) \<Rightarrow> None | (a, Panic) \<Rightarrow> None)"
  by (simp add: unwrap_def split: prod.splits rresult.splits)

lemma unwrap_incr:
  "unwrap (client_incr t1 t2 k a) = unwrap (client_get t1 k a) \<bind> (\<lambda>(a, stored).
    unwrap (client_set t2 k (show_nat (unat (read_number stored + 1))) 0 a) \<bind> (\<lambda>(a, _). Some (a, read_number stored + 1)))"
  by (simp add: unwrap_Ok_cases client_incr_def Let_def) (simp add: unwrap_def split: prod.splits rresult.splits)

lemma unwrap_decr:
  "unwrap (client_decr t1 t2 k a) = unwrap (client_get t1 k a) \<bind> (\<lambda>(a, stored).
    unwrap (client_set t2 k (show_nat (unat (saturating_sub (read_number stored) 1))) 0 a) \<bind>
      (\<lambda>(a, _). Some (a, saturating_sub (read_number stored) 1)))"
  by (simp add: unwrap_Ok_cases client_decr_def Let_def) (simp add: unwrap_def split: prod.splits rresult.splits)

lemma unwrap_mset:
  "unwrap (mset_loop clk [] ttl n a) = Some (a, n)"
  "unwrap (mset_loop clk ((k, v) # kvs) ttl n a) = unwrap (client_set (clk 0) k v ttl a) \<bind>
    (\<lambda>(a, _). unwrap (mset_loop (\<lambda>i. clk (Suc i)) kvs ttl (n + 1) a))"
  by (simp_all add: unwrap_Ok_cases) (simp_all add: unwrap_def split: prod.splits rresult.splits)

lemma unwrap_mget:
  "unwrap (client_mget clk [] a) = Some (a, [])"
  "unwrap (client_mget clk (k # ks) a) = unwrap (client_get (clk 0) k a) \<bind>
    (\<lambda>(a, v). unwrap (client_mget (\<lambda>i. clk (Suc i)) ks a) \<bind> (\<lambda>(a, vs). Some (a, v # vs)))"
  by (simp_all add: unwrap_Ok_cases) (simp_all add: unwrap_def split: prod.splits rresult.splits)

text \<open>The loops of the program keep going.\<close>

lemma for_each_works:
  assumes "P a" "\<And>i a. P a \<Longrightarrow> \<exists>a'. body i a = Some a' \<and> P a'"
  shows "\<exists>a'. for_each body i n a = Some a' \<and> P a'"
  using assms(1)
proof (induction n arbitrary: i a)
  case (Suc n)
  from assms(2) [OF Suc.prems] obtain a' where "body i a = Some a'" "P a'" by blast
  with Suc.IH [of a' "Suc i"] show ?case by simp
qed simp

section \<open>The keys of the program\<close>

definition script_keys :: "bytes list" where
  "script_keys = [ascii ''hello'', ascii ''counter'', ascii ''expiring_key''] @ map fst user_pairs @ [ascii ''user:99'']"

definition usage_keys :: "bytes set" where
  "usage_keys = List.set script_keys \<union> {ascii ''bench:key''} \<union> bench_key ` {..<10000}"

text \<open>The nine keys before the loops have nine hashes.\<close>

lemma script_hashes: "distinct (map siphash script_keys)"
  by (simp add: script_keys_def user_pairs_def ascii_def siphash_eval)

lemma bench_key_in: "bench_key i \<in> usage_keys"
proof -
  have "bench_key i = bench_key (i mod 10000)" by (simp add: bench_key_def)
  moreover have "i mod 10000 \<in> {..<10000}" by simp
  ultimately show ?thesis unfolding usage_keys_def by blast
qed

lemma length_bench_key: "length (bench_key i) \<le> MAX_KEY_LEN"
proof -
  have "length (show_nat (i mod 10000)) \<le> 4" by (rule length_show_nat) simp_all
  then show ?thesis by (simp add: bench_key_def ascii_def MAX_KEY_LEN_def)
qed

interpretation usage: script usage_keys "List.set script_keys"
proof unfold_locales
  show "finite usage_keys" by (simp add: usage_keys_def)
  have "card (bench_key ` {..<10000}) \<le> 10000" using card_image_le [of "{..<10000}" bench_key] by simp
  moreover have "card (List.set script_keys) \<le> 9" using card_length [of script_keys] by (simp add: script_keys_def user_pairs_def)
  ultimately have "card usage_keys \<le> 9 + 1 + 10000"
    unfolding usage_keys_def using card_Un_le [of "List.set script_keys \<union> {ascii ''bench:key''}" "bench_key ` {..<10000}"]
      card_Un_le [of "List.set script_keys" "{ascii ''bench:key''}"] by simp
  then show "card usage_keys < SLOT_COUNT" by (simp add: SLOT_COUNT_def)
  show "length k \<le> MAX_KEY_LEN" if "k \<in> usage_keys" for k
    using that length_bench_key by (auto simp: usage_keys_def script_keys_def user_pairs_def ascii_def MAX_KEY_LEN_def)
  show "List.set script_keys \<subseteq> usage_keys" by (auto simp: usage_keys_def)
  show "inj_on siphash (List.set script_keys)" using script_hashes by (simp add: distinct_map)
qed

section \<open>The operations of the demonstration\<close>

lemma in_script [simp]:
  "ascii ''hello'' \<in> List.set script_keys" "ascii ''counter'' \<in> List.set script_keys"
  "ascii ''expiring_key'' \<in> List.set script_keys" "ascii ''user:1'' \<in> List.set script_keys"
  "ascii ''user:2'' \<in> List.set script_keys" "ascii ''user:3'' \<in> List.set script_keys"
  "ascii ''user:4'' \<in> List.set script_keys" "ascii ''user:5'' \<in> List.set script_keys"
  "ascii ''user:99'' \<in> List.set script_keys"
  by (simp_all add: script_keys_def user_pairs_def)

lemma unat_of_char: "unat (of_char c :: u8) = of_char c"
proof -
  have "(of_char c :: nat) < 2 ^ 8" by simp
  moreover have "(of_char c :: u8) = of_nat (of_char c)" by (rule of_nat_of_char [symmetric])
  ultimately show ?thesis by (simp only: unat_of_nat) simp
qed

lemma ascii_eq_iff: "ascii s = ascii t \<longleftrightarrow> s = t"
proof -
  have "inj (of_char :: char \<Rightarrow> u8)" by (rule injI) (metis unat_of_char of_char_eq_iff)
  then show ?thesis by (simp add: ascii_def inj_map_eq_map)
qed

text \<open>The content of the arena, and the values that the map gives for them.\<close>

lemma live_upd: "live now (m(k \<mapsto> (v, e))) k' = (if k' = k then if expired_at now e then None else Some v else live now m k')"
  by (simp add: live_def spec_get_def)

lemma live_del: "live now (m(k := None)) k' = (if k' = k then None else live now m k')"
  by (simp add: live_def spec_get_def)

lemma live_empty: "live now Map.empty k = None"
  by (simp add: live_def)

lemma purge_upd: "purge now k (m(k' \<mapsto> (v, e))) =
  (if k = k' then if expired_at now e then m(k' := None) else m(k' \<mapsto> (v, e)) else (purge now k m)(k' \<mapsto> (v, e)))"
  by (auto simp: purge_def spec_get_def)

lemma purge_del: "purge now k (m(k' := None)) = (if k = k' then m(k' := None) else (purge now k m)(k' := None))"
  by (auto simp: purge_def spec_get_def)

lemma purge_empty: "purge now k Map.empty = Map.empty"
  by (simp add: purge_def)

lemma read_number_0: "read_number (Some (ascii ''0'')) = 0"
  using read_number_show [of 0] by (simp add: show_nat.simps ascii_def digit_byte_def)

lemmas run_simps = prod.case Option.bind_assoc bind.bind_lunit live_upd live_del live_empty purge_upd purge_del
  purge_empty ttl_0 expired_at_0 if_False if_True ascii_eq_iff list.inject list.distinct char.inject simp_thms
  read_number_0 read_number_show fun_upd_upd

lemma returns_Some: "returns Q (Some y) \<longleftrightarrow> Q y"
  by (simp add: returns_def)

text \<open>What the program prints.\<close>

definition as_printed :: "usage_report \<Rightarrow> bool" where
  "as_printed report \<longleftrightarrow> arena_ready report = (65536, 85) \<and>
    hello_stored report = Some (ascii ''world'') \<and> counted report = [1, 2, 1] \<and> hello_deleted report = None \<and>
    read_at_once report = Some (ascii ''i will disappear'') \<and> read_later report = None \<and>
    users_inserted report = 5 \<and> users_found report =
      [(ascii ''user:1'', ascii ''alice''), (ascii ''user:2'', ascii ''bob''), (ascii ''user:3'', ascii ''carol''),
       (ascii ''user:99'', ascii ''(nil)'')]"

lemma api_demo_works:
  assumes "usage.stored a Map.empty"
    and "\<not> expired_at (clk 11) (ttl_to_expiry (clk 10) 2)" "expired_at (clk 12) (ttl_to_expiry (clk 10) 2)"
  shows "returns (\<lambda>(a', report). usage.fits a' \<and> as_printed report) (api_demo clk a)"
  using assms(1)
  unfolding api_demo_def unwrap_incr unwrap_decr client_mset_def user_pairs_def user_keys_def unwrap_mset unwrap_mget
    Option.bind_assoc
  apply -
  apply (rule usage.run_set usage.run_get usage.run_del, assumption,
    (intro conjI in_script length_show_u64; fail | simp (no_asm) add: MAX_VAL_LEN_def; fail),
    simp only: run_simps assms(2,3))+
  apply (simp only: returns_Some prod.case)
  apply (rule conjI, rule usage.stored_fits, assumption)
  apply (simp (no_asm) add: as_printed_def client_capacity_def hashmap_capacity_def SLOT_COUNT_def
    saturating_sub_def shown_user_def ascii_def)
  done

section \<open>The loops\<close>

lemma throughput_demo_works:
  assumes "usage.fits a"
  shows "\<exists>a'. throughput_demo clk ops a = Some a' \<and> usage.fits a'"
proof -
  have bench: "ascii ''bench:key'' \<in> usage_keys" by (simp add: usage_keys_def)
  have set: "\<exists>a'. map_option fst (unwrap (client_set now k v ttl a)) = Some a' \<and> usage.fits a'"
    if "usage.fits a" "k \<in> usage_keys" "length v \<le> MAX_VAL_LEN" for now k v ttl a
    using usage.fits_set(1,2) [OF that, of now ttl] by (auto simp: unwrap_def)
  have get: "\<exists>a'. map_option fst (unwrap (client_get now k a)) = Some a' \<and> usage.fits a'"
    if "usage.fits a" "k \<in> usage_keys" for now k a
    using usage.fits_get [OF that, of now] by (auto simp: unwrap_def)
  obtain a1 x where a1: "unwrap (client_set (clk 0) (ascii ''bench:key'') (ascii ''bench:value'') 0 a) = Some (a1, x)"
    "usage.fits a1"
    using set [OF assms bench, of "ascii ''bench:value''" "clk 0" 0] by (auto simp: MAX_VAL_LEN_def)
  have "\<exists>a2. for_each (\<lambda>i a. map_option fst (unwrap (client_get (clk (1 + i)) (ascii ''bench:key'') a))) 0 ops a1 = Some a2 \<and>
      usage.fits a2"
    by (rule for_each_works [where P = usage.fits]) (rule a1(2), rule get [OF _ bench])
  then obtain a2 where a2: "for_each (\<lambda>i a. map_option fst (unwrap (client_get (clk (1 + i)) (ascii ''bench:key'') a))) 0 ops a1 = Some a2"
    "usage.fits a2" by blast
  have "\<exists>a3. for_each (\<lambda>i a. map_option fst (unwrap (client_set (clk (1 + ops + i)) (bench_key i) (ascii ''value'') 0 a))) 0 ops a2 =
      Some a3 \<and> usage.fits a3"
    by (rule for_each_works [where P = usage.fits]) (rule a2(2), rule set [OF _ bench_key_in], simp_all add: MAX_VAL_LEN_def)
  with a1(1) a2(1) show ?thesis by (auto simp: throughput_demo_def)
qed

section \<open>The whole program\<close>

text \<open>
  C31: the demonstration runs through.  When the arena could be created and the clock shows that less
  than two seconds pass before the entry with a time to live of two seconds is read first, and at
  least two before it is read again, then no call of the program panics, whatever else the clock
  shows and whatever hashes collide in the loops; it prints the values, counts and absent keys that
  its comments and texts announce; and it ends with a server that accepts connections on a
  well-formed arena.
\<close>

theorem example_runs:
  assumes "client_create ret_open errno ret_trunc ret_mmap = Ok m" "\<forall>i<SLOT_COUNT. slot_wf (slot (mem m) i)"
    and "unat (clk 10) + 2000 < 2 ^ 64" "clk 11 < clk 10 + 2000" "clk 10 + 2000 \<le> clk 12"
  shows "\<exists>s report stats. example_main ret_open errno ret_trunc ret_mmap clk = Some (s, report, stats) \<and> as_printed report \<and>
    total_slots_shown stats = 65536 \<and> arena_wf (shared (srv s)) \<and> accepting (srv s) \<and> tasks (srv s) = []"
proof -
  have expiry: "ttl_to_expiry (clk 10) 2 = clk 10 + 2000" by (simp add: ttl_to_expiry_def)
  have "clk 10 + 2000 \<noteq> 0" using assms(4) by auto
  then have times: "\<not> expired_at (clk 11) (ttl_to_expiry (clk 10) 2)" "expired_at (clk 12) (ttl_to_expiry (clk 10) 2)"
    using assms(4,5) by (auto simp: expiry expired_at_def)
  have "snd (create_arena ret_open errno ret_trunc ret_mmap) = Inr m"
    using assms(1) by (simp add: client_create_def split: sum.splits)
  then have "\<forall>i<SLOT_COUNT. state (slot (mem m) i) = STATE_EMPTY"
    by (auto simp: create_arena_ok arena_simps slot_simps)
  then have "usage.stored (mem m) Map.empty"
    using wf_all_empty [of "mem m"] assms(2)
    by (simp add: usage.stored_def usage.fits_def states_ok_def)
  from api_demo_works [OF this times] obtain a report where
    demo: "api_demo clk (mem m) = Some (a, report)" "usage.fits a" "as_printed report"
    by (auto simp: returns_def)
  obtain a' where loops: "throughput_demo (\<lambda>i. clk (22 + i)) 1000000 a = Some a'" "usage.fits a'"
    using throughput_demo_works [OF demo(2)] by blast
  from demo(3) loops(2) show ?thesis
    by (auto simp: example_main_def assms(1) demo(1) loops(1) start_all_def server_start_def
        usage.fits_def client_capacity_def hashmap_capacity_def SLOT_COUNT_def)
qed

theorem example_runs_witness:
  "\<exists>s report stats. example_main 3 0 0 (Some blank_arena) (\<lambda>i. if i < 12 then 1700000000000 else 1700000003000) = Some (s, report, stats) \<and>
    read_later report = None \<and> counted report = [1, 2, 1]"
proof -
  have create: "client_create 3 0 0 (Some blank_arena) = Ok \<lparr>mem = fresh_arena blank_arena, fd = 3\<rparr>"
    by (simp add: client_create_def create_arena_def fresh_arena_def)
  have "\<forall>i<SLOT_COUNT. slot_wf (slot (mem \<lparr>mem = fresh_arena blank_arena, fd = 3\<rparr>) i)"
    by (simp add: wf_slot [OF wf_fresh_blank])
  from example_runs [OF create this, of "\<lambda>i. if i < 12 then 1700000000000 else 1700000003000"] show ?thesis
    by (auto simp: as_printed_def)
qed

end
