(* ===== verification/Concurrency.thy ===== *)
theory Concurrency
  imports Client
begin

text \<open>
  SET as other threads see it.  \<open>set\<close> and \<open>claim_slot\<close> of \<open>src/hashmap.rs\<close> are taken apart into their
  accesses of the shared slots, in program order: one step per load that decides and per store.
  (The expiry test with its compare-and-exchange, and the comparison of the stored key, are one
  step each.)  Threads interleave their steps on one arena, each step seeing the effect of all
  earlier ones; what weaker memory orders could add is not modelled.
\<close>

section \<open>SET in steps\<close>

record set_call =
  call_now :: u64
  call_key :: bytes
  call_val :: bytes
  call_expiry :: u64

definition call_hash :: "set_call \<Rightarrow> u64" where
  "call_hash c = siphash (call_key c)"

text \<open>
  The place in the program.  The claiming places carry the slot and whether \<open>used_count\<close> will be
  incremented; the first two probing places the index of the probe and the first tombstone.
\<close>

datatype set_pc =
    LoadState nat "nat option"
  | LoadFingerprint nat "nat option"
  | TestExpiry nat "nat option"
  | CompareKey nat "nat option"
  | UpdateValBuf nat | UpdateValLen nat | UpdateExpiry nat
  | ClaimKeyBuf nat bool | ClaimKeyLen nat bool | ClaimValBuf nat bool | ClaimValLen nat bool
  | ClaimFingerprint nat bool | ClaimExpiry nat bool | ClaimState nat bool
  | AddUsed
  | Done set_result

definition store_key_buf :: "bytes \<Rightarrow> slot \<Rightarrow> slot" where
  "store_key_buf key s = s\<lparr>key_buf := copy_prefix (key_buf s) (take (min (length key) MAX_KEY_LEN) key)\<rparr>"

definition store_key_len :: "bytes \<Rightarrow> slot \<Rightarrow> slot" where
  "store_key_len key s = s\<lparr>key_len := of_nat (min (length key) MAX_KEY_LEN)\<rparr>"

definition store_val_buf :: "bytes \<Rightarrow> slot \<Rightarrow> slot" where
  "store_val_buf val s = s\<lparr>val_buf := copy_prefix (val_buf s) (take (min (length val) MAX_VAL_LEN) val)\<rparr>"

definition store_val_len :: "bytes \<Rightarrow> slot \<Rightarrow> slot" where
  "store_val_len val s = s\<lparr>val_len := of_nat (min (length val) MAX_VAL_LEN)\<rparr>"

text \<open>The head of the probing loop, and what follows it when all slots have been seen.\<close>

definition next_probe :: "nat \<Rightarrow> nat option \<Rightarrow> set_pc" where
  "next_probe i ft = (if i < SLOT_COUNT then LoadState i ft
    else case ft of Some t \<Rightarrow> ClaimKeyBuf t False | None \<Rightarrow> Done Full)"

fun set_step :: "set_call \<Rightarrow> set_pc \<times> arena \<Rightarrow> set_pc \<times> arena" where
  "set_step c (LoadState i ft, a) =
    (let idx = probe (call_hash c) i; st = state (slot a idx)
     in (if st = STATE_EMPTY then ClaimKeyBuf (case ft of Some t \<Rightarrow> t | None \<Rightarrow> idx) True
         else if st = STATE_TOMBSTONE then next_probe (Suc i) (first_some ft idx)
         else if st = STATE_OCCUPIED then LoadFingerprint i ft
         else next_probe (Suc i) ft, a))"
| "set_step c (LoadFingerprint i ft, a) =
    (if fingerprint (slot a (probe (call_hash c) i)) \<noteq> call_hash c then next_probe (Suc i) ft
     else TestExpiry i ft, a)"
| "set_step c (TestExpiry i ft, a) =
    (let idx = probe (call_hash c) i
     in if snd (lazy_evict_if_expired (call_now c) (slot a idx))
        then (next_probe (Suc i) (first_some ft idx),
              slot_mut idx (\<lambda>s. fst (lazy_evict_if_expired (call_now c) s)) a)
        else (CompareKey i ft, a))"
| "set_step c (CompareKey i ft, a) =
    (let idx = probe (call_hash c) i
     in (if read_key (slot a idx) \<noteq> call_key c then next_probe (Suc i) ft else UpdateValBuf idx, a))"
| "set_step c (UpdateValBuf t, a) = (UpdateValLen t, slot_mut t (store_val_buf (call_val c)) a)"
| "set_step c (UpdateValLen t, a) = (UpdateExpiry t, slot_mut t (store_val_len (call_val c)) a)"
| "set_step c (UpdateExpiry t, a) = (Done Updated, slot_mut t (\<lambda>s. s\<lparr>expires_at_ms := call_expiry c\<rparr>) a)"
| "set_step c (ClaimKeyBuf t n, a) = (ClaimKeyLen t n, slot_mut t (store_key_buf (call_key c)) a)"
| "set_step c (ClaimKeyLen t n, a) = (ClaimValBuf t n, slot_mut t (store_key_len (call_key c)) a)"
| "set_step c (ClaimValBuf t n, a) = (ClaimValLen t n, slot_mut t (store_val_buf (call_val c)) a)"
| "set_step c (ClaimValLen t n, a) = (ClaimFingerprint t n, slot_mut t (store_val_len (call_val c)) a)"
| "set_step c (ClaimFingerprint t n, a) = (ClaimExpiry t n, slot_mut t (\<lambda>s. s\<lparr>fingerprint := call_hash c\<rparr>) a)"
| "set_step c (ClaimExpiry t n, a) = (ClaimState t n, slot_mut t (\<lambda>s. s\<lparr>expires_at_ms := call_expiry c\<rparr>) a)"
| "set_step c (ClaimState t n, a) =
    (if n then AddUsed else Done Inserted, slot_mut t (\<lambda>s. s\<lparr>state := STATE_OCCUPIED\<rparr>) a)"
| "set_step c (AddUsed, a) = (Done Inserted, add_used 1 a)"
| "set_step c (Done r, a) = (Done r, a)"

definition set_start :: set_pc where
  "set_start = next_probe 0 None"

section \<open>Interleaving\<close>

text \<open>Threads with their calls and places; a schedule is the list of threads that step.\<close>

fun run_schedule :: "(nat \<Rightarrow> set_call) \<Rightarrow> nat list \<Rightarrow> (nat \<Rightarrow> set_pc) \<times> arena \<Rightarrow> (nat \<Rightarrow> set_pc) \<times> arena" where
  "run_schedule calls [] (pcs, a) = (pcs, a)"
| "run_schedule calls (t # ts) (pcs, a) =
    (case set_step (calls t) (pcs t, a) of (pc, a') \<Rightarrow> run_schedule calls ts (pcs(t := pc), a'))"

section \<open>One thread alone\<close>

definition leads :: "set_call \<Rightarrow> set_pc \<times> arena \<Rightarrow> set_pc \<times> arena \<Rightarrow> bool" where
  "leads c x y \<longleftrightarrow> (\<exists>n. (set_step c ^^ n) x = y)"

lemma leads_refl [intro]: "leads c x x"
  unfolding leads_def by (rule exI [of _ 0]) simp

lemma leads_step: "leads c (set_step c x) y \<Longrightarrow> leads c x y"
  unfolding leads_def by (auto simp: funpow_Suc_right simp del: funpow.simps(2) intro: exI [of _ "Suc n" for n])

lemma slot_mut_slot_mut: "slot_mut t f (slot_mut t g a) = slot_mut t (\<lambda>s. f (g s)) a"
  by (simp add: slot_mut_def)

lemma write_value_stores: "write_value v = (\<lambda>s. store_val_len v (store_val_buf v s))"
  by (simp add: write_value_def store_val_len_def store_val_buf_def Let_def fun_eq_iff)

lemma write_key_stores: "write_key k = (\<lambda>s. store_key_len k (store_key_buf k s))"
  by (simp add: write_key_def store_key_len_def store_key_buf_def Let_def fun_eq_iff)

lemma claim_slot_stores: "claim_slot h k v e = (\<lambda>s. (store_val_len v (store_val_buf v (store_key_len k
    (store_key_buf k s))))\<lparr>fingerprint := h, expires_at_ms := e, state := STATE_OCCUPIED\<rparr>)"
  by (simp add: claim_slot_def write_key_stores write_value_stores Let_def fun_eq_iff)

lemma leads_claim:
  "leads c (ClaimKeyBuf t n, a)
    (Done Inserted, (if n then add_used 1 else id)
      (slot_mut t (claim_slot (call_hash c) (call_key c) (call_val c) (call_expiry c)) a))"
  unfolding leads_def
  by (rule exI [of _ "Suc (Suc (Suc (Suc (Suc (Suc (Suc (Suc 0)))))))"])
    (simp add: slot_mut_slot_mut claim_slot_stores)

lemma leads_update:
  "leads c (UpdateValBuf t, a)
    (Done Updated, slot_mut t (\<lambda>s. (write_value (call_val c) s)\<lparr>expires_at_ms := call_expiry c\<rparr>) a)"
  unfolding leads_def
  by (rule exI [of _ "Suc (Suc (Suc 0))"]) (simp add: slot_mut_slot_mut write_value_stores)

lemma leads_claim_empty:
  "leads c (ClaimKeyBuf t True, a) (Done Inserted, add_used 1
    (slot_mut t (claim_slot (call_hash c) (call_key c) (call_val c) (call_expiry c)) a))"
  using leads_claim [of c t True a] by simp

lemma leads_claim_full:
  "leads c (ClaimKeyBuf t False, a) (Done Inserted,
    slot_mut t (claim_slot (call_hash c) (call_key c) (call_val c) (call_expiry c)) a)"
  using leads_claim [of c t False a] by simp

lemma leads_probe:
  "i \<le> SLOT_COUNT \<Longrightarrow> leads c (next_probe i ft, a)
    (case set_loop (call_now c) (call_hash c) (call_key c) (call_val c) (call_expiry c) ft i a of
      (a', r) \<Rightarrow> (Done r, a'))"
proof (induction "SLOT_COUNT - i" arbitrary: i ft a)
  case 0
  then have i: "i = SLOT_COUNT" by simp
  show ?case
  proof (cases ft)
    case None
    then show ?thesis by (simp add: i next_probe_def set_loop_end_none leads_refl)
  next
    case (Some t)
    then show ?thesis
      using leads_claim_full [of c t a] by (simp add: i next_probe_def set_loop_end_some)
  qed
next
  case (Suc n)
  let ?i = "probe (call_hash c) i"
  let ?loop = "\<lambda>ft i a. case set_loop (call_now c) (call_hash c) (call_key c) (call_val c) (call_expiry c) ft i a of
    (a', r) \<Rightarrow> (Done r, a')"
  have i: "i < SLOT_COUNT" using Suc.hyps(2) by simp
  have IH: "leads c (next_probe (Suc i) ft', a') (?loop ft' (Suc i) a')" for ft' a'
    using Suc.hyps Suc.prems by (intro Suc.hyps(1)) simp_all
  consider (empty) "state (slot a ?i) = STATE_EMPTY"
    | (tomb) "state (slot a ?i) = STATE_TOMBSTONE"
    | (other) "state (slot a ?i) \<notin> {STATE_EMPTY, STATE_TOMBSTONE, STATE_OCCUPIED}"
    | (occ) "state (slot a ?i) = STATE_OCCUPIED" by blast
  then have "leads c (LoadState i ft, a) (?loop ft i a)"
  proof cases
    case empty
    show ?thesis
      by (rule leads_step) (use empty i leads_claim_empty in \<open>simp add: set_loop_empty Let_def\<close>)
  next
    case tomb
    show ?thesis
      by (rule leads_step) (use tomb i IH in \<open>simp add: set_loop_tombstone Let_def\<close>)
  next
    case other
    then have "get_passes (call_now c) (call_hash c) (call_key c) (slot a ?i)" by (simp add: get_passes_def)
    then show ?thesis
      using other i IH by (intro leads_step [of c "(LoadState i ft, a)"]) (simp add: set_loop_pass Let_def)
  next
    case occ
    consider (differs) "fingerprint (slot a ?i) \<noteq> call_hash c"
      | (exp) "fingerprint (slot a ?i) = call_hash c" "is_expired (call_now c) (slot a ?i)"
      | (hit) "fingerprint (slot a ?i) = call_hash c" "\<not> is_expired (call_now c) (slot a ?i)"
          "read_key (slot a ?i) = call_key c"
      | (miss) "fingerprint (slot a ?i) = call_hash c" "\<not> is_expired (call_now c) (slot a ?i)"
          "read_key (slot a ?i) \<noteq> call_key c" by blast
    then have "leads c (LoadFingerprint i ft, a) (?loop ft i a)"
    proof cases
      case differs
      then have "get_passes (call_now c) (call_hash c) (call_key c) (slot a ?i)" by (simp add: get_passes_def occ)
      then show ?thesis
        using differs occ i IH by (intro leads_step [of c "(LoadFingerprint i ft, a)"]) (simp add: set_loop_pass)
    next
      case exp
      have "leads c (TestExpiry i ft, a) (?loop ft i a)"
        by (rule leads_step) (use exp occ i IH in \<open>simp add: set_loop_evict Let_def slot_simps\<close>)
      with exp show ?thesis by (intro leads_step [of c "(LoadFingerprint i ft, a)"]) simp
    next
      case hit
      have "leads c (CompareKey i ft, a) (?loop ft i a)"
        by (rule leads_step) (use hit occ i leads_update in \<open>simp add: set_loop_update Let_def\<close>)
      with hit have "leads c (TestExpiry i ft, a) (?loop ft i a)"
        by (intro leads_step [of c "(TestExpiry i ft, a)"]) (simp add: Let_def slot_simps)
      with hit show ?thesis by (intro leads_step [of c "(LoadFingerprint i ft, a)"]) simp
    next
      case miss
      then have "get_passes (call_now c) (call_hash c) (call_key c) (slot a ?i)" by (simp add: get_passes_def occ)
      then have "leads c (CompareKey i ft, a) (?loop ft i a)"
        using miss occ i IH by (intro leads_step [of c "(CompareKey i ft, a)"]) (simp add: set_loop_pass Let_def)
      with miss have "leads c (TestExpiry i ft, a) (?loop ft i a)"
        by (intro leads_step [of c "(TestExpiry i ft, a)"]) (simp add: Let_def slot_simps)
      with miss show ?thesis by (intro leads_step [of c "(LoadFingerprint i ft, a)"]) simp
    qed
    with occ show ?thesis
      by (intro leads_step [of c "(LoadState i ft, a)"]) (simp add: Let_def)
  qed
  then show ?case by (simp add: next_probe_def i)
qed

definition call_of :: "u64 \<Rightarrow> bytes \<Rightarrow> bytes \<Rightarrow> u64 \<Rightarrow> set_call" where
  "call_of now key val ttl = \<lparr>call_now = now, call_key = key, call_val = val, call_expiry = ttl_to_expiry now ttl\<rparr>"

text \<open>
  The steps are the operation.  A thread that runs alone from any arena comes to its end after
  finitely many steps, with the arena and the result of \<open>hashmap_set\<close>.
\<close>

lemma set_steps_end:
  "\<exists>n. (set_step (call_of now key val ttl) ^^ n) (set_start, a) =
    (Done (snd (hashmap_set now key val ttl a)), fst (hashmap_set now key val ttl a))"
  using leads_probe [of 0 "call_of now key val ttl" None a]
  by (simp add: leads_def set_start_def call_of_def hashmap_set_def call_hash_def case_prod_beta)

section \<open>Two writers\<close>

text \<open>Both threads see the empty slot, then their stores alternate.\<close>

definition race :: "nat list" where
  "race = [0, 1, 0, 0, 0, 0, 1, 1, 1, 1, 1, 0, 0, 0, 0, 1, 1, 1]"

definition two_calls :: "set_call \<Rightarrow> set_call \<Rightarrow> nat \<Rightarrow> set_call" where
  "two_calls c0 c1 = (\<lambda>_. c1)(0 := c0)"

text \<open>
  C24: two writers can lose both keys.  Two SETs of different keys whose probing starts at the same
  empty slot run at the same time: there is an interleaving after which both have reported an
  insertion, the counter has grown by two, and GET finds neither key, because the slot holds the
  key of one under the fingerprint of the other.
\<close>

theorem racing_sets_lose_both_keys:
  fixes k0 k1 v0 v1 :: bytes and now :: u64
  assumes "siphash k0 \<noteq> siphash k1" "probe_start (siphash k0) = probe_start (siphash k1)"
    and "length k0 \<le> MAX_KEY_LEN" "length k1 \<le> MAX_KEY_LEN"
    and "slot_wf (slot a (probe (siphash k0) 0))" "state (slot a (probe (siphash k0) 0)) = STATE_EMPTY"
    and "state (slot a (probe (siphash k0) 1)) = STATE_EMPTY"
  defines "calls \<equiv> two_calls (call_of now k0 v0 0) (call_of now k1 v1 0)"
  shows "\<exists>pcs a'. run_schedule calls race (\<lambda>_. set_start, a) = (pcs, a') \<and>
    pcs 0 = Done Inserted \<and> pcs 1 = Done Inserted \<and> hashmap_used_count a' = hashmap_used_count a + 2 \<and>
    snd (hashmap_get t k0 a') = NotFound \<and> snd (hashmap_get t k1 a') = NotFound"
proof -
  let ?t = "probe (siphash k0) 0"
  have same: "probe (siphash k1) i = probe (siphash k0) i" for i
    using assms(2) by (simp add: probe_def)
  let ?torn = "\<lambda>s. (write_value v1 (write_key k1 (write_value v0 (write_key k0 s))))\<lparr>
    fingerprint := siphash k0, expires_at_ms := 0, state := STATE_OCCUPIED\<rparr>"
  define final where "final = add_used 1 (slot_mut ?t (\<lambda>s. s\<lparr>expires_at_ms := 0, state := STATE_OCCUPIED\<rparr>)
    (add_used 1 (slot_mut ?t ?torn a)))"
  have run: "run_schedule calls race (\<lambda>_. set_start, a) =
      ((\<lambda>_. LoadState 0 None)(0 := Done Inserted, 1 := Done Inserted), final)"
    using assms(6)
    by (simp add: final_def calls_def race_def set_start_def next_probe_def two_calls_def call_of_def
        call_hash_def same Let_def arena_simps slot_mut_slot_mut write_key_stores write_value_stores ttl_to_expiry_def)
  have at: "slot final ?t = ?torn (slot a ?t)" "slot final (probe (siphash k0) 1) = slot a (probe (siphash k0) 1)"
    using probe_0_1 [of "siphash k0"] by (simp_all add: final_def arena_simps)
  have key: "read_key (slot final ?t) = k1"
    using assms(4,5) by (simp add: at(1) slot_simps wf_intros)
  have one: "Suc 0 < SLOT_COUNT" by (simp add: SLOT_COUNT_def)
  have "k0 \<noteq> k1" using assms(1) by blast
  then have pass: "get_passes t (siphash k0) k0 (slot final ?t)" "get_passes t (siphash k1) k1 (slot final ?t)"
    using assms(1) key by (simp_all add: get_passes_def at(1) is_expired_def)
  have "state (slot final (probe (siphash k0) 1)) = STATE_EMPTY"
    using at(2) assms(7) by simp
  then have "snd (hashmap_get t k0 final) = NotFound" "snd (hashmap_get t k1 final) = NotFound"
    using pass one by (simp_all add: hashmap_get_def get_loop_pass get_loop_empty same)
  moreover have "hashmap_used_count final = hashmap_used_count a + 2"
    by (simp add: final_def hashmap_used_count_def arena_simps add_used_def)
  ultimately show ?thesis using run by simp
qed

lemma siphash_pair:
  "siphash [0, 111] = 15298504859657799628" "siphash [0, 118] = 4093994472382367692"
  by (simp_all add: siphash_eval)

theorem racing_sets_lose_both_keys_witness:
  "snd (hashmap_get 9 [0, 111] (snd (run_schedule
    (two_calls (call_of 5 [0, 111] [1] 0) (call_of 5 [0, 118] [2] 0)) race
    (\<lambda>_. set_start, fresh_arena blank_arena)))) = NotFound"
proof -
  have "probe_start (siphash [0, 111]) = probe_start (siphash [0, 118])"
    by (simp add: siphash_pair probe_start_mod SLOT_COUNT_def)
  from racing_sets_lose_both_keys [OF _ this, where a = "fresh_arena blank_arena" and now = 5
      and ?v0.0 = "[1]" and ?v1.0 = "[2]" and t = 9]
  show ?thesis
    by (auto simp: siphash_pair MAX_KEY_LEN_def arena_simps wf_slot [OF wf_fresh_blank])
qed

section \<open>Readers during one SET\<close>

definition claims :: "set_call \<Rightarrow> nat \<Rightarrow> arena \<Rightarrow> bool" where
  "claims c t b \<longleftrightarrow> (\<exists>j. t = probe (call_hash c) j \<and> can_claim b (call_key c) j)"

text \<open>What a thread at a place relies on; the stores of a claim that are done stay done.\<close>

fun place_ok :: "set_call \<Rightarrow> set_pc \<Rightarrow> arena \<Rightarrow> bool" where
  "place_ok c (LoadState i ft) b \<longleftrightarrow> i < SLOT_COUNT \<and> set_seen (call_now c) (call_key c) ft i b"
| "place_ok c (LoadFingerprint i ft) b \<longleftrightarrow> i < SLOT_COUNT \<and> set_seen (call_now c) (call_key c) ft i b \<and>
    state (slot b (probe (call_hash c) i)) = STATE_OCCUPIED"
| "place_ok c (TestExpiry i ft) b \<longleftrightarrow> i < SLOT_COUNT \<and> set_seen (call_now c) (call_key c) ft i b \<and>
    state (slot b (probe (call_hash c) i)) = STATE_OCCUPIED \<and>
    fingerprint (slot b (probe (call_hash c) i)) = call_hash c"
| "place_ok c (CompareKey i ft) b \<longleftrightarrow> i < SLOT_COUNT \<and> set_seen (call_now c) (call_key c) ft i b \<and>
    state (slot b (probe (call_hash c) i)) = STATE_OCCUPIED \<and>
    \<not> is_expired (call_now c) (slot b (probe (call_hash c) i))"
| "place_ok c (UpdateValBuf t) b \<longleftrightarrow> holds b t (call_key c)"
| "place_ok c (UpdateValLen t) b \<longleftrightarrow> holds b t (call_key c)"
| "place_ok c (UpdateExpiry t) b \<longleftrightarrow> holds b t (call_key c)"
| "place_ok c (ClaimKeyBuf t n) b \<longleftrightarrow> claims c t b"
| "place_ok c (ClaimKeyLen t n) b \<longleftrightarrow> claims c t b \<and>
    store_key_buf (call_key c) (slot b t) = slot b t"
| "place_ok c (ClaimValBuf t n) b \<longleftrightarrow> claims c t b \<and>
    store_key_len (call_key c) (store_key_buf (call_key c) (slot b t)) = slot b t"
| "place_ok c (ClaimValLen t n) b \<longleftrightarrow> claims c t b \<and>
    store_val_buf (call_val c) (store_key_len (call_key c) (store_key_buf (call_key c) (slot b t))) = slot b t"
| "place_ok c (ClaimFingerprint t n) b \<longleftrightarrow> claims c t b \<and>
    write_value (call_val c) (write_key (call_key c) (slot b t)) = slot b t"
| "place_ok c (ClaimExpiry t n) b \<longleftrightarrow> claims c t b \<and>
    (write_value (call_val c) (write_key (call_key c) (slot b t)))\<lparr>fingerprint := call_hash c\<rparr> = slot b t"
| "place_ok c (ClaimState t n) b \<longleftrightarrow> claims c t b \<and>
    claim_slot (call_hash c) (call_key c) (call_val c) (call_expiry c) (slot b t) =
      (slot b t)\<lparr>state := STATE_OCCUPIED\<rparr>"
| "place_ok c AddUsed b \<longleftrightarrow> True"
| "place_ok c (Done r) b \<longleftrightarrow> True"

lemma next_probe_ok:
  assumes "arena_wf b" "length (call_key c) \<le> MAX_KEY_LEN" "set_seen (call_now c) (call_key c) ft i b"
  shows "place_ok c (next_probe i ft) b"
proof (cases "i < SLOT_COUNT")
  case True
  with assms(3) show ?thesis by (simp add: next_probe_def)
next
  case False
  with set_seen_can_claim [OF assms(1) _ assms(2), of "call_now c" _ i] assms(3) show ?thesis
    by (cases ft) (simp_all add: next_probe_def claims_def call_hash_def)
qed

text \<open>A store to a slot that is not occupied does not show.\<close>

lemma hidden_store:
  assumes "arena_wf b" "claims c t b" "\<And>s. state (f s) = state s" "\<And>s. slot_wf s \<Longrightarrow> slot_wf (f s)"
  shows "arena_wf (slot_mut t f b)" "entry (slot_mut t f b) = entry b" "claims c t (slot_mut t f b)"
proof -
  have t: "state (slot b t) \<noteq> STATE_OCCUPIED" using assms(2) by (auto simp: claims_def can_claim_def call_hash_def)
  have holds: "holds (slot_mut t f b) i k = holds b i k" for i k
    using t assms(3) by (auto simp: holds_def arena_simps)
  show "arena_wf (slot_mut t f b)"
    using assms(1,3,4) t by (intro arena_wf_shrink [OF assms(1)])
      (auto simp: holds arena_simps wf_slot holds_def split: if_splits)
  show "entry (slot_mut t f b) = entry b"
    using t assms(3) by (intro ext entry_cong) (auto simp: holds arena_simps holds_def)
  have "state (slot (slot_mut t f b) i) = state (slot b i)" for i
    using assms(3) by (simp add: arena_simps)
  then show "claims c t (slot_mut t f b)"
    using assms(2) by (simp add: claims_def can_claim_def holds)
qed

text \<open>A store to the value or expiry of an occupied slot shows for its key only.\<close>

lemma value_store:
  assumes "arena_wf b" "holds b t key" "\<And>s. state (f s) = state s" "\<And>s. slot_wf s \<Longrightarrow> slot_wf (f s)"
    "\<And>s. read_key (f s) = read_key s" "\<And>s. fingerprint (f s) = fingerprint s"
  shows "arena_wf (slot_mut t f b)" "k \<noteq> key \<Longrightarrow> entry (slot_mut t f b) k = entry b k"
    "holds (slot_mut t f b) t key"
proof -
  have holds: "holds (slot_mut t f b) i k = holds b i k" for i k
    using assms(3,5) by (auto simp: holds_def arena_simps)
  show "arena_wf (slot_mut t f b)"
    using assms(1,3-6) by (intro arena_wf_shrink [OF assms(1)])
      (auto simp: holds arena_simps wf_slot holds_def split: if_splits)
  show "entry (slot_mut t f b) k = entry b k" if "k \<noteq> key"
    using that assms(2,3,5) by (intro entry_cong) (auto simp: holds arena_simps holds_def)
  show "holds (slot_mut t f b) t key" by (simp add: holds assms(2))
qed

definition undisturbed :: "set_call \<Rightarrow> arena \<Rightarrow> set_pc \<times> arena \<Rightarrow> bool" where
  "undisturbed c a x \<longleftrightarrow> arena_wf (snd x) \<and> place_ok c (fst x) (snd x) \<and>
    (\<forall>k. k \<noteq> call_key c \<longrightarrow> siphash k \<noteq> call_hash c \<longrightarrow> entry (snd x) k = entry a k)"

lemma undisturbed_hidden:
  assumes "undisturbed c a (pc, b)" "claims c t b" "\<And>s. state (f s) = state s" "\<And>s. slot_wf s \<Longrightarrow> slot_wf (f s)"
    and "claims c t (slot_mut t f b) \<Longrightarrow> slot (slot_mut t f b) t = f (slot b t) \<Longrightarrow> place_ok c pc' (slot_mut t f b)"
  shows "undisturbed c a (pc', slot_mut t f b)"
  using assms hidden_store [of b c t f] by (simp add: undisturbed_def arena_simps)

lemma undisturbed_value:
  assumes "undisturbed c a (pc, b)" "holds b t (call_key c)" "\<And>s. state (f s) = state s"
    "\<And>s. slot_wf s \<Longrightarrow> slot_wf (f s)" "\<And>s. read_key (f s) = read_key s" "\<And>s. fingerprint (f s) = fingerprint s"
    and "holds (slot_mut t f b) t (call_key c) \<Longrightarrow> place_ok c pc' (slot_mut t f b)"
  shows "undisturbed c a (pc', slot_mut t f b)"
  using assms value_store [of b t "call_key c" f] by (simp add: undisturbed_def)

lemma copy_prefix_twice [simp]: "copy_prefix (copy_prefix d xs) xs = copy_prefix d xs"
  by (simp add: copy_prefix_def)

lemma slot_wf_stores [wf_intros]:
  assumes "slot_wf s"
  shows "slot_wf (store_key_buf k s)" "slot_wf (store_key_len k s)" "slot_wf (store_val_buf v s)"
    "slot_wf (store_val_len v s)" "slot_wf (s\<lparr>expires_at_ms := e\<rparr>)" "slot_wf (s\<lparr>fingerprint := h\<rparr>)"
  using assms by (simp_all add: slot_wf_def store_key_buf_def store_key_len_def store_val_buf_def
      store_val_len_def model_consts)

lemma read_key_stores [slot_simps]:
  "read_key (store_val_buf v s) = read_key s" "read_key (store_val_len v s) = read_key s"
  "state (store_key_buf k s) = state s" "state (store_key_len k s) = state s"
  "state (store_val_buf v s) = state s" "state (store_val_len v s) = state s"
  "fingerprint (store_val_buf v s) = fingerprint s" "fingerprint (store_val_len v s) = fingerprint s"
  by (simp_all add: read_key_def store_key_buf_def store_key_len_def store_val_buf_def store_val_len_def)

lemma undisturbed_step:
  assumes inv: "undisturbed c a (pc, b)" and len: "length (call_key c) \<le> MAX_KEY_LEN"
  shows "undisturbed c a (set_step c (pc, b))"
proof -
  have wf: "arena_wf b" using inv by (simp add: undisturbed_def)
  show ?thesis
proof (cases pc)
  case (LoadState i ft)
  let ?i = "probe (siphash (call_key c)) i"
  have i: "i < SLOT_COUNT" and seen: "set_seen (call_now c) (call_key c) ft i b"
    using inv LoadState by (simp_all add: undisturbed_def)
  consider (empty) "state (slot b ?i) = STATE_EMPTY"
    | (tomb) "state (slot b ?i) = STATE_TOMBSTONE"
    | (occ) "state (slot b ?i) = STATE_OCCUPIED"
    | (other) "state (slot b ?i) \<notin> {STATE_EMPTY, STATE_TOMBSTONE, STATE_OCCUPIED}" by blast
  then show ?thesis
  proof cases
    case empty
    have "claims c (case ft of Some t \<Rightarrow> t | None \<Rightarrow> ?i) b"
      using set_seen_can_claim [OF wf _ len, of "call_now c" _ i] set_seen_absent [OF wf seen] seen empty i len
      by (cases ft) (auto simp: claims_def call_hash_def can_claim_def set_seen_def)
    with inv empty show ?thesis by (simp add: LoadState undisturbed_def call_hash_def Let_def)
  next
    case tomb
    with inv next_probe_ok [OF wf len set_seen_tombstone [OF seen i]] show ?thesis
      by (simp add: LoadState undisturbed_def call_hash_def Let_def)
  next
    case occ
    with inv show ?thesis by (simp add: LoadState undisturbed_def call_hash_def Let_def)
  next
    case other
    then have "set_seen (call_now c) (call_key c) ft (Suc i) b"
      by (intro set_seen_Suc [OF seen i]) (auto simp: holds_def evictable_def)
    with inv other next_probe_ok [OF wf len] show ?thesis
      by (simp add: LoadState undisturbed_def call_hash_def Let_def)
  qed
next
  case (LoadFingerprint i ft)
  let ?i = "probe (siphash (call_key c)) i"
  have i: "i < SLOT_COUNT" and seen: "set_seen (call_now c) (call_key c) ft i b"
    and occ: "state (slot b ?i) = STATE_OCCUPIED"
    using inv LoadFingerprint by (simp_all add: undisturbed_def call_hash_def)
  show ?thesis
  proof (cases "fingerprint (slot b ?i) = call_hash c")
    case True
    with inv show ?thesis by (simp add: LoadFingerprint undisturbed_def call_hash_def)
  next
    case False
    then have "set_seen (call_now c) (call_key c) ft (Suc i) b"
      using occ wf_fingerprint [OF wf, of ?i]
      by (intro set_seen_Suc [OF seen i]) (auto simp: evictable_def call_hash_def)
    with inv False next_probe_ok [OF wf len] show ?thesis
      by (simp add: LoadFingerprint undisturbed_def call_hash_def)
  qed
next
  case (TestExpiry i ft)
  let ?i = "probe (siphash (call_key c)) i"
  have i: "i < SLOT_COUNT" and seen: "set_seen (call_now c) (call_key c) ft i b"
    and occ: "state (slot b ?i) = STATE_OCCUPIED" "fingerprint (slot b ?i) = siphash (call_key c)"
    using inv TestExpiry by (simp_all add: undisturbed_def call_hash_def)
  show ?thesis
  proof (cases "is_expired (call_now c) (slot b ?i)")
    case True
    have "set_seen (call_now c) (call_key c) (first_some ft ?i) (Suc i) (bury ?i b)"
      using i by (intro set_seen_tombstone set_seen_bury seen) (simp_all add: arena_simps)
    note ok = next_probe_ok [OF wf_bury [OF wf] len this]
    have held: "holds b ?i (read_key (slot b ?i))" by (rule holds_occupied) (simp_all add: occ)
    with wf_fingerprint [OF wf held] occ(2) have "siphash (read_key (slot b ?i)) = siphash (call_key c)" by simp
    then have "entry (bury ?i b) k = entry b k" if "siphash k \<noteq> siphash (call_key c)" for k
      using that entry_bury [OF wf held] by auto
    with inv ok evict_is_bury [OF occ(1) True] True wf_bury [OF wf, of ?i] show ?thesis
      by (simp add: TestExpiry undisturbed_def call_hash_def Let_def slot_simps)
  next
    case False
    with inv show ?thesis by (simp add: TestExpiry undisturbed_def call_hash_def Let_def slot_simps)
  qed
next
  case (CompareKey i ft)
  let ?i = "probe (siphash (call_key c)) i"
  have i: "i < SLOT_COUNT" and seen: "set_seen (call_now c) (call_key c) ft i b"
    and occ: "state (slot b ?i) = STATE_OCCUPIED" "\<not> is_expired (call_now c) (slot b ?i)"
    using inv CompareKey by (simp_all add: undisturbed_def call_hash_def)
  show ?thesis
  proof (cases "read_key (slot b ?i) = call_key c")
    case True
    with inv occ show ?thesis by (simp add: CompareKey undisturbed_def call_hash_def Let_def holds_def)
  next
    case False
    then have "set_seen (call_now c) (call_key c) ft (Suc i) b"
      using occ by (intro set_seen_Suc [OF seen i]) (auto simp: evictable_def holds_def)
    with inv False next_probe_ok [OF wf len] show ?thesis
      by (simp add: CompareKey undisturbed_def call_hash_def Let_def)
  qed
next
  case (UpdateValBuf t)
  show ?thesis
    unfolding UpdateValBuf set_step.simps
    by (rule undisturbed_value [OF inv])
      (use inv UpdateValBuf in \<open>simp_all add: undisturbed_def slot_simps wf_intros\<close>)
next
  case (UpdateValLen t)
  show ?thesis
    unfolding UpdateValLen set_step.simps
    by (rule undisturbed_value [OF inv])
      (use inv UpdateValLen in \<open>simp_all add: undisturbed_def slot_simps wf_intros\<close>)
next
  case (UpdateExpiry t)
  show ?thesis
    unfolding UpdateExpiry set_step.simps
    by (rule undisturbed_value [OF inv])
      (use inv UpdateExpiry in \<open>simp_all add: undisturbed_def slot_simps wf_intros read_key_def\<close>)
next
  case (ClaimKeyBuf t n)
  show ?thesis
    unfolding ClaimKeyBuf set_step.simps
    by (rule undisturbed_hidden [OF inv])
      (use inv ClaimKeyBuf in \<open>simp_all add: undisturbed_def slot_simps slot_wf_def MAX_KEY_LEN_def MAX_VAL_LEN_def store_key_buf_def\<close>)
next
  case (ClaimKeyLen t n)
  show ?thesis
    unfolding ClaimKeyLen set_step.simps
    by (rule undisturbed_hidden [OF inv])
      (use inv ClaimKeyLen in \<open>simp_all add: undisturbed_def slot_simps slot_wf_def MAX_KEY_LEN_def MAX_VAL_LEN_def store_key_len_def store_key_buf_def\<close>)
next
  case (ClaimValBuf t n)
  show ?thesis
    unfolding ClaimValBuf set_step.simps
    by (rule undisturbed_hidden [OF inv])
      (use inv ClaimValBuf in \<open>simp_all add: undisturbed_def slot_simps slot_wf_def MAX_KEY_LEN_def MAX_VAL_LEN_def store_val_buf_def store_key_len_def store_key_buf_def\<close>)
next
  case (ClaimValLen t n)
  show ?thesis
    unfolding ClaimValLen set_step.simps
    by (rule undisturbed_hidden [OF inv])
      (use inv ClaimValLen in \<open>simp_all add: undisturbed_def slot_simps slot_wf_def MAX_KEY_LEN_def MAX_VAL_LEN_def write_value_stores write_key_stores store_val_len_def store_val_buf_def store_key_len_def store_key_buf_def\<close>)
next
  case (ClaimFingerprint t n)
  show ?thesis
    unfolding ClaimFingerprint set_step.simps
    by (rule undisturbed_hidden [OF inv])
      (use inv ClaimFingerprint in \<open>simp_all add: undisturbed_def slot_simps slot_wf_def MAX_KEY_LEN_def MAX_VAL_LEN_def write_value_stores write_key_stores store_val_len_def store_val_buf_def store_key_len_def store_key_buf_def\<close>)
next
  case (ClaimExpiry t n)
  show ?thesis
    unfolding ClaimExpiry set_step.simps
    by (rule undisturbed_hidden [OF inv])
      (use inv ClaimExpiry in \<open>simp_all add: undisturbed_def slot_simps slot_wf_def MAX_KEY_LEN_def MAX_VAL_LEN_def claim_slot_stores write_value_stores write_key_stores store_val_len_def store_val_buf_def store_key_len_def store_key_buf_def\<close>)
next
  case (ClaimState t n)
  then obtain j where j: "t = probe (siphash (call_key c)) j" "can_claim b (call_key c) j"
    and full: "claim_slot (siphash (call_key c)) (call_key c) (call_val c) (call_expiry c) (slot b t) =
      (slot b t)\<lparr>state := STATE_OCCUPIED\<rparr>"
    using inv by (auto simp: undisturbed_def claims_def call_hash_def)
  have "slot_mut t (\<lambda>s. s\<lparr>state := STATE_OCCUPIED\<rparr>) b = claim (call_key c) (call_val c) (call_expiry c) t b"
    using full by (simp add: claim_def slot_mut_def slot_def)
  with inv wf_claim [OF wf j(2)] entry_claim [OF wf j(2)] show ?thesis
    by (simp add: ClaimState undisturbed_def j(1))
next
  case AddUsed
  with inv show ?thesis by (simp add: undisturbed_def arena_simps)
next
  case (Done r)
  with inv show ?thesis by (simp add: undisturbed_def)
qed
qed

lemma undisturbed_run:
  assumes "arena_wf a" "length (call_key c) \<le> MAX_KEY_LEN"
  shows "undisturbed c a ((set_step c ^^ n) (set_start, a))"
proof (induction n)
  case 0
  have "set_seen (call_now c) (call_key c) None 0 a" by (simp add: set_seen_def)
  with next_probe_ok [OF assms this] assms(1) show ?case
    by (simp add: undisturbed_def set_start_def)
next
  case (Suc n)
  obtain pc b where "(set_step c ^^ n) (set_start, a) = (pc, b)" by fastforce
  with Suc undisturbed_step [OF _ assms(2), of a pc b] show ?case by simp
qed

text \<open>
  One writer does not disturb readers of other keys.  Stop a SET after any number of its steps:
  a GET of a key with another hash, which no third key shares, gives what it would have given
  before the SET began, and the arena is well-formed.
\<close>

theorem readers_during_set:
  fixes now ttl :: u64 and key val :: bytes and n :: nat
  assumes "arena_wf a" "length key \<le> MAX_KEY_LEN" "siphash k \<noteq> siphash key"
    and "\<forall>k'\<in>dom (entry a). siphash k' = siphash k \<longrightarrow> k' = k"
  defines "b \<equiv> snd ((set_step (call_of now key val ttl) ^^ n) (set_start, a))"
  shows "arena_wf b \<and> snd (hashmap_get t k b) = spec_get t k (entry a)"
proof -
  have inv: "arena_wf b" "\<And>k'. k' \<noteq> key \<Longrightarrow> siphash k' \<noteq> siphash key \<Longrightarrow> entry b k' = entry a k'"
    using undisturbed_run [of a "call_of now key val ttl" n] assms(1,2)
    by (simp_all add: undisturbed_def b_def call_of_def call_hash_def)
  have "k' = k" if "k' \<in> dom (entry b)" "siphash k' = siphash k" for k'
  proof -
    have "entry b k' = entry a k'" using inv(2) [of k'] that(2) assms(3) by force
    then have "k' \<in> dom (entry a)" using that(1) by (simp add: domIff)
    with that(2) assms(4) show ?thesis by blast
  qed
  with hashmap_get_spec(1) [OF inv(1), of k t] have "snd (hashmap_get t k b) = spec_get t k (entry b)" by blast
  also have "\<dots> = spec_get t k (entry a)"
    using inv(2) [of k, OF _ assms(3)] assms(3) by (cases "k = key") (simp_all add: spec_get_def)
  finally show ?thesis using inv(1) by blast
qed

theorem readers_during_set_witness:
  "snd (hashmap_get 9 [0, 111] (snd ((set_step (call_of 5 [0, 118] [1] 0) ^^ 6)
    (set_start, fresh_arena blank_arena)))) = NotFound"
  using readers_during_set [OF wf_fresh_blank, where key = "[0, 118]" and k = "[0, 111]" and now = 5
      and val = "[1]" and ttl = 0 and n = 6 and t = 9]
  by (simp add: siphash_pair entry_fresh_blank MAX_KEY_LEN_def)

text \<open>
  An update is not atomic.  A SET that replaces a value by a longer one, stopped between its two
  stores to the value, shows a GET of the key the new bytes cut to the old length: neither the old
  value nor the new one.
\<close>

theorem update_shows_torn_value:
  fixes now ttl :: u64 and key new :: bytes
  assumes wf: "arena_wf a" and held: "holds a (probe (siphash key) 0) key"
    and e: "entry a key = Some (old, e)" "\<not> expired_at now e"
    and sep: "\<forall>k\<in>dom (entry a). siphash k = siphash key \<longrightarrow> k = key"
    and len: "length old \<le> length new" "length new \<le> MAX_VAL_LEN"
  defines "b \<equiv> snd ((set_step (call_of now key new ttl) ^^ 5) (set_start, a))"
  shows "snd (hashmap_get now key b) = Found (take (length old) new)"
proof -
  let ?t = "probe (siphash key) 0" and ?c = "call_of now key new ttl"
  have ent: "read_value (slot a ?t) = old" "expires_at_ms (slot a ?t) = e"
    using entry_holds [OF wf held] e(1) by simp_all
  have s: "state (slot a ?t) = STATE_OCCUPIED" "read_key (slot a ?t) = key"
    "fingerprint (slot a ?t) = siphash key" "\<not> is_expired now (slot a ?t)"
    using held wf_fingerprint [OF wf held] e(2) ent(2) by (simp_all add: holds_def is_expired_iff)
  have five: "(5 :: nat) = Suc (Suc (Suc (Suc (Suc 0))))" by simp
  have b: "b = slot_mut ?t (store_val_buf new) a"
    unfolding b_def five using s
    by (simp add: set_start_def next_probe_def call_of_def call_hash_def Let_def slot_simps)
  note st = value_store [OF wf held, of "store_val_buf new", folded b]
  have wfb: "arena_wf b" and other: "\<And>k. k \<noteq> key \<Longrightarrow> entry b k = entry a k" and hb: "holds b ?t key"
    using st by (simp_all add: slot_simps wf_intros)
  have "slot_wf (slot a ?t)" using wf by (simp add: wf_slot)
  then have "length old = unat (val_len (slot a ?t))"
    using ent(1) by (auto simp: read_value_def slot_wf_def Let_def)
  then have "read_value (slot b ?t) = take (length old) new"
    using len \<open>slot_wf (slot a ?t)\<close>
    by (simp add: b arena_simps read_value_def store_val_buf_def copy_prefix_def slot_wf_def Let_def)
  moreover have "expires_at_ms (slot b ?t) = e"
    using ent(2) by (simp add: b arena_simps store_val_buf_def)
  ultimately have "entry b key = Some (take (length old) new, e)"
    using entry_holds [OF wfb hb] by simp
  moreover have "\<forall>k\<in>dom (entry b). siphash k = siphash key \<longrightarrow> k = key"
    using sep other by (metis domIff)
  ultimately show ?thesis
    using hashmap_get_spec(1) [OF wfb, of key now] e(2) by simp
qed

theorem update_shows_torn_value_witness:
  "snd (hashmap_get 6 [1] (snd ((set_step (call_of 6 [1] [8, 9] 0) ^^ 5)
    (set_start, fst (hashmap_set 5 [1] [7] 0 (fresh_arena blank_arena)))))) = Found [8]"
proof -
  let ?a = "fst (hashmap_set 5 [1] [7] 0 (fresh_arena blank_arena))"
  have "arena_wf ?a" by (rule wf_hashmap_set [OF wf_fresh_blank]) (simp add: MAX_KEY_LEN_def)
  moreover have "holds ?a (probe (siphash [1]) 0) [1]"
    by (simp add: set_fresh holds_def arena_simps slot_simps wf_slot [OF wf_fresh_blank] MAX_KEY_LEN_def)
  moreover have "entry ?a = [[1] \<mapsto> ([7], 0)]"
    using entry_set_fresh [of "[1]" 5 "[7]" 0] by (simp add: MAX_KEY_LEN_def MAX_VAL_LEN_def)
  ultimately show ?thesis
    using update_shows_torn_value [where a = ?a and key = "[1]" and old = "[7]" and new = "[8, 9]" and e = 0
        and now = 6 and ttl = 0] by (simp add: MAX_VAL_LEN_def)
qed

text \<open>
  INCR is not atomic.  If a second client's INCR runs between the GET and the SET of a first
  one's, both answer the same number and the key has advanced by one only.
\<close>

theorem incr_loses_update:
  fixes t0 t1 t2 t3 n :: u64
  assumes "client_ok K a" "k \<in> K" "length k \<le> MAX_KEY_LEN" "entry a k = Some (show_nat (unat n), 0)"
  defines "a1 \<equiv> fst (client_get t0 k a)" and "next0 \<equiv> read_number (Some (show_nat (unat n))) + 1"
  defines "a2 \<equiv> fst (client_incr t1 t2 k a1)"
  defines "a3 \<equiv> fst (client_set t3 k (show_nat (unat next0)) 0 a2)"
  shows "snd (client_get t0 k a) = Ok (Some (show_nat (unat n))) \<and> snd (client_incr t1 t2 k a1) = Ok (n + 1) \<and>
    next0 = n + 1 \<and> entry a3 k = Some (show_nat (unat (n + 1)), 0)"
proof -
  have live: "live t (entry a) k = Some (show_nat (unat n))" for t
    using assms(4) by (simp add: live_def)
  note get = client_get_spec [OF assms(1-3), of t0]
  have a1: "client_ok K a1" "entry a1 = entry a"
    using get live [of t0] by (auto simp: a1_def purge_def live_def split: get_result.splits)
  note incr = incr_spec [OF a1(1) assms(2,3), of t1 t2, unfolded a1(2) live]
  have next0: "next0 = n + 1" by (simp add: next0_def)
  have a2: "client_ok K a2" "live t3 (entry a2) k \<noteq> None" "entry a2 k = Some (show_nat (unat (n + 1)), 0)"
    using incr by (simp_all add: a2_def live_def)
  have "entry a3 k = Some (show_nat (unat (n + 1)), 0)"
    using client_set_spec(3) [OF a2(1) assms(2,3) length_show_u64, of t3 "n + 1" 0]
      set_live [OF client_ok_wf [OF a2(1)] assms(3) a2(2)]
    by (simp add: a3_def next0)
  with get live incr next0 show ?thesis by simp
qed

theorem incr_loses_update_witness:
  "snd (client_incr 7 8 [1] (fst (client_get 6 [1]
    (fst (client_set 5 [1] (show_nat (unat (41 :: u64))) 0 (fresh_arena blank_arena)))))) = Ok 42"
proof -
  have len: "length (show_nat (unat (41 :: u64))) \<le> MAX_VAL_LEN" "length [1 :: u8] \<le> MAX_KEY_LEN"
    by (rule length_show_u64) (simp add: MAX_KEY_LEN_def)
  note ent = entry_set_fresh_client [where now = 5 and ttl = 0, OF len]
  have "entry (fst (client_set 5 [1] (show_nat (unat (41 :: u64))) 0 (fresh_arena blank_arena))) [1] =
      Some (show_nat (unat (41 :: u64)), 0)"
    by (simp only: ent(2)) simp
  from incr_loses_update [OF ent(1) _ len(2) this, of 6 7 8] show ?thesis by simp
qed

end
