(* ===== verification/Interleaving.thy ===== *)
theory Interleaving
  imports Concurrency
begin

text \<open>
  GET and DEL as other threads see them, and threads that run any of the three operations.  \<open>get\<close> and
  \<open>del\<close> of \<open>src/hashmap.rs\<close> with \<open>lazy_evict_if_expired\<close> of \<open>src/ttl.rs\<close> are taken apart like SET in
  \<open>Concurrency\<close>, but with the expiry test and the compare-and-exchange that follows it as two steps.
\<close>

section \<open>GET in steps\<close>

datatype get_pc =
    GetState nat | GetFingerprint nat | GetExpiry nat | GetEvict nat | GetKey nat | GetValue nat
  | GetDone get_result

definition get_next :: "nat \<Rightarrow> get_pc" where
  "get_next i = (if i < SLOT_COUNT then GetState i else GetDone NotFound)"

fun get_step :: "u64 \<Rightarrow> bytes \<Rightarrow> get_pc \<times> arena \<Rightarrow> get_pc \<times> arena" where
  "get_step now key (GetState i, a) =
    (let st = state (slot a (probe (siphash key) i))
     in (if st = STATE_EMPTY then GetDone NotFound
         else if st = STATE_OCCUPIED then GetFingerprint i
         else get_next (Suc i), a))"
| "get_step now key (GetFingerprint i, a) =
    (if fingerprint (slot a (probe (siphash key) i)) \<noteq> siphash key then get_next (Suc i) else GetExpiry i, a)"
| "get_step now key (GetExpiry i, a) =
    (if is_expired now (slot a (probe (siphash key) i)) then GetEvict i else GetKey i, a)"
| "get_step now key (GetEvict i, a) =
    (GetDone Expired, slot_mut (probe (siphash key) i)
      (\<lambda>s. fst (compare_exchange_state STATE_OCCUPIED STATE_TOMBSTONE s)) a)"
| "get_step now key (GetKey i, a) =
    (if read_key (slot a (probe (siphash key) i)) \<noteq> key then get_next (Suc i) else GetValue i, a)"
| "get_step now key (GetValue i, a) = (GetDone (Found (read_value (slot a (probe (siphash key) i)))), a)"
| "get_step now key (GetDone r, a) = (GetDone r, a)"

section \<open>DEL in steps\<close>

datatype del_pc = DelState nat | DelFingerprint nat | DelKey nat | DelSwap nat | DelCount | DelDone del_result

definition del_next :: "nat \<Rightarrow> del_pc" where
  "del_next i = (if i < SLOT_COUNT then DelState i else DelDone DelNotFound)"

fun del_step :: "bytes \<Rightarrow> del_pc \<times> arena \<Rightarrow> del_pc \<times> arena" where
  "del_step key (DelState i, a) =
    (let st = state (slot a (probe (siphash key) i))
     in (if st = STATE_EMPTY then DelDone DelNotFound
         else if st = STATE_OCCUPIED then DelFingerprint i
         else del_next (Suc i), a))"
| "del_step key (DelFingerprint i, a) =
    (if fingerprint (slot a (probe (siphash key) i)) \<noteq> siphash key then del_next (Suc i) else DelKey i, a)"
| "del_step key (DelKey i, a) =
    (if read_key (slot a (probe (siphash key) i)) \<noteq> key then del_next (Suc i) else DelSwap i, a)"
| "del_step key (DelSwap i, a) =
    (let cas = compare_exchange_state STATE_OCCUPIED STATE_TOMBSTONE
     in if snd (cas (slot a (probe (siphash key) i)))
        then (DelCount, slot_mut (probe (siphash key) i) (\<lambda>s. fst (cas s)) a)
        else (del_next (Suc i), a))"
| "del_step key (DelCount, a) = (DelDone Deleted, add_used (- 1) a)"
| "del_step key (DelDone r, a) = (DelDone r, a)"

section \<open>Threads\<close>

datatype operation = Setting set_call | Getting u64 bytes | Deleting bytes

datatype place = AtSet set_pc | AtGet get_pc | AtDel del_pc

fun op_start :: "operation \<Rightarrow> place" where
  "op_start (Setting c) = AtSet set_start"
| "op_start (Getting now key) = AtGet (get_next 0)"
| "op_start (Deleting key) = AtDel (del_next 0)"

fun op_step :: "operation \<Rightarrow> place \<times> arena \<Rightarrow> place \<times> arena" where
  "op_step (Setting c) (AtSet pc, a) = (case set_step c (pc, a) of (pc', a') \<Rightarrow> (AtSet pc', a'))"
| "op_step (Getting now key) (AtGet pc, a) = (case get_step now key (pc, a) of (pc', a') \<Rightarrow> (AtGet pc', a'))"
| "op_step (Deleting key) (AtDel pc, a) = (case del_step key (pc, a) of (pc', a') \<Rightarrow> (AtDel pc', a'))"
| "op_step _ x = x"

text \<open>A schedule is the list of the threads that take the steps.\<close>

fun run_threads :: "(nat \<Rightarrow> operation) \<Rightarrow> nat list \<Rightarrow> (nat \<Rightarrow> place) \<times> arena \<Rightarrow> (nat \<Rightarrow> place) \<times> arena" where
  "run_threads ops [] (pcs, a) = (pcs, a)"
| "run_threads ops (t # ts) (pcs, a) =
    (case op_step (ops t) (pcs t, a) of (pc, a') \<Rightarrow> run_threads ops ts (pcs(t := pc), a'))"

lemma run_threads_invariant:
  assumes "\<And>pcs b t pc b'. Q (pcs, b) \<Longrightarrow> t \<in> T \<Longrightarrow> op_step (ops t) (pcs t, b) = (pc, b') \<Longrightarrow> Q (pcs(t := pc), b')"
    and "Q x" "List.set ts \<subseteq> T"
  shows "Q (run_threads ops ts x)"
  using assms(2,3)
proof (induction ts arbitrary: x)
  case Nil
  then show ?case by (cases x) simp
next
  case (Cons t ts)
  obtain pcs b where x: "x = (pcs, b)" by fastforce
  obtain pc b' where step: "op_step (ops t) (pcs t, b) = (pc, b')" by fastforce
  have "Q (pcs(t := pc), b')" by (rule assms(1) [of pcs b t]) (use Cons.prems step in \<open>simp_all add: x\<close>)
  from Cons.IH [OF this] Cons.prems(2) show ?case by (simp add: x step)
qed

lemma run_threads_idle: "t \<notin> List.set ts \<Longrightarrow> run_threads ops ts (pcs, a) = (pcs', b) \<Longrightarrow> pcs' t = pcs t"
proof (induction ts arbitrary: pcs a)
  case (Cons u ts)
  obtain p a' where step: "op_step (ops u) (pcs u, a) = (p, a')" by fastforce
  define q where "q = pcs(u := p)"
  have "run_threads ops ts (q, a') = (pcs', b)" using Cons.prems(2) step by (simp add: q_def)
  with Cons show ?case by (simp add: q_def)
qed simp

section \<open>One thread alone\<close>

text \<open>Steps of one operation that nothing interrupts.\<close>

definition reaches :: "('x \<Rightarrow> 'x) \<Rightarrow> 'x \<Rightarrow> 'x \<Rightarrow> bool" where
  "reaches f x y \<longleftrightarrow> (\<exists>n. (f ^^ n) x = y)"

lemma funpow_fixed: "f x = x \<Longrightarrow> (f ^^ n) x = x"
  by (induction n) simp_all

lemma reaches_refl [intro]: "reaches f x x"
  unfolding reaches_def by (rule exI [of _ 0]) simp

lemma reaches_step: "reaches f (f x) y \<Longrightarrow> reaches f x y"
  unfolding reaches_def by (auto simp: funpow_Suc_right simp del: funpow.simps(2) intro: exI [of _ "Suc n" for n])

lemma reaches_step_eq: "f x = x' \<Longrightarrow> reaches f x' y \<Longrightarrow> reaches f x y"
  by (rule reaches_step) simp

lemma reaches_one: "f x = y \<Longrightarrow> reaches f x y"
  by (rule reaches_step) (simp add: reaches_refl)

lemma reaches_map:
  assumes "reaches f x y" "\<And>z. g (h z) = h (f z)"
  shows "reaches g (h x) (h y)"
proof -
  have "(g ^^ n) (h z) = h ((f ^^ n) z)" for n z
    by (induction n) (simp_all add: assms(2))
  then show ?thesis using assms(1) by (auto simp: reaches_def)
qed

lemma get_reaches:
  "reaches (get_step now key) (get_next i, a)
    (case get_loop now (siphash key) key i a of (a', r) \<Rightarrow> (GetDone r, a'))"
proof (induction "SLOT_COUNT - i" arbitrary: i)
  case 0
  then show ?case by (simp add: get_next_def get_loop_end reaches_refl)
next
  case (Suc n)
  let ?s = "slot a (probe (siphash key) i)" and ?to = "reaches (get_step now key)"
  let ?goal = "case get_loop now (siphash key) key i a of (a', r) \<Rightarrow> (GetDone r, a')"
  have i: "i < SLOT_COUNT" using Suc.hyps(2) by simp
  have rest: "?to (get_next (Suc i), a) ?goal" if "get_passes now (siphash key) key ?s"
    using Suc.hyps by (simp add: get_loop_pass [OF i that])
  have one: "?to x ?goal" if "get_step now key x = ?goal" for x
    by (rule reaches_one) (rule that)
  have found: "?to (GetKey i, a) ?goal"
    if "state ?s = STATE_OCCUPIED" "fingerprint ?s = siphash key" "\<not> is_expired now ?s"
  proof (cases "read_key ?s = key")
    case True
    then have "?to (GetValue i, a) ?goal" using that by (intro one) (simp add: get_loop_found [OF i])
    then show ?thesis by (rule reaches_step_eq [rotated]) (simp add: True)
  next
    case False
    then have "?to (get_next (Suc i), a) ?goal" using that by (intro rest) (simp add: get_passes_def)
    then show ?thesis by (rule reaches_step_eq [rotated]) (simp add: False)
  qed
  have expiry: "?to (GetExpiry i, a) ?goal" if "state ?s = STATE_OCCUPIED" "fingerprint ?s = siphash key"
  proof (cases "is_expired now ?s")
    case True
    have "slot_mut (probe (siphash key) i) (\<lambda>s. fst (lazy_evict_if_expired now s)) a =
        slot_mut (probe (siphash key) i) (\<lambda>s. fst (compare_exchange_state STATE_OCCUPIED STATE_TOMBSTONE s)) a"
      using True by (simp add: slot_mut_def slot_def lazy_evict_if_expired_def)
    then have "?to (GetEvict i, a) ?goal" using that True by (intro one) (simp add: get_loop_expired [OF i])
    then show ?thesis by (rule reaches_step_eq [rotated]) (simp add: True)
  next
    case False
    from found [OF that False] show ?thesis by (rule reaches_step_eq [rotated]) (simp add: False)
  qed
  have fp: "?to (GetFingerprint i, a) ?goal" if "state ?s = STATE_OCCUPIED"
  proof (cases "fingerprint ?s = siphash key")
    case True
    from expiry [OF that True] show ?thesis by (rule reaches_step_eq [rotated]) (simp add: True)
  next
    case False
    then have "?to (get_next (Suc i), a) ?goal" by (intro rest) (simp add: get_passes_def that)
    then show ?thesis by (rule reaches_step_eq [rotated]) (simp add: False)
  qed
  consider (empty) "state ?s = STATE_EMPTY" | (occ) "state ?s = STATE_OCCUPIED"
    | (other) "state ?s \<notin> {STATE_EMPTY, STATE_OCCUPIED}" by blast
  then have "?to (GetState i, a) ?goal"
  proof cases
    case empty
    then show ?thesis by (intro one) (simp add: get_loop_empty [OF i])
  next
    case occ
    from fp [OF occ] show ?thesis by (rule reaches_step_eq [rotated]) (simp add: occ Let_def)
  next
    case other
    then have "?to (get_next (Suc i), a) ?goal" by (intro rest) (simp add: get_passes_def)
    then show ?thesis by (rule reaches_step_eq [rotated]) (use other in \<open>simp add: Let_def\<close>)
  qed
  then show ?case by (simp add: get_next_def i)
qed

lemma del_reaches:
  "reaches (del_step key) (del_next i, a)
    (case del_loop (siphash key) key i a of (a', r) \<Rightarrow> (DelDone r, a'))"
proof (induction "SLOT_COUNT - i" arbitrary: i)
  case 0
  then show ?case by (simp add: del_next_def del_loop_end reaches_refl)
next
  case (Suc n)
  let ?s = "slot a (probe (siphash key) i)" and ?to = "reaches (del_step key)"
  let ?goal = "case del_loop (siphash key) key i a of (a', r) \<Rightarrow> (DelDone r, a')"
  have i: "i < SLOT_COUNT" using Suc.hyps(2) by simp
  have rest: "?to (del_next (Suc i), a) ?goal" if "\<not> del_hits (siphash key) key ?s" "state ?s \<noteq> STATE_EMPTY"
    using Suc.hyps by (simp add: del_loop_pass [OF i that])
  have swap: "?to (DelSwap i, a) ?goal" if hit: "del_hits (siphash key) key ?s"
  proof -
    let ?b = "slot_mut (probe (siphash key) i) (\<lambda>s. s\<lparr>state := STATE_TOMBSTONE\<rparr>) a"
    have "?to (DelCount, ?b) ?goal"
      by (rule reaches_one) (simp add: del_loop_hit [OF i hit])
    then show ?thesis
      by (rule reaches_step_eq [rotated])
        (use hit in \<open>simp add: Let_def compare_exchange_state_def del_hits_def slot_mut_def slot_def\<close>)
  qed
  have key: "?to (DelKey i, a) ?goal" if "state ?s = STATE_OCCUPIED" "fingerprint ?s = siphash key"
  proof (cases "read_key ?s = key")
    case True
    have "del_hits (siphash key) key ?s" using that True by (simp add: del_hits_def)
    from swap [OF this] show ?thesis by (rule reaches_step_eq [rotated]) (simp add: True)
  next
    case False
    then have "?to (del_next (Suc i), a) ?goal" using that by (intro rest) (simp_all add: del_hits_def)
    then show ?thesis by (rule reaches_step_eq [rotated]) (simp add: False)
  qed
  have fp: "?to (DelFingerprint i, a) ?goal" if "state ?s = STATE_OCCUPIED"
  proof (cases "fingerprint ?s = siphash key")
    case True
    from key [OF that True] show ?thesis by (rule reaches_step_eq [rotated]) (simp add: True)
  next
    case False
    then have "?to (del_next (Suc i), a) ?goal" by (intro rest) (simp_all add: del_hits_def that)
    then show ?thesis by (rule reaches_step_eq [rotated]) (simp add: False)
  qed
  consider (empty) "state ?s = STATE_EMPTY" | (occ) "state ?s = STATE_OCCUPIED"
    | (other) "state ?s \<notin> {STATE_EMPTY, STATE_OCCUPIED}" by blast
  then have "?to (DelState i, a) ?goal"
  proof cases
    case empty
    show ?thesis
      by (rule reaches_one) (simp add: empty del_loop_empty [OF i empty])
  next
    case occ
    from fp [OF occ] show ?thesis by (rule reaches_step_eq [rotated]) (simp add: occ Let_def)
  next
    case other
    then have "?to (del_next (Suc i), a) ?goal" by (intro rest) (simp_all add: del_hits_def)
    then show ?thesis by (rule reaches_step_eq [rotated]) (use other in \<open>simp add: Let_def\<close>)
  qed
  then show ?case by (simp add: del_next_def i)
qed


section \<open>A GET during a SET of another key\<close>

text \<open>What a reader of \<open>key\<close> relies on from one arena to the next.\<close>

definition keeps :: "bytes \<Rightarrow> arena \<Rightarrow> arena \<Rightarrow> bool" where
  "keeps key b b' \<longleftrightarrow>
    (\<forall>i. (holds b' i key \<longleftrightarrow> holds b i key) \<and> (holds b i key \<longrightarrow> slot b' i = slot b i) \<and>
      (fingerprint (slot b' i) = siphash key \<longrightarrow> fingerprint (slot b i) = siphash key))"

lemma keeps_refl [simp]: "keeps key b b"
  by (simp add: keeps_def)

lemma keeps_add_used [simp]: "keeps key b (add_used n b)"
  by (simp add: keeps_def holds_def arena_simps)

lemma keeps_slot_mut:
  assumes "\<not> holds b t key" "t < SLOT_COUNT \<Longrightarrow> \<not> holds (slot_mut t f b) t key"
    and "fingerprint (f (slot b t)) = siphash key \<Longrightarrow> fingerprint (slot b t) = siphash key"
  shows "keeps key b (slot_mut t f b)"
  using assms by (auto simp: keeps_def holds_def arena_simps)

text \<open>A store that leaves the state and the stored key alone, to a slot that does not hold the key.\<close>

lemma keeps_quiet:
  assumes "\<not> holds b t key" "\<And>s. state (f s) = state s" "state (slot b t) \<noteq> STATE_OCCUPIED \<or> (\<forall>s. read_key (f s) = read_key s)"
    and "\<And>s. fingerprint (f s) = fingerprint s \<or> fingerprint (f s) \<noteq> siphash key"
  shows "keeps key b (slot_mut t f b)"
  using assms(1,3) assms(2,4) [of "slot b t"] by (intro keeps_slot_mut) (auto simp: holds_def arena_simps)

lemma read_key_expires [slot_simps]: "read_key (s\<lparr>expires_at_ms := e\<rparr>) = read_key s"
  by (simp add: read_key_def)

lemma keeps_set_step:
  assumes inv: "undisturbed c a (pc, b)" and other: "siphash key \<noteq> call_hash c"
  shows "keeps key b (snd (set_step c (pc, b)))"
proof -
  have "key \<noteq> call_key c" using other by (auto simp: call_hash_def)
  then have not_held: "holds b t (call_key c) \<Longrightarrow> \<not> holds b t key" for t
    by (auto simp: holds_def)
  have not_claimed: "claims c t b \<Longrightarrow> \<not> holds b t key \<and> state (slot b t) \<noteq> STATE_OCCUPIED" for t
    by (auto simp: claims_def can_claim_def holds_def call_hash_def)
  show ?thesis
  proof (cases pc)
    case (TestExpiry i ft)
    let ?i = "probe (call_hash c) i"
    have "\<not> holds b ?i key"
      using inv other wf_fingerprint [of b ?i key] by (auto simp: TestExpiry undisturbed_def)
    then show ?thesis
      by (auto simp: TestExpiry Let_def lazy_evict_if_expired_def compare_exchange_state_def holds_def arena_simps
          intro!: keeps_slot_mut split: if_splits)
  next
    case (ClaimState t n)
    then obtain j where t: "claims c t b" "t = probe (siphash (call_key c)) j" "can_claim b (call_key c) j"
      and full: "claim_slot (call_hash c) (call_key c) (call_val c) (call_expiry c) (slot b t) =
        (slot b t)\<lparr>state := STATE_OCCUPIED\<rparr>" and wf: "arena_wf b"
      using inv by (auto simp: undisturbed_def claims_def call_hash_def)
    have "read_key ((slot b t)\<lparr>state := STATE_OCCUPIED\<rparr>) = call_key c"
      unfolding full [symmetric] using t wf by (simp add: slot_simps wf_intros wf_slot can_claim_def)
    with \<open>key \<noteq> call_key c\<close> not_claimed [OF t(1)] show ?thesis
      by (auto simp: ClaimState holds_def arena_simps intro!: keeps_slot_mut)
  next
    case (ClaimFingerprint t n)
    then show ?thesis
      using inv not_claimed [of t] other by (auto simp: undisturbed_def intro!: keeps_quiet)
  next
    case (ClaimKeyBuf t n)
    then show ?thesis
      using inv not_claimed [of t] by (auto simp: undisturbed_def slot_simps store_key_buf_def intro!: keeps_quiet)
  next
    case (ClaimKeyLen t n)
    then show ?thesis
      using inv not_claimed [of t] by (auto simp: undisturbed_def slot_simps store_key_len_def intro!: keeps_quiet)
  qed (use inv not_claimed not_held in \<open>auto simp: undisturbed_def slot_simps Let_def intro!: keeps_quiet\<close>)
qed

text \<open>What a reader knows at a place.\<close>

definition unseen :: "bytes \<Rightarrow> nat \<Rightarrow> arena \<Rightarrow> bool" where
  "unseen key i b \<longleftrightarrow> (\<forall>j<i. \<not> holds b (probe (siphash key) j) key)"

fun reading :: "u64 \<Rightarrow> bytes \<Rightarrow> get_pc \<Rightarrow> arena \<Rightarrow> bool" where
  "reading now key (GetState i) b \<longleftrightarrow> i < SLOT_COUNT \<and> unseen key i b"
| "reading now key (GetFingerprint i) b \<longleftrightarrow> i < SLOT_COUNT \<and> unseen key i b \<and>
    (holds b (probe (siphash key) i) key \<or> fingerprint (slot b (probe (siphash key) i)) \<noteq> siphash key)"
| "reading now key (GetExpiry i) b \<longleftrightarrow> holds b (probe (siphash key) i) key"
| "reading now key (GetEvict i) b \<longleftrightarrow>
    holds b (probe (siphash key) i) key \<and> is_expired now (slot b (probe (siphash key) i))"
| "reading now key (GetKey i) b \<longleftrightarrow>
    holds b (probe (siphash key) i) key \<and> \<not> is_expired now (slot b (probe (siphash key) i))"
| "reading now key (GetValue i) b \<longleftrightarrow>
    holds b (probe (siphash key) i) key \<and> \<not> is_expired now (slot b (probe (siphash key) i))"
| "reading now key (GetDone r) b \<longleftrightarrow> r = spec_get now key (entry b)"

lemma entry_keeps: "keeps key b b' \<Longrightarrow> entry b' key = entry b key"
  by (rule entry_cong) (auto simp: keeps_def)

lemma spec_get_cong: "m key = m' key \<Longrightarrow> spec_get now key m = spec_get now key m'"
  by (simp add: spec_get_def)

lemma spec_get_keeps: "keeps key b b' \<Longrightarrow> spec_get now key (entry b') = spec_get now key (entry b)"
  by (intro spec_get_cong entry_keeps)

lemma reading_keeps: "keeps key b b' \<Longrightarrow> reading now key pc b \<Longrightarrow> reading now key pc b'"
  using spec_get_keeps [of key b b' now]
  by (cases pc) (auto simp: keeps_def unseen_def)

lemma reading_next:
  assumes "arena_wf b" "unseen key i b" "i \<le> SLOT_COUNT"
  shows "reading now key (get_next i) b"
proof (cases "i < SLOT_COUNT")
  case False
  then have "\<not> holds b j key" for j
    using assms chain_absent [of b SLOT_COUNT key j] by (auto simp: unseen_def)
  then have "entry b key = None" by (simp add: entry_None_iff)
  with False show ?thesis by (simp add: get_next_def)
qed (use assms in \<open>simp add: get_next_def\<close>)

lemma unseen_Suc: "unseen key i b \<Longrightarrow> \<not> holds b (probe (siphash key) i) key \<Longrightarrow> unseen key (Suc i) b"
  by (auto simp: unseen_def less_Suc_eq)

text \<open>The result of a held entry.\<close>

lemma spec_get_holds:
  assumes "arena_wf b" "holds b i key"
  shows "spec_get now key (entry b) =
    (if is_expired now (slot b i) then Expired else Found (read_value (slot b i)))"
  using entry_holds [OF assms] by (simp add: is_expired_def expired_at_def)

lemma reading_step:
  assumes wf: "arena_wf b" and read: "reading now key pc b"
    and sep: "\<forall>k'\<in>dom (entry b). siphash k' = siphash key \<longrightarrow> k' = key"
  shows "(\<exists>r. fst (get_step now key (pc, b)) = GetDone r \<and> r = spec_get now key (entry b)) \<or>
    snd (get_step now key (pc, b)) = b \<and> reading now key (fst (get_step now key (pc, b))) b"
proof (cases pc)
  case (GetState i)
  let ?s = "slot b (probe (siphash key) i)"
  have i: "i < SLOT_COUNT" "unseen key i b" using read by (simp_all add: GetState)
  consider (empty) "state ?s = STATE_EMPTY" | (occ) "state ?s = STATE_OCCUPIED"
    | (other) "state ?s \<notin> {STATE_EMPTY, STATE_OCCUPIED}" by blast
  then show ?thesis
  proof cases
    case empty
    then have "\<not> holds b j key" for j
      using i chain_absent [OF wf, of i key j] by (simp add: unseen_def)
    then have "entry b key = None" by (simp add: entry_None_iff)
    with empty show ?thesis by (simp add: GetState)
  next
    case occ
    let ?k = "read_key ?s"
    have held: "holds b (probe (siphash key) i) ?k" by (rule holds_occupied) (simp_all add: occ)
    then have "?k \<in> dom (entry b)" using entry_holds [OF wf] by (simp add: domIff)
    with sep wf_fingerprint [OF wf held] held
    have "holds b (probe (siphash key) i) key \<or> fingerprint ?s \<noteq> siphash key" by auto
    with occ i show ?thesis by (simp add: GetState Let_def)
  next
    case other
    then have "\<not> holds b (probe (siphash key) i) key" by (simp add: holds_def)
    then have "reading now key (get_next (Suc i)) b"
      using i by (intro reading_next [OF wf] unseen_Suc) simp_all
    with other show ?thesis by (simp add: GetState Let_def)
  qed
next
  case (GetFingerprint i)
  have "reading now key (get_next (Suc i)) b" if "\<not> holds b (probe (siphash key) i) key"
    using read that by (intro reading_next [OF wf] unseen_Suc) (simp_all add: GetFingerprint)
  moreover have "fingerprint (slot b (probe (siphash key) i)) = siphash key" if "holds b (probe (siphash key) i) key"
    by (rule wf_fingerprint [OF wf that])
  ultimately show ?thesis using read by (auto simp: GetFingerprint)
next
  case (GetKey i)
  then show ?thesis using read by (simp add: holds_def)
qed (use read in \<open>auto simp: spec_get_holds [OF wf]\<close>)

text \<open>The arena holds no other key with the same hash.\<close>

definition alone :: "bytes \<Rightarrow> arena \<Rightarrow> bool" where
  "alone key a \<longleftrightarrow> (\<forall>k'\<in>dom (entry a). siphash k' = siphash key \<longrightarrow> k' = key)"

lemma alone_bury:
  assumes "alone key b"
  shows "alone key (bury i b)"
proof -
  have "entry b k \<noteq> None" if "entry (bury i b) k \<noteq> None" for k
    using that unfolding entry_None_iff by (auto simp: holds_bury)
  with assms show ?thesis by (fastforce simp: alone_def)
qed

lemma alone_add_used [simp]: "alone key (add_used n b) = alone key b"
  by (simp add: alone_def arena_simps)

lemma undisturbed_collisions:
  assumes "undisturbed c a (pc, b)" "siphash key \<noteq> call_hash c"
    and "\<forall>k'\<in>dom (entry a). siphash k' = siphash key \<longrightarrow> k' = key"
  shows "\<forall>k'\<in>dom (entry b). siphash k' = siphash key \<longrightarrow> k' = key"
proof (intro ballI impI)
  fix k' assume k': "k' \<in> dom (entry b)" "siphash k' = siphash key"
  then have "k' \<noteq> call_key c" using assms(2) by (auto simp: call_hash_def)
  with assms(1,2) k' have "entry b k' = entry a k'" by (simp add: undisturbed_def)
  with assms(3) k' show "k' = key" by (metis domIff)
qed

text \<open>A GET of \<open>key\<close> by thread 0 and an operation by thread 1.\<close>

definition reader_and :: "operation \<Rightarrow> u64 \<Rightarrow> bytes \<Rightarrow> nat \<Rightarrow> operation" where
  "reader_and oper now key = (\<lambda>_. oper)(0 := Getting now key)"

text \<open>
  What the GET needs of the other operation: an invariant that its own steps keep, under which the
  arena is well-formed and holds no other key with the hash of \<open>key\<close>, and which makes the steps keep
  what the reader relies on.
\<close>

locale quiet =
  fixes oper :: operation and inv :: "place \<times> arena \<Rightarrow> bool" and key :: bytes
  assumes inv_step: "inv x \<Longrightarrow> inv (op_step oper x)"
    and inv_wf: "inv x \<Longrightarrow> arena_wf (snd x)"
    and inv_keeps: "inv x \<Longrightarrow> keeps key (snd x) (snd (op_step oper x))"
    and inv_alone: "inv x \<Longrightarrow> alone key (snd x)"
begin

definition reader_inv :: "u64 \<Rightarrow> get_result \<Rightarrow> (nat \<Rightarrow> place) \<times> arena \<Rightarrow> bool" where
  "reader_inv now r x \<longleftrightarrow> fst x 0 = AtGet (GetDone r) \<or>
    (\<exists>pc. fst x 0 = AtGet pc \<and> inv (fst x 1, snd x) \<and> reading now key pc (snd x) \<and> spec_get now key (entry (snd x)) = r)"

lemma reader_inv_step:
  assumes "reader_inv now r (pcs, b)" "t \<in> {0, 1}" "op_step (reader_and oper now key t) (pcs t, b) = (pc, b')"
  shows "reader_inv now r (pcs(t := pc), b')"
proof (cases "pcs 0 = AtGet (GetDone r)")
  case True
  with assms(2,3) show ?thesis by (auto simp: reader_inv_def reader_and_def)
next
  case False
  with assms(1) obtain gpc where pcs: "pcs 0 = AtGet gpc" "inv (pcs 1, b)" "reading now key gpc b"
    "spec_get now key (entry b) = r" by (auto simp: reader_inv_def)
  have alone: "\<forall>k'\<in>dom (entry b). siphash k' = siphash key \<longrightarrow> k' = key"
    and wf: "arena_wf b"
    using inv_alone [OF pcs(2)] inv_wf [OF pcs(2)] by (simp_all add: alone_def)
  from assms(2) consider (reader) "t = 0" | (writer) "t = 1" by blast
  then show ?thesis
  proof cases
    case reader
    from reading_step [OF wf pcs(3) alone] pcs assms(3) show ?thesis
      by (auto simp: reader reader_inv_def reader_and_def split: prod.splits)
  next
    case writer
    have keeps: "keeps key b b'" and kept: "inv (pc, b')"
      using inv_keeps [OF pcs(2)] inv_step [OF pcs(2)] assms(3) by (simp_all add: writer reader_and_def)
    from reading_keeps [OF keeps pcs(3)] spec_get_keeps [OF keeps] kept pcs show ?thesis
      by (simp add: writer reader_inv_def)
  qed
qed

lemma reader_inv_run:
  assumes "reader_inv now r x" "List.set ts \<subseteq> {0, 1}"
  shows "reader_inv now r (run_threads (reader_and oper now key) ts x)"
  by (rule run_threads_invariant [OF reader_inv_step assms])

lemma get_unaffected:
  assumes "inv (op_start oper, a)" "List.set ts \<subseteq> {0, 1}"
    and "run_threads (reader_and oper now key) ts (\<lambda>t. op_start (reader_and oper now key t), a) = (pcs, b)"
    and "pcs 0 = AtGet (GetDone r)"
  shows "r = snd (hashmap_get now key a)"
proof -
  have wf: "arena_wf a" using inv_wf [OF assms(1)] by simp
  have alone: "alone key a" using inv_alone [OF assms(1)] by simp
  have "reading now key (get_next 0) a"
    by (rule reading_next [OF wf]) (simp_all add: unseen_def)
  then have "reader_inv now (spec_get now key (entry a)) (\<lambda>t. op_start (reader_and oper now key t), a)"
    using assms(1) by (simp add: reader_inv_def reader_and_def)
  from reader_inv_run [OF this assms(2)] assms(3,4) have "r = spec_get now key (entry a)"
    by (auto simp: reader_inv_def)
  then show ?thesis using hashmap_get_spec(1) [OF wf] alone by (simp add: alone_def)
qed

end

text \<open>The three operations on a key with another hash.\<close>

definition set_quietly :: "set_call \<Rightarrow> bytes \<Rightarrow> place \<times> arena \<Rightarrow> bool" where
  "set_quietly c key x \<longleftrightarrow> length (call_key c) \<le> MAX_KEY_LEN \<and> siphash key \<noteq> call_hash c \<and>
    (\<exists>a pc. alone key a \<and> fst x = AtSet pc \<and> undisturbed c a (pc, snd x))"

interpretation setting: quiet "Setting c" "set_quietly c key" key for c key
proof unfold_locales
  fix x assume x: "set_quietly c key x"
  then obtain a pc where pc: "length (call_key c) \<le> MAX_KEY_LEN" "siphash key \<noteq> call_hash c" "alone key a"
    "fst x = AtSet pc" "undisturbed c a (pc, snd x)"
    by (auto simp: set_quietly_def)
  obtain b where b: "x = (AtSet pc, b)" using pc(4) by (cases x) simp
  show "set_quietly c key (op_step (Setting c) x)"
    using pc undisturbed_step [of c a pc b] by (auto simp: set_quietly_def b split: prod.splits)
  show "arena_wf (snd x)" using pc(5) by (simp add: undisturbed_def)
  show "keeps key (snd x) (snd (op_step (Setting c) x))"
    using keeps_set_step [of c a pc b key] pc by (simp add: b case_prod_beta)
  show "alone key (snd x)"
    using undisturbed_collisions [OF pc(5,2)] pc(3) by (simp add: alone_def)
qed

text \<open>Both other operations change a slot only by a compare-and-exchange on its state.\<close>

definition cas_tombstone :: "nat \<Rightarrow> arena \<Rightarrow> arena" where
  "cas_tombstone i b = slot_mut i (\<lambda>s. fst (compare_exchange_state STATE_OCCUPIED STATE_TOMBSTONE s)) b"

lemma cas_tombstone_cases: "cas_tombstone i b = bury i b \<or> cas_tombstone i b = b"
  by (auto simp: cas_tombstone_def bury_def compare_exchange_state_def slot_mut_def slot_def)

lemma keeps_bury: "\<not> holds b i key \<Longrightarrow> keeps key b (bury i b)"
  by (auto simp: keeps_def holds_bury arena_simps)

lemma cas_tombstone_quiet:
  assumes "arena_wf b" "alone key b" "\<not> holds b i key"
  shows "arena_wf (cas_tombstone i b)" "alone key (cas_tombstone i b)" "keeps key b (cas_tombstone i b)"
  using cas_tombstone_cases [of i b] assms wf_bury alone_bury keeps_bury by (metis keeps_refl)+

definition del_quietly :: "bytes \<Rightarrow> bytes \<Rightarrow> place \<times> arena \<Rightarrow> bool" where
  "del_quietly d key x \<longleftrightarrow> siphash key \<noteq> siphash d \<and> arena_wf (snd x) \<and> alone key (snd x) \<and>
    (\<exists>pc. fst x = AtDel pc \<and> (\<forall>i. pc = DelSwap i \<longrightarrow> \<not> holds (snd x) (probe (siphash d) i) key))"

definition get_quietly :: "bytes \<Rightarrow> bytes \<Rightarrow> place \<times> arena \<Rightarrow> bool" where
  "get_quietly g key x \<longleftrightarrow> siphash key \<noteq> siphash g \<and> arena_wf (snd x) \<and> alone key (snd x) \<and>
    (\<exists>pc. fst x = AtGet pc \<and> (\<forall>i. pc = GetExpiry i \<or> pc = GetEvict i \<longrightarrow>
      \<not> holds (snd x) (probe (siphash g) i) key))"

lemma next_not_swap [simp]: "del_next i \<noteq> DelSwap j" "get_next i \<noteq> GetExpiry j" "get_next i \<noteq> GetEvict j"
  by (simp_all add: del_next_def get_next_def)

interpretation deleting: quiet "Deleting d" "del_quietly d key" key for d key
proof unfold_locales
  fix x assume x: "del_quietly d key x"
  then obtain pc b where b: "x = (AtDel pc, b)" and wf: "arena_wf b" and alone: "alone key b"
    and other: "siphash key \<noteq> siphash d" and swap: "\<And>i. pc = DelSwap i \<Longrightarrow> \<not> holds b (probe (siphash d) i) key"
    by (cases x) (auto simp: del_quietly_def)
  show "arena_wf (snd x)" "alone key (snd x)" using wf alone by (simp_all add: b)
  have neq: "d \<noteq> key" using other by auto
  have "del_quietly d key (op_step (Deleting d) x) \<and> keeps key (snd x) (snd (op_step (Deleting d) x))"
  proof (cases pc)
    case (DelSwap i)
    from cas_tombstone_quiet [OF wf alone swap [OF DelSwap], unfolded cas_tombstone_def] other wf alone show ?thesis
      by (auto simp: b DelSwap del_quietly_def Let_def)
  qed (use wf alone other neq in \<open>auto simp: b del_quietly_def Let_def arena_simps holds_def\<close>)
  then show "del_quietly d key (op_step (Deleting d) x)" "keeps key (snd x) (snd (op_step (Deleting d) x))"
    by simp_all
qed

interpretation getting: quiet "Getting t g" "get_quietly g key" key for t g key
proof unfold_locales
  fix x assume x: "get_quietly g key x"
  then obtain pc b where b: "x = (AtGet pc, b)" and wf: "arena_wf b" and alone: "alone key b"
    and other: "siphash key \<noteq> siphash g"
    and evict: "\<And>i. pc = GetExpiry i \<or> pc = GetEvict i \<Longrightarrow> \<not> holds b (probe (siphash g) i) key"
    by (cases x) (auto simp: get_quietly_def)
  show "arena_wf (snd x)" "alone key (snd x)" using wf alone by (simp_all add: b)
  have "get_quietly g key (op_step (Getting t g) x) \<and> keeps key (snd x) (snd (op_step (Getting t g) x))"
  proof (cases pc)
    case (GetEvict i)
    have "\<not> holds b (probe (siphash g) i) key" using evict GetEvict by simp
    from cas_tombstone_quiet [OF wf alone this, unfolded cas_tombstone_def] other show ?thesis
      by (simp add: b GetEvict get_quietly_def)
  next
    case (GetFingerprint i)
    have "\<not> holds b (probe (siphash g) i) key" if "fingerprint (slot b (probe (siphash g) i)) = siphash g"
      using that other wf_fingerprint [OF wf, of "probe (siphash g) i" key] by auto
    with wf alone other show ?thesis by (auto simp: b GetFingerprint get_quietly_def)
  qed (use wf alone other evict in \<open>auto simp: b get_quietly_def Let_def\<close>)
  then show "get_quietly g key (op_step (Getting t g) x)" "keeps key (snd x) (snd (op_step (Getting t g) x))"
    by simp_all
qed

fun call_of_operation :: "operation \<Rightarrow> bytes" where
  "call_of_operation (Setting c) = call_key c"
| "call_of_operation (Getting t g) = g"
| "call_of_operation (Deleting d) = d"

text \<open>
  C10: a GET is not affected by an operation on another key that runs at the same time.  One thread
  looks a key up while another runs a SET, a GET or a DEL of a key with another hash, with any
  interleaving of their loads, stores and compare-and-exchanges, on any arena that satisfies the
  invariant and holds no other key with the hash of the first key: when the GET has returned, its
  result is the one it would have given alone, on the arena as it was before either started.
\<close>

theorem concurrent_get_unaffected:
  assumes "arena_wf a" "\<forall>k'\<in>dom (entry a). siphash k' = siphash key \<longrightarrow> k' = key"
    and "siphash (call_of_operation oper) \<noteq> siphash key" "length (call_of_operation oper) \<le> MAX_KEY_LEN"
    and "List.set ts \<subseteq> {0, 1}"
    and "run_threads (reader_and oper now key) ts (\<lambda>t. op_start (reader_and oper now key t), a) = (pcs, b)"
    and "pcs 0 = AtGet (GetDone r)"
  shows "r = snd (hashmap_get now key a)"
proof (cases oper)
  case (Setting c)
  have "set_quietly c key (op_start oper, a)"
    using assms(1-4) undisturbed_run [of a c 0] by (auto simp: Setting set_quietly_def alone_def call_hash_def)
  from setting.get_unaffected [OF this [unfolded Setting] assms(5-7) [unfolded Setting]] show ?thesis .
next
  case (Getting t g)
  have "get_quietly g key (op_start oper, a)"
    using assms(1-3) by (simp add: Getting get_quietly_def alone_def)
  from getting.get_unaffected [OF this [unfolded Getting] assms(5-7) [unfolded Getting]] show ?thesis .
next
  case (Deleting d)
  have "del_quietly d key (op_start oper, a)"
    using assms(1-3) by (simp add: Deleting del_quietly_def alone_def)
  from deleting.get_unaffected [OF this [unfolded Deleting] assms(5-7) [unfolded Deleting]] show ?thesis .
qed

theorem concurrent_get_unaffected_witness:
  "snd (hashmap_get 9 [0, 118] (fresh_arena blank_arena)) = NotFound"
proof -
  let ?ops = "reader_and (Setting (call_of 5 [0, 111] [1] 0)) 9 [0, 118]"
  have "run_threads ?ops [1, 1, 0] (\<lambda>t. op_start (?ops t), fresh_arena blank_arena) =
      ((\<lambda>t. op_start (?ops t))(1 := AtSet (ClaimKeyLen (probe (siphash [0, 111]) 0) True), 0 := AtGet (GetDone NotFound)),
       slot_mut (probe (siphash [0, 111]) 0) (store_key_buf [0, 111]) (fresh_arena blank_arena))"
    by (simp add: reader_and_def get_next_def set_start_def next_probe_def Let_def call_of_def call_hash_def
        arena_simps slot_simps)
  from concurrent_get_unaffected [OF wf_fresh_blank _ _ _ _ this] show ?thesis
    by (simp add: siphash_pair call_of_def call_hash_def MAX_KEY_LEN_def entry_fresh_blank)
qed

section \<open>Stale decisions\<close>

text \<open>Two deletions of a key and an insertion of another that starts probing at the same slot.\<close>

definition two_dels_one_set :: "bytes \<Rightarrow> set_call \<Rightarrow> nat \<Rightarrow> operation" where
  "two_dels_one_set k c = (\<lambda>_. Deleting k)(2 := Setting c)"

text \<open>
  C27: a DEL can remove a key it was not asked to remove.  Two DELs of one key have both compared the
  stored key when the first of them takes the slot; a SET of another key claims the freed slot; the
  compare-and-exchange of the second DEL then succeeds on the new entry.  Both DELs report a
  deletion, the SET reports an insertion, and its key is gone.
\<close>

theorem stale_del_removes_other_key:
  fixes k k' v :: bytes and now :: u64
  assumes "del_hits (siphash k) k (slot a (probe (siphash k) 0))" "state (slot a (probe (siphash k) 1)) = STATE_EMPTY"
    and "probe_start (siphash k') = probe_start (siphash k)"
  defines "ops \<equiv> two_dels_one_set k (call_of now k' v 0)"
  shows "\<exists>pcs b. run_threads ops ([0, 0, 0, 1, 1, 1, 1, 1, 2, 2, 2, 2, 2, 2, 2, 2, 2, 2, 0, 0])
      (\<lambda>t. op_start (ops t), a) = (pcs, b) \<and>
    pcs 0 = AtDel (DelDone Deleted) \<and> pcs 1 = AtDel (DelDone Deleted) \<and> pcs 2 = AtSet (Done Inserted) \<and>
    snd (hashmap_get t k' b) = NotFound"
proof -
  let ?p = "probe (siphash k) 0"
  have same: "probe (siphash k') i = probe (siphash k) i" for i
    using assms(3) by (simp add: probe_def)
  have one: "Suc 0 < SLOT_COUNT" by (simp add: SLOT_COUNT_def)
  note hit = assms(1) [unfolded del_hits_def]
  have "\<exists>pcs b. run_threads ops [0, 0, 0, 1, 1, 1, 1, 1, 2, 2, 2, 2, 2, 2, 2, 2, 2, 2, 0, 0]
      (\<lambda>t. op_start (ops t), a) = (pcs, b) \<and>
    pcs 0 = AtDel (DelDone Deleted) \<and> pcs 1 = AtDel (DelDone Deleted) \<and> pcs 2 = AtSet (Done Inserted) \<and>
    state (slot b ?p) = STATE_TOMBSTONE \<and> slot b (probe (siphash k) 1) = slot a (probe (siphash k) 1)"
    using hit assms(2) one probe_0_1 [of "siphash k"]
    by (simp add: ops_def two_dels_one_set_def del_next_def set_start_def next_probe_def call_of_def call_hash_def
        same Let_def arena_simps slot_simps compare_exchange_state_def first_some_def)
  then obtain pcs b where run: "run_threads ops [0, 0, 0, 1, 1, 1, 1, 1, 2, 2, 2, 2, 2, 2, 2, 2, 2, 2, 0, 0]
      (\<lambda>t. op_start (ops t), a) = (pcs, b)"
    "pcs 0 = AtDel (DelDone Deleted)" "pcs 1 = AtDel (DelDone Deleted)" "pcs 2 = AtSet (Done Inserted)"
    and at: "state (slot b ?p) = STATE_TOMBSTONE" "slot b (probe (siphash k) 1) = slot a (probe (siphash k) 1)"
    by blast
  have "snd (hashmap_get t k' b) = NotFound"
    using at assms(2) one by (simp add: hashmap_get_def get_loop_pass get_loop_empty same get_passes_def)
  with run show ?thesis by blast
qed

theorem stale_del_removes_other_key_witness:
  "snd (hashmap_get 9 [0, 118] (snd (run_threads (two_dels_one_set [0, 111] (call_of 8 [0, 118] [2] 0))
      [0, 0, 0, 1, 1, 1, 1, 1, 2, 2, 2, 2, 2, 2, 2, 2, 2, 2, 0, 0]
      (\<lambda>t. op_start (two_dels_one_set [0, 111] (call_of 8 [0, 118] [2] 0) t),
       fst (hashmap_set 5 [0, 111] [1] 0 (fresh_arena blank_arena)))))) = NotFound"
proof -
  let ?a = "fst (hashmap_set 5 [0, 111] [1] 0 (fresh_arena blank_arena))"
  have "del_hits (siphash [0, 111]) [0, 111] (slot ?a (probe (siphash [0, 111]) 0))"
    by (simp add: set_fresh del_hits_def arena_simps slot_simps wf_slot [OF wf_fresh_blank] MAX_KEY_LEN_def)
  moreover have "state (slot ?a (probe (siphash [0, 111]) 1)) = STATE_EMPTY"
    using probe_0_1 [of "siphash [0, 111]"] by (simp add: set_fresh arena_simps)
  moreover have "probe_start (siphash [0, 118]) = probe_start (siphash [0, 111])"
    by (simp add: siphash_pair probe_start_mod SLOT_COUNT_def)
  ultimately show ?thesis
    using stale_del_removes_other_key [of "[0, 111]" ?a "[0, 118]" 8 "[2]" 9] by auto
qed

definition getter_and_setter :: "u64 \<Rightarrow> set_call \<Rightarrow> nat \<Rightarrow> operation" where
  "getter_and_setter now c = (\<lambda>_. Setting c)(0 := Getting now (call_key c))"

text \<open>
  A GET can remove the value that a SET has just stored.  A GET finds its key expired and is about to
  evict it; a SET of the same key evicts the entry first, claims the slot again and reports an
  insertion; the compare-and-exchange of the GET then succeeds on the fresh entry.  Nobody deleted
  the key, the new entry has not expired, and it is gone.
\<close>

theorem stale_evict_loses_fresh_value:
  fixes k v :: bytes and now ttl :: u64
  assumes "state (slot a (probe (siphash k) 0)) = STATE_OCCUPIED" "fingerprint (slot a (probe (siphash k) 0)) = siphash k"
    and "is_expired now (slot a (probe (siphash k) 0))" "state (slot a (probe (siphash k) 1)) = STATE_EMPTY"
  defines "ops \<equiv> getter_and_setter now (call_of now k v ttl)"
  shows "\<exists>pcs b. run_threads ops [0, 0, 0, 1, 1, 1, 1, 1, 1, 1, 1, 1, 1, 1, 1, 0] (\<lambda>t. op_start (ops t), a) = (pcs, b) \<and>
    pcs 0 = AtGet (GetDone Expired) \<and> pcs 1 = AtSet (Done Inserted) \<and> snd (hashmap_get t k b) = NotFound"
proof -
  let ?p = "probe (siphash k) 0"
  have one: "Suc 0 < SLOT_COUNT" by (simp add: SLOT_COUNT_def)
  have "\<exists>pcs b. run_threads ops [0, 0, 0, 1, 1, 1, 1, 1, 1, 1, 1, 1, 1, 1, 1, 0] (\<lambda>t. op_start (ops t), a) = (pcs, b) \<and>
    pcs 0 = AtGet (GetDone Expired) \<and> pcs 1 = AtSet (Done Inserted) \<and>
    state (slot b ?p) = STATE_TOMBSTONE \<and> slot b (probe (siphash k) 1) = slot a (probe (siphash k) 1)"
    using assms(1-4) one probe_0_1 [of "siphash k"]
    by (simp add: ops_def getter_and_setter_def get_next_def set_start_def next_probe_def call_of_def call_hash_def
        Let_def arena_simps slot_simps compare_exchange_state_def lazy_evict_if_expired_def first_some_def)
  then obtain pcs b where run: "run_threads ops [0, 0, 0, 1, 1, 1, 1, 1, 1, 1, 1, 1, 1, 1, 1, 0] (\<lambda>t. op_start (ops t), a) = (pcs, b)"
    "pcs 0 = AtGet (GetDone Expired)" "pcs 1 = AtSet (Done Inserted)"
    and at: "state (slot b ?p) = STATE_TOMBSTONE" "slot b (probe (siphash k) 1) = slot a (probe (siphash k) 1)"
    by blast
  have "snd (hashmap_get t k b) = NotFound"
    using at assms(4) one by (simp add: hashmap_get_def get_loop_pass get_loop_empty get_passes_def)
  with run show ?thesis by blast
qed

theorem stale_evict_loses_fresh_value_witness:
  "snd (hashmap_get 9000 [1] (snd (run_threads (getter_and_setter 9000 (call_of 9000 [1] [2] 0))
      [0, 0, 0, 1, 1, 1, 1, 1, 1, 1, 1, 1, 1, 1, 1, 0]
      (\<lambda>t. op_start (getter_and_setter 9000 (call_of 9000 [1] [2] 0) t),
       fst (hashmap_set 5000 [1] [7] 1 (fresh_arena blank_arena)))))) = NotFound"
proof -
  let ?a = "fst (hashmap_set 5000 [1] [7] 1 (fresh_arena blank_arena))"
  have "state (slot ?a (probe (siphash [1]) 0)) = STATE_OCCUPIED" "fingerprint (slot ?a (probe (siphash [1]) 0)) = siphash [1]"
    "is_expired 9000 (slot ?a (probe (siphash [1]) 0))"
    by (simp_all add: set_fresh arena_simps slot_simps is_expired_def ttl_to_expiry_def)
  moreover have "state (slot ?a (probe (siphash [1]) 1)) = STATE_EMPTY"
    using probe_0_1 [of "siphash [1]"] by (simp add: set_fresh arena_simps)
  ultimately show ?thesis
    using stale_evict_loses_fresh_value [of ?a "[1]" 9000 "[2]" 0 9000] by auto
qed

definition get_del_set :: "u64 \<Rightarrow> bytes \<Rightarrow> set_call \<Rightarrow> nat \<Rightarrow> operation" where
  "get_del_set now k c = (\<lambda>_. Setting c)(0 := Getting now k, 1 := Deleting k)"

text \<open>
  C25: a GET can return the value of another key.  A GET has compared the stored key with its own and is
  about to copy the value; a DEL of that key takes the slot, a SET of another key claims it; the
  GET then copies what is there now and answers \<open>Found\<close> with the value of the other key.
\<close>

theorem stale_get_returns_other_value:
  fixes k k' v :: bytes and now :: u64
  assumes "del_hits (siphash k) k (slot a (probe (siphash k) 0))" "\<not> is_expired now (slot a (probe (siphash k) 0))"
    and "slot_wf (slot a (probe (siphash k) 0))" "state (slot a (probe (siphash k) 1)) = STATE_EMPTY"
    and "probe_start (siphash k') = probe_start (siphash k)" "length v \<le> MAX_VAL_LEN"
  defines "ops \<equiv> get_del_set now k (call_of now k' v 0)"
  shows "\<exists>pcs b. run_threads ops [0, 0, 0, 0, 1, 1, 1, 1, 1, 2, 2, 2, 2, 2, 2, 2, 2, 2, 2, 0] (\<lambda>t. op_start (ops t), a) = (pcs, b) \<and>
    pcs 1 = AtDel (DelDone Deleted) \<and> pcs 2 = AtSet (Done Inserted) \<and> pcs 0 = AtGet (GetDone (Found v))"
proof -
  have same: "probe (siphash k') i = probe (siphash k) i" for i
    using assms(5) by (simp add: probe_def)
  have one: "Suc 0 < SLOT_COUNT" by (simp add: SLOT_COUNT_def)
  note hit = assms(1) [unfolded del_hits_def]
  have copied: "read_value (store_val_len v (store_val_buf v s)) = v" if "slot_wf s" for s
  proof -
    have "read_value (store_val_len v (store_val_buf v s)) = read_value (write_value v s)"
      by (simp add: write_value_stores)
    with that assms(6) show ?thesis by (simp add: slot_simps)
  qed
  show ?thesis
    using hit assms(2-4) one probe_0_1 [of "siphash k"]
    by (simp add: copied slot_wf_stores wf_intros ops_def get_del_set_def get_next_def del_next_def set_start_def next_probe_def call_of_def call_hash_def
        same Let_def arena_simps slot_simps compare_exchange_state_def first_some_def)
qed

theorem stale_get_returns_other_value_witness:
  "fst (run_threads (get_del_set 9 [0, 111] (call_of 9 [0, 118] [2] 0)) [0, 0, 0, 0, 1, 1, 1, 1, 1, 2, 2, 2, 2, 2, 2, 2, 2, 2, 2, 0]
      (\<lambda>t. op_start (get_del_set 9 [0, 111] (call_of 9 [0, 118] [2] 0) t),
       fst (hashmap_set 5 [0, 111] [1] 0 (fresh_arena blank_arena)))) 0 = AtGet (GetDone (Found [2]))"
proof -
  let ?a = "fst (hashmap_set 5 [0, 111] [1] 0 (fresh_arena blank_arena))" and ?p = "probe (siphash [0, 111])"
  have "del_hits (siphash [0, 111]) [0, 111] (slot ?a (?p 0))" "\<not> is_expired 9 (slot ?a (?p 0))"
    by (simp_all add: set_fresh del_hits_def arena_simps slot_simps wf_slot [OF wf_fresh_blank] MAX_KEY_LEN_def
        is_expired_def ttl_to_expiry_def)
  moreover have "slot_wf (slot ?a (?p 0))"
    by (intro wf_slot wf_hashmap_set wf_fresh_blank) (simp_all add: MAX_KEY_LEN_def)
  moreover have "state (slot ?a (?p 1)) = STATE_EMPTY"
    using probe_0_1 [of "siphash [0, 111]"] by (simp add: set_fresh arena_simps)
  moreover have "probe_start (siphash [0, 118]) = probe_start (siphash [0, 111])"
    by (simp add: siphash_pair probe_start_mod SLOT_COUNT_def)
  ultimately show ?thesis
    using stale_get_returns_other_value [of "[0, 111]" ?a 9 "[0, 118]" "[2]"] by (auto simp: MAX_VAL_LEN_def)
qed

end
