(* ===== verification/Contention.thy ===== *)
theory Contention
  imports Interleaving
begin

text \<open>
  Any number of threads on one arena.  Every operation of \<open>src/hashmap.rs\<close> ends within a bounded number
  of its own steps, whatever the other threads do to the slots in between; and of several threads
  that delete one key exactly one succeeds.
\<close>

section \<open>A bound for every operation\<close>

text \<open>The steps a thread has left at most; every probe takes five at most.\<close>

fun set_rank :: "set_pc \<Rightarrow> nat" where
  "set_rank (LoadState i ft) = 5 * (SLOT_COUNT - i) + 14"
| "set_rank (LoadFingerprint i ft) = 5 * (SLOT_COUNT - i) + 13"
| "set_rank (TestExpiry i ft) = 5 * (SLOT_COUNT - i) + 12"
| "set_rank (CompareKey i ft) = 5 * (SLOT_COUNT - i) + 11"
| "set_rank (UpdateValBuf t) = 3"
| "set_rank (UpdateValLen t) = 2"
| "set_rank (UpdateExpiry t) = 1"
| "set_rank (ClaimKeyBuf t n) = 8"
| "set_rank (ClaimKeyLen t n) = 7"
| "set_rank (ClaimValBuf t n) = 6"
| "set_rank (ClaimValLen t n) = 5"
| "set_rank (ClaimFingerprint t n) = 4"
| "set_rank (ClaimExpiry t n) = 3"
| "set_rank (ClaimState t n) = 2"
| "set_rank AddUsed = 1"
| "set_rank (Done r) = 0"

fun get_rank :: "get_pc \<Rightarrow> nat" where
  "get_rank (GetState i) = 5 * (SLOT_COUNT - i) + 6"
| "get_rank (GetFingerprint i) = 5 * (SLOT_COUNT - i) + 5"
| "get_rank (GetExpiry i) = 5 * (SLOT_COUNT - i) + 4"
| "get_rank (GetEvict i) = 1"
| "get_rank (GetKey i) = 5 * (SLOT_COUNT - i) + 3"
| "get_rank (GetValue i) = 1"
| "get_rank (GetDone r) = 0"

fun del_rank :: "del_pc \<Rightarrow> nat" where
  "del_rank (DelState i) = 5 * (SLOT_COUNT - i) + 6"
| "del_rank (DelFingerprint i) = 5 * (SLOT_COUNT - i) + 5"
| "del_rank (DelKey i) = 5 * (SLOT_COUNT - i) + 4"
| "del_rank (DelSwap i) = 5 * (SLOT_COUNT - i) + 3"
| "del_rank DelCount = 1"
| "del_rank (DelDone r) = 0"

lemma next_rank:
  "set_rank (next_probe (Suc i) ft) \<le> 5 * (SLOT_COUNT - i) + 10"
  "get_rank (get_next (Suc i)) \<le> 5 * (SLOT_COUNT - i) + 2"
  "del_rank (del_next (Suc i)) \<le> 5 * (SLOT_COUNT - i) + 2"
  by (auto simp: next_probe_def get_next_def del_next_def split: option.splits)

fun runs_at :: "operation \<Rightarrow> place \<Rightarrow> bool" where
  "runs_at (Setting c) (AtSet pc) \<longleftrightarrow> True"
| "runs_at (Getting now key) (AtGet pc) \<longleftrightarrow> True"
| "runs_at (Deleting key) (AtDel pc) \<longleftrightarrow> True"
| "runs_at _ _ \<longleftrightarrow> False"

fun rank_of :: "place \<Rightarrow> nat" where
  "rank_of (AtSet pc) = set_rank pc"
| "rank_of (AtGet pc) = get_rank pc"
| "rank_of (AtDel pc) = del_rank pc"

definition finished :: "place \<Rightarrow> bool" where
  "finished p \<longleftrightarrow> (\<exists>r. p = AtSet (Done r)) \<or> (\<exists>r. p = AtGet (GetDone r)) \<or> (\<exists>r. p = AtDel (DelDone r))"

definition STEP_BOUND :: nat where
  "STEP_BOUND = 5 * SLOT_COUNT + 14"

lemma set_rank_step: "set_rank (fst (set_step c (pc, a))) \<le> set_rank pc - 1"
  by (cases pc) (auto simp: Let_def intro!: order_trans [OF next_rank(1)])

lemma get_rank_step: "get_rank (fst (get_step now key (pc, a))) \<le> get_rank pc - 1"
  by (cases pc) (auto simp: Let_def intro!: order_trans [OF next_rank(2)])

lemma del_rank_step: "del_rank (fst (del_step key (pc, a))) \<le> del_rank pc - 1"
  by (cases pc) (auto simp: Let_def intro!: order_trans [OF next_rank(3)])

lemma rank_op_step:
  assumes "runs_at oper p"
  shows "rank_of (fst (op_step oper (p, a))) \<le> rank_of p - 1" "runs_at oper (fst (op_step oper (p, a)))"
  using assms set_rank_step get_rank_step del_rank_step
  by (induction oper p rule: runs_at.induct) (simp_all add: case_prod_beta)

lemma rank_zero: "runs_at oper p \<Longrightarrow> rank_of p = 0 \<Longrightarrow> finished p"
  by (induction oper p rule: runs_at.induct) (auto simp: finished_def elim: set_rank.elims get_rank.elims del_rank.elims)

lemma rank_start: "rank_of (op_start oper) \<le> STEP_BOUND" "runs_at oper (op_start oper)"
  by (cases oper; simp add: set_start_def next_probe_def get_next_def del_next_def STEP_BOUND_def)+

lemma rank_run:
  assumes "runs_at (ops t) (pcs t)" "run_threads ops ts (pcs, a) = (pcs', b)"
  shows "rank_of (pcs' t) \<le> rank_of (pcs t) - count_list ts t \<and> runs_at (ops t) (pcs' t)"
  using assms
proof (induction ts arbitrary: pcs a)
  case (Cons u ts)
  obtain p a' where step: "op_step (ops u) (pcs u, a) = (p, a')" by fastforce
  define q where "q = pcs(u := p)"
  have q: "runs_at (ops t) (q t)" "rank_of (q t) \<le> rank_of (pcs t) - (if u = t then 1 else 0)"
    using rank_op_step [OF Cons.prems(1), of a] Cons.prems(1) step by (auto simp: q_def)
  have "run_threads ops ts (q, a') = (pcs', b)"
    using Cons.prems(2) step by (simp add: q_def)
  from Cons.IH [OF q(1) this] q(2) show ?case by (auto split: if_splits)
qed simp

lemma finished_in_time:
  assumes "run_threads ops ts (\<lambda>t. op_start (ops t), a) = (pcs, b)" "STEP_BOUND \<le> count_list ts t"
  shows "finished (pcs t)"
  using rank_run [OF rank_start(2) assms(1), of t] rank_start(1) [of "ops t"] assms(2) rank_zero by fastforce

text \<open>
  C22: every operation is wait-free.  A thread that runs a GET, a SET or a DEL has its result after at most
  five steps of its own per slot and fourteen more, whatever number of other threads run whatever
  operations in between, and from whatever arena.
\<close>

theorem operations_are_wait_free:
  assumes "run_threads ops ts (\<lambda>t. op_start (ops t), a) = (pcs, b)" "STEP_BOUND \<le> count_list ts t"
  shows "finished (pcs t)"
  by (rule finished_in_time [OF assms])

theorem operations_are_wait_free_witness:
  "finished (fst (run_threads (\<lambda>_. Deleting [1]) (concat (replicate STEP_BOUND [0, 1, 2])) (\<lambda>_. op_start (Deleting [1]), blank_arena)) 1)"
proof -
  have "count_list (concat (replicate n [0, 1, 2])) (1 :: nat) = n" for n
    by (induction n) simp_all
  then show ?thesis
    using operations_are_wait_free [of "\<lambda>_. Deleting [1]" "concat (replicate STEP_BOUND [0, 1, 2])" blank_arena _ _ 1]
    by (metis order_refl prod.collapse)
qed

section \<open>Many deletions of one key\<close>

text \<open>
  A DEL on its way to the slot at probe \<open>j\<close>, which holds its key; \<open>gone\<close> once another thread has
  taken that slot.
\<close>

fun hunting :: "arena \<Rightarrow> bytes \<Rightarrow> nat \<Rightarrow> bool \<Rightarrow> del_pc \<Rightarrow> bool" where
  "hunting a key j gone (DelState i) \<longleftrightarrow> i < SLOT_COUNT \<and> (gone \<or> i \<le> j)"
| "hunting a key j gone (DelFingerprint i) \<longleftrightarrow> i < SLOT_COUNT \<and> (gone \<or> i \<le> j) \<and>
    state (slot a (probe (siphash key) i)) = STATE_OCCUPIED"
| "hunting a key j gone (DelKey i) \<longleftrightarrow> i < SLOT_COUNT \<and> (gone \<or> i \<le> j) \<and>
    state (slot a (probe (siphash key) i)) = STATE_OCCUPIED"
| "hunting a key j gone (DelSwap i) \<longleftrightarrow> i = j"
| "hunting a key j gone DelCount \<longleftrightarrow> False"
| "hunting a key j gone (DelDone r) \<longleftrightarrow> gone \<and> r = DelNotFound"

lemma hunting_gone: "hunting a key j False pc \<Longrightarrow> hunting a key j True pc"
  by (cases pc) simp_all

lemma hunting_next: "gone \<or> Suc i \<le> j \<Longrightarrow> j < SLOT_COUNT \<Longrightarrow> hunting a key j gone (del_next (Suc i))"
  by (auto simp: del_next_def)

lemma hunting_step_before:
  assumes wf: "arena_wf a" and j: "j < SLOT_COUNT" "holds a (probe (siphash key) j) key"
    and pc: "hunting a key j False pc"
  shows "snd (del_step key (pc, a)) = a \<and> hunting a key j False (fst (del_step key (pc, a))) \<or>
    pc = DelSwap j \<and> del_step key (pc, a) = (DelCount, bury (probe (siphash key) j) a)"
proof (cases pc)
  case (DelState i)
  have "state (slot a (probe (siphash key) i)) \<noteq> STATE_EMPTY" "i = j \<Longrightarrow> state (slot a (probe (siphash key) i)) = STATE_OCCUPIED"
    using wf_chain [OF wf j(2,1), of i] j(2) pc by (cases "i = j"; simp add: DelState holds_def)+
  with pc j(1) show ?thesis by (cases "i = j") (auto simp: DelState Let_def intro!: hunting_next)
next
  case (DelFingerprint i)
  then show ?thesis
    using wf_fingerprint [OF wf j(2)] pc j(1) by (cases "i = j") (auto intro!: hunting_next)
next
  case (DelKey i)
  have "i = j" if "read_key (slot a (probe (siphash key) i)) = key"
    using that wf_unique [OF wf j(2), of "probe (siphash key) i"] pc j(1) by (auto simp: DelKey holds_def)
  with pc j show ?thesis by (cases "i = j") (auto simp: DelKey holds_def intro!: hunting_next)
next
  case (DelSwap i)
  with pc j show ?thesis
    by (simp add: Let_def compare_exchange_state_def holds_def bury_def slot_mut_def slot_def)
qed (use pc in simp_all)

lemma hunting_step_after:
  assumes wf: "arena_wf a" and j: "j < SLOT_COUNT" "holds a (probe (siphash key) j) key"
    and b: "slot b = slot (bury (probe (siphash key) j) a)" and pc: "hunting a key j True pc"
  shows "snd (del_step key (pc, b)) = b \<and> hunting a key j True (fst (del_step key (pc, b)))"
proof (cases pc)
  case (DelState i)
  with pc j(1) show ?thesis by (auto simp: Let_def b arena_simps intro!: hunting_next split: if_splits)
next
  case (DelFingerprint i)
  with pc j(1) show ?thesis by (auto intro!: hunting_next)
next
  case (DelKey i)
  have "read_key (slot b p) = read_key (slot a p)" for p
    by (simp add: b arena_simps read_key_def)
  then have "i = j" if "read_key (slot b (probe (siphash key) i)) = key"
    using that wf_unique [OF wf j(2), of "probe (siphash key) i"] pc j(1) by (simp add: DelKey holds_def)
  with pc j(1) show ?thesis by (auto simp: DelKey intro!: hunting_next)
next
  case (DelSwap i)
  have "i = j" using pc DelSwap by simp
  with j(1) show ?thesis
    by (simp add: DelSwap Let_def compare_exchange_state_def b arena_simps hunting_next)
qed (use pc in simp_all)

text \<open>Before the key is taken, and after thread \<open>w\<close> has taken it.\<close>

definition all_hunting :: "arena \<Rightarrow> bytes \<Rightarrow> nat \<Rightarrow> (nat \<Rightarrow> place) \<times> arena \<Rightarrow> bool" where
  "all_hunting a key j x \<longleftrightarrow> snd x = a \<and> (\<forall>t. \<exists>pc. fst x t = AtDel pc \<and> hunting a key j False pc)"

definition taken_by :: "arena \<Rightarrow> bytes \<Rightarrow> nat \<Rightarrow> nat \<Rightarrow> (nat \<Rightarrow> place) \<times> arena \<Rightarrow> bool" where
  "taken_by a key j w x \<longleftrightarrow> (let b = bury (probe (siphash key) j) a in
      fst x w = AtDel DelCount \<and> snd x = b \<or> fst x w = AtDel (DelDone Deleted) \<and> snd x = add_used (- 1) b) \<and>
    (\<forall>t. t \<noteq> w \<longrightarrow> (\<exists>pc. fst x t = AtDel pc \<and> hunting a key j True pc))"

lemma deletions_step:
  assumes wf: "arena_wf a" and j: "j < SLOT_COUNT" "holds a (probe (siphash key) j) key"
    and inv: "all_hunting a key j (pcs, b) \<or> (\<exists>w. taken_by a key j w (pcs, b))"
    and step: "op_step (Deleting key) (pcs t, b) = (p, b')"
  shows "all_hunting a key j (pcs(t := p), b') \<or> (\<exists>w. taken_by a key j w (pcs(t := p), b'))"
  using inv
proof (elim disjE exE)
  assume all: "all_hunting a key j (pcs, b)"
  then obtain pc where pc: "pcs t = AtDel pc" "hunting a key j False pc" "b = a" by (auto simp: all_hunting_def)
  from hunting_step_before [OF wf j pc(2)] show ?thesis
  proof (elim disjE conjE)
    assume "snd (del_step key (pc, a)) = a" "hunting a key j False (fst (del_step key (pc, a)))"
    with all step pc show ?thesis by (auto simp: all_hunting_def case_prod_beta)
  next
    assume "del_step key (pc, a) = (DelCount, bury (probe (siphash key) j) a)"
    with all step pc have "taken_by a key j t (pcs(t := p), b')"
      by (auto simp: all_hunting_def taken_by_def Let_def) (metis hunting_gone)
    then show ?thesis by blast
  qed
next
  fix w assume w: "taken_by a key j w (pcs, b)"
  let ?b = "bury (probe (siphash key) j) a"
  have b: "slot b = slot ?b" using w by (auto simp: taken_by_def Let_def arena_simps)
  have "taken_by a key j w (pcs(t := p), b')"
  proof (cases "t = w")
    case True
    with w step show ?thesis by (auto simp: taken_by_def Let_def)
  next
    case False
    with w obtain pc where pc: "pcs t = AtDel pc" "hunting a key j True pc" by (auto simp: taken_by_def)
    from hunting_step_after [OF wf j b pc(2)] w step False pc(1) show ?thesis
      by (auto simp: taken_by_def Let_def case_prod_beta)
  qed
  then show ?thesis by blast
qed

lemma deletions_run:
  assumes wf: "arena_wf a" and j: "j < SLOT_COUNT" "holds a (probe (siphash key) j) key"
  shows "all_hunting a key j (run_threads (\<lambda>_. Deleting key) ts (\<lambda>_. op_start (Deleting key), a)) \<or>
    (\<exists>w. taken_by a key j w (run_threads (\<lambda>_. Deleting key) ts (\<lambda>_. op_start (Deleting key), a)))"
proof (rule run_threads_invariant [where T = UNIV])
  show "all_hunting a key j (\<lambda>_. op_start (Deleting key), a) \<or>
      (\<exists>w. taken_by a key j w (\<lambda>_. op_start (Deleting key), a))"
    by (simp add: all_hunting_def del_next_def)
qed (use deletions_step [OF wf j] in auto)

text \<open>
  C23: one of many deletions succeeds.  Any number of threads delete one key that the arena holds, with any
  interleaving of their loads and compare-and-exchanges: when those that have run have all
  returned, exactly one of them has answered that it deleted the key, the others that there was no
  such key, and the arena, its counter included, is as one DEL alone leaves it.
\<close>

theorem one_deletion_succeeds:
  assumes "arena_wf a" "entry a key \<noteq> None" "ts \<noteq> []"
    and "run_threads (\<lambda>_. Deleting key) ts (\<lambda>_. op_start (Deleting key), a) = (pcs, b)"
    and "\<forall>t\<in>List.set ts. finished (pcs t)"
  shows "(\<exists>!t. pcs t = AtDel (DelDone Deleted)) \<and>
    (\<forall>t\<in>List.set ts. pcs t = AtDel (DelDone Deleted) \<or> pcs t = AtDel (DelDone DelNotFound)) \<and>
    b = fst (hashmap_del key a)"
proof -
  obtain m where m: "holds a m key" using assms(2) by (auto simp: entry_None_iff)
  then obtain j where j: "j < SLOT_COUNT" "holds a (probe (siphash key) j) key"
    using holds_probe [OF m, of "siphash key"] by auto
  have del: "fst (hashmap_del key a) = add_used (- 1) (bury (probe (siphash key) j) a)"
    by (rule hashmap_del_cases [OF assms(1), of key]) (use j wf_unique [OF assms(1) j(2)] in auto)
  obtain t0 where "t0 \<in> List.set ts" using assms(3) by (cases ts) auto
  with assms(5) have "finished (pcs t0)" by blast
  have "\<not> all_hunting a key j (pcs, b)"
  proof
    assume "all_hunting a key j (pcs, b)"
    then obtain pc where "pcs t0 = AtDel pc" "hunting a key j False pc" unfolding all_hunting_def fst_conv by blast
    with \<open>finished (pcs t0)\<close> show False by (auto simp: finished_def)
  qed
  with deletions_run [OF assms(1) j, of ts] assms(4) obtain w where w: "taken_by a key j w (pcs, b)" by auto
  have others: "pcs t = AtDel (DelDone DelNotFound)" if t: "t \<in> List.set ts" "t \<noteq> w" for t
  proof -
    obtain pc where "pcs t = AtDel pc" "hunting a key j True pc" using w t(2) by (auto simp: taken_by_def)
    moreover have "finished (pcs t)" using assms(5) t(1) by blast
    ultimately show ?thesis by (auto simp: finished_def)
  qed
  have "w \<in> List.set ts"
  proof (rule ccontr)
    assume "w \<notin> List.set ts"
    from run_threads_idle [OF this assms(4)] w show False
      by (auto simp: taken_by_def del_next_def Let_def)
  qed
  with assms(5) have "finished (pcs w)" by blast
  with w have won: "pcs w = AtDel (DelDone Deleted)" "b = add_used (- 1) (bury (probe (siphash key) j) a)"
    by (auto simp: taken_by_def Let_def finished_def)
  have "t = w" if t: "pcs t = AtDel (DelDone Deleted)" for t
  proof (rule ccontr)
    assume "t \<noteq> w"
    with w obtain pc where "pcs t = AtDel pc" "hunting a key j True pc" unfolding taken_by_def fst_conv by blast
    with t show False by simp
  qed
  with won(1) have "\<exists>!t. pcs t = AtDel (DelDone Deleted)" by blast
  moreover have "\<forall>t\<in>List.set ts. pcs t = AtDel (DelDone Deleted) \<or> pcs t = AtDel (DelDone DelNotFound)"
    using won(1) others by metis
  ultimately show ?thesis using won(2) del by simp
qed

theorem one_deletion_succeeds_witness:
  "\<exists>pcs b. run_threads (\<lambda>_. Deleting [1]) [0, 1, 2, 0, 1, 2, 0, 1, 2, 1, 0, 2, 1, 0, 2, 0, 2]
      (\<lambda>_. op_start (Deleting [1]), fst (hashmap_set 5 [1] [7] 0 (fresh_arena blank_arena))) = (pcs, b) \<and>
    (\<exists>!t. pcs t = AtDel (DelDone Deleted))"
proof -
  let ?ts = "[0, 1, 2, 0, 1, 2, 0, 1, 2, 1, 0, 2, 1, 0, 2, 0, 2 :: nat]"
  let ?a = "fst (hashmap_set 5 [1] [7] 0 (fresh_arena blank_arena))" and ?p = "probe (siphash [1])"
  have s: "state (slot ?a (?p 0)) = STATE_OCCUPIED" "fingerprint (slot ?a (?p 0)) = siphash [1]" "read_key (slot ?a (?p 0)) = [1]"
    by (simp_all add: set_fresh arena_simps slot_simps wf_slot [OF wf_fresh_blank] MAX_KEY_LEN_def)
  have e: "state (slot ?a (?p (Suc 0))) = STATE_EMPTY"
    using probe_0_1 [of "siphash [1]"] by (simp add: set_fresh arena_simps)
  have "\<exists>pcs b. run_threads (\<lambda>_. Deleting [1]) ?ts (\<lambda>_. op_start (Deleting [1]), ?a) = (pcs, b) \<and>
      pcs 0 = AtDel (DelDone DelNotFound) \<and> pcs 1 = AtDel (DelDone Deleted) \<and> pcs 2 = AtDel (DelDone DelNotFound)"
    using s e probe_0_1 [of "siphash [1]"] one_lt_SLOT_COUNT
    by (simp add: del_next_def Let_def compare_exchange_state_def arena_simps slot_simps)
  then obtain pcs b where run: "run_threads (\<lambda>_. Deleting [1]) ?ts (\<lambda>_. op_start (Deleting [1]), ?a) = (pcs, b)"
    and fin: "\<forall>t\<in>List.set ?ts. finished (pcs t)" by (auto simp: finished_def)
  have wf: "arena_wf ?a" by (intro wf_hashmap_set wf_fresh_blank) (simp add: MAX_KEY_LEN_def)
  have "entry ?a [1] \<noteq> None" using entry_set_fresh [of "[1]" 5 "[7]" 0] by (simp add: MAX_KEY_LEN_def)
  from one_deletion_succeeds [OF wf this _ run fin] run show ?thesis by blast
qed

section \<open>Readers among themselves\<close>

text \<open>
  GETs that find nothing expired change no slot, so any number of them run as if each were alone.
\<close>

lemma get_reaches_result: "reaches (op_step (Getting now key)) (op_start (Getting now key), a)
  (AtGet (GetDone (snd (hashmap_get now key a))), fst (hashmap_get now key a))"
  using reaches_map [OF get_reaches [of now key 0 a], of "op_step (Getting now key)" "\<lambda>(pc, b). (AtGet pc, b)"]
  by (simp add: hashmap_get_def case_prod_beta)

lemma final_unique:
  assumes "reaches f x y" "reaches f x z" "f y = y" "f z = z"
  shows "y = z"
proof -
  obtain m n where "(f ^^ m) x = y" "(f ^^ n) x = z" using assms(1,2) by (auto simp: reaches_def)
  then have "(f ^^ (n + m)) x = y" "(f ^^ (m + n)) x = z"
    using funpow_fixed [of f y n] funpow_fixed [of f z m] assms(3,4) by (simp_all add: funpow_add)
  then show ?thesis by (simp add: add.commute)
qed

lemma get_step_writes: "get_step now key (pc, a) = (pc', b) \<Longrightarrow> b = a \<or> pc' = GetDone Expired"
  by (cases pc) (auto simp: Let_def)

text \<open>A GET on its way: on the arena it started with, where it got by its own steps alone.\<close>

definition reads_alone :: "operation \<Rightarrow> arena \<Rightarrow> place \<Rightarrow> bool" where
  "reads_alone oper a p \<longleftrightarrow> (\<exists>pc. p = AtGet pc) \<and> reaches (op_step oper) (op_start oper, a) (p, a)"

lemma reads_alone_start: "reads_alone (Getting now key) a (op_start (Getting now key))"
  by (auto simp: reads_alone_def)

lemma reads_alone_step:
  assumes "reads_alone (Getting now key) a p" "fst (hashmap_get now key a) = a"
    and "op_step (Getting now key) (p, a) = (p', b)"
  shows "b = a \<and> reads_alone (Getting now key) a p'"
proof -
  obtain pc where p: "p = AtGet pc" "reaches (op_step (Getting now key)) (op_start (Getting now key), a) (p, a)"
    using assms(1) by (auto simp: reads_alone_def)
  obtain pc' where step: "get_step now key (pc, a) = (pc', b)" "p' = AtGet pc'"
    using assms(3) by (auto simp: p(1) split: prod.splits)
  from p(2) obtain n where "(op_step (Getting now key) ^^ n) (op_start (Getting now key), a) = (p, a)"
    by (auto simp: reaches_def)
  then have there: "reaches (op_step (Getting now key)) (op_start (Getting now key), a) (p', b)"
    using assms(3) unfolding reaches_def by (intro exI [of _ "Suc n"]) simp
  have "b = a"
  proof (rule ccontr)
    assume "b \<noteq> a"
    with get_step_writes [OF step(1)] step(2) have "p' = AtGet (GetDone Expired)" by simp
    then show False using final_unique [OF there get_reaches_result] assms(2) \<open>b \<noteq> a\<close> by simp
  qed
  with there step(2) show ?thesis by (auto simp: reads_alone_def)
qed

lemma readers_run_alone:
  assumes "\<And>t. t \<in> List.set ts \<Longrightarrow> ops t = Getting (clk t) (keys t) \<and> fst (hashmap_get (clk t) (keys t) a) = a"
    and "run_threads ops ts (\<lambda>t. op_start (ops t), a) = (pcs, b)"
  shows "b = a" "t \<in> List.set ts \<Longrightarrow> finished (pcs t) \<Longrightarrow> pcs t = AtGet (GetDone (snd (hashmap_get (clk t) (keys t) a)))"
proof -
  let ?Q = "\<lambda>(pcs, b). b = a \<and> (\<forall>t\<in>List.set ts. reads_alone (ops t) a (pcs t))"
  have "?Q (run_threads ops ts (\<lambda>t. op_start (ops t), a))"
  proof (rule run_threads_invariant [where T = "List.set ts"])
    show "?Q (\<lambda>t. op_start (ops t), a)" using assms(1) reads_alone_start by simp
  next
    fix pcs b t pc b'
    assume "?Q (pcs, b)" "t \<in> List.set ts" "op_step (ops t) (pcs t, b) = (pc, b')"
    with reads_alone_step [of "clk t" "keys t" a "pcs t" pc b'] assms(1) [of t]
    show "?Q (pcs(t := pc), b')" by auto
  qed simp
  then have all: "b = a" "\<forall>t\<in>List.set ts. reads_alone (ops t) a (pcs t)" by (simp_all add: assms(2))
  show "b = a" by (rule all(1))
  assume t: "t \<in> List.set ts" "finished (pcs t)"
  then obtain r where r: "pcs t = AtGet (GetDone r)" using all(2) by (fastforce simp: reads_alone_def finished_def)
  have "reaches (op_step (Getting (clk t) (keys t))) (op_start (Getting (clk t) (keys t)), a) (AtGet (GetDone r), a)"
    using all(2) t(1) r assms(1) [OF t(1)] by (auto simp: reads_alone_def)
  from final_unique [OF this get_reaches_result] show "pcs t = AtGet (GetDone (snd (hashmap_get (clk t) (keys t) a)))"
    by (simp add: r)
qed

end
