(* ===== verification/Benchmarks.thy ===== *)
theory Benchmarks
  imports BasicUsage Contention
begin

text \<open>
  The benchmarks \<open>benches/throughput.rs\<close>: what they do to the arena and what they hand to \<open>black_box\<close>.
  Criterion measures the closures and decides how often they run: \<open>runs\<close> lists, for each time the
  outer closure of \<open>bench_function\<close> is called, the iterations of the inner one.  A panic is \<open>None\<close>.
  The clock readings are numbered by the path to the call that takes them.
\<close>

section \<open>Fixtures\<close>

definition SEED_KEYS :: nat where [model_consts]: "SEED_KEYS = 10000"

text \<open>\<open>{:06}\<close> of a number.\<close>

definition pad6 :: "nat \<Rightarrow> bytes" where
  "pad6 i = replicate (6 - length (show_nat i)) 0x30 @ show_nat i"

definition make_key :: "nat \<Rightarrow> bytes" where
  "make_key i = ascii ''bench:key:'' @ pad6 i"

definition make_value :: "nat \<Rightarrow> bytes" where
  "make_value i = ascii ''value:'' @ pad6 i @ ascii '':padding_to_64_bytes_xxxxxxxxxxxxxxxxxx''"

text \<open>What \<open>MemLaneClient::create\<close> gets from the system, on an object with content \<open>a\<close>.\<close>

record os_results =
  opened :: int
  errno_is :: int
  truncated :: int
  map_ok :: bool

definition bench_client :: "os_results \<Rightarrow> arena \<Rightarrow> arena option" where
  "bench_client os a =
    (case client_create (opened os) (errno_is os) (truncated os) (if map_ok os then Some a else None) of
      Ok m \<Rightarrow> Some (mem m) | Err e \<Rightarrow> None | Panic \<Rightarrow> None)"

definition seed :: "(nat \<Rightarrow> u64) \<Rightarrow> u64 \<Rightarrow> nat \<Rightarrow> arena \<Rightarrow> arena option" where
  "seed clk ttl n a =
    for_each (\<lambda>i a. map_option fst (unwrap (client_set (clk i) (make_key i) (make_value i) ttl a))) 0 n a"

section \<open>Iterations\<close>

text \<open>\<open>iter\<close> from index \<open>i\<close> on; \<open>bench_function\<close> starts each run of the closure with index 0.\<close>

fun iter :: "(nat \<Rightarrow> arena \<Rightarrow> (arena \<times> 'r) option) \<Rightarrow> nat \<Rightarrow> nat \<Rightarrow> arena \<Rightarrow> (arena \<times> 'r list) option" where
  "iter f i 0 a = Some (a, [])"
| "iter f i (Suc n) a = do { (a, x) \<leftarrow> f i a; (a, xs) \<leftarrow> iter f (Suc i) n a; Some (a, x # xs) }"

fun bench_function :: "(nat \<Rightarrow> nat \<Rightarrow> arena \<Rightarrow> (arena \<times> 'r) option) \<Rightarrow> nat \<Rightarrow> nat list \<Rightarrow> arena \<Rightarrow>
    (arena \<times> 'r list list) option" where
  "bench_function f r [] a = Some (a, [])"
| "bench_function f r (n # runs) a =
    do { (a, xs) \<leftarrow> iter (f r) 0 n a; (a, xss) \<leftarrow> bench_function f (Suc r) runs a; Some (a, xs # xss) }"

text \<open>An iteration gives the values it hands to \<open>black_box\<close>.\<close>

definition timed_get :: "u64 \<Rightarrow> nat \<Rightarrow> arena \<Rightarrow> (arena \<times> bytes option list) option" where
  "timed_get now i a = do { (a, v) \<leftarrow> unwrap (client_get now (make_key (i mod SEED_KEYS)) a); Some (a, [v]) }"

definition timed_set :: "u64 \<Rightarrow> u64 \<Rightarrow> nat \<Rightarrow> arena \<Rightarrow> (arena \<times> bytes option list) option" where
  "timed_set now ttl i a =
    do { (a, _) \<leftarrow> unwrap (client_set now (make_key (i mod SEED_KEYS)) (make_value (i mod SEED_KEYS)) ttl a);
         Some (a, []) }"

definition timed_mget :: "(nat \<Rightarrow> u64) \<Rightarrow> nat \<Rightarrow> arena \<Rightarrow> (arena \<times> bytes option list) option" where
  "timed_mget clk batch a = unwrap (client_mget clk (map (\<lambda>i. make_key (i mod SEED_KEYS)) [0..<batch]) a)"

text \<open>
  Four threads that each GET one key, in the interleaving \<open>sched\<close> of their steps; \<open>join\<close> does not
  return, here \<open>None\<close>, while a thread is not done.
\<close>

definition thread_key :: "nat \<Rightarrow> bytes" where
  "thread_key t = make_key (t * 100 mod SEED_KEYS)"

definition joined :: "place \<Rightarrow> bytes option option" where
  "joined p = (case p of
      AtGet (GetDone r) \<Rightarrow> Some (case r of Found v \<Rightarrow> Some v | _ \<Rightarrow> None)
    | _ \<Rightarrow> None)"

definition timed_threads :: "(nat \<Rightarrow> u64) \<Rightarrow> nat list \<Rightarrow> arena \<Rightarrow> (arena \<times> bytes option list) option" where
  "timed_threads clk sched a =
    (if list_ex (\<lambda>t. MAX_KEY_LEN < length (thread_key t)) [0..<4] then None
     else case run_threads (\<lambda>t. Getting (clk t) (thread_key t)) sched (\<lambda>t. op_start (Getting (clk t) (thread_key t)), a) of
       (pcs, b) \<Rightarrow> map_option (Pair b) (those (map (\<lambda>t. joined (pcs t)) [0..<4])))"

section \<open>The benchmarks of MemLane\<close>

type_synonym measured = "bytes option list list list"

definition bench_memlane_get ::
  "os_results \<Rightarrow> (nat list \<Rightarrow> u64) \<Rightarrow> nat list \<Rightarrow> arena \<Rightarrow> (arena \<times> measured) option" where
  "bench_memlane_get os clk runs a = do {
    a \<leftarrow> bench_client os a;
    a \<leftarrow> seed (\<lambda>i. clk [i]) 0 SEED_KEYS a;
    bench_function (\<lambda>r i. timed_get (clk [r, i]) i) 0 runs a }"

definition bench_memlane_set ::
  "os_results \<Rightarrow> (nat list \<Rightarrow> u64) \<Rightarrow> nat list \<Rightarrow> arena \<Rightarrow> (arena \<times> measured) option" where
  "bench_memlane_set os clk runs a = do {
    a \<leftarrow> bench_client os a;
    bench_function (\<lambda>r i. timed_set (clk [r, i]) 0 i) 0 runs a }"

definition bench_memlane_mixed ::
  "os_results \<Rightarrow> (nat list \<Rightarrow> u64) \<Rightarrow> nat list \<Rightarrow> arena \<Rightarrow> (arena \<times> measured) option" where
  "bench_memlane_mixed os clk runs a = do {
    a \<leftarrow> bench_client os a;
    a \<leftarrow> seed (\<lambda>i. clk [i]) 0 SEED_KEYS a;
    bench_function (\<lambda>r i. if i mod 5 = 0 then timed_set (clk [r, i]) 0 i else timed_get (clk [r, i]) i) 0 runs a }"

fun bench_sizes ::
  "(nat list \<Rightarrow> u64) \<Rightarrow> (nat \<Rightarrow> nat list) \<Rightarrow> nat list \<Rightarrow> arena \<Rightarrow> (arena \<times> measured list) option" where
  "bench_sizes clk runs [] a = Some (a, [])"
| "bench_sizes clk runs (batch_size # sizes) a = do {
    (a, xs) \<leftarrow> bench_function (\<lambda>r i. timed_mget (\<lambda>j. clk [batch_size, r, i, j]) batch_size) 0 (runs batch_size) a;
    (a, xss) \<leftarrow> bench_sizes clk runs sizes a;
    Some (a, xs # xss) }"

definition bench_memlane_mget ::
  "os_results \<Rightarrow> (nat list \<Rightarrow> u64) \<Rightarrow> (nat \<Rightarrow> nat list) \<Rightarrow> arena \<Rightarrow> (arena \<times> measured list) option" where
  "bench_memlane_mget os clk runs a = do {
    a \<leftarrow> bench_client os a;
    a \<leftarrow> seed (\<lambda>i. clk [i]) 0 SEED_KEYS a;
    bench_sizes clk runs [1, 10, 50, 100] a }"

definition bench_memlane_concurrent ::
  "os_results \<Rightarrow> (nat list \<Rightarrow> u64) \<Rightarrow> (nat \<Rightarrow> nat \<Rightarrow> nat list) \<Rightarrow> nat list \<Rightarrow> arena \<Rightarrow> (arena \<times> measured) option" where
  "bench_memlane_concurrent os clk sched runs a = do {
    a \<leftarrow> bench_client os a;
    a \<leftarrow> seed (\<lambda>i. clk [i]) 0 SEED_KEYS a;
    bench_function (\<lambda>r i. timed_threads (\<lambda>t. clk [r, i, t]) (sched r i)) 0 runs a }"

definition bench_memlane_ttl ::
  "os_results \<Rightarrow> (nat list \<Rightarrow> u64) \<Rightarrow> nat list \<Rightarrow> arena \<Rightarrow> (arena \<times> measured) option" where
  "bench_memlane_ttl os clk runs a = do {
    a \<leftarrow> bench_client os a;
    (a, xs) \<leftarrow> bench_function (\<lambda>r i. timed_set (clk [r, i]) 60 i) 0 runs a;
    a \<leftarrow> seed (\<lambda>i. clk [i]) 1 100 a;
    Some (a, xs) }"

text \<open>The group \<open>memlane_benches\<close>: each benchmark creates the arena anew on the object the last one left.\<close>

record bench_report =
  gets :: measured
  sets :: measured
  mixes :: measured
  mgets :: "measured list"
  threads :: measured
  ttls :: measured

definition memlane_benches ::
  "(nat \<Rightarrow> os_results) \<Rightarrow> (nat list \<Rightarrow> u64) \<Rightarrow> (nat \<Rightarrow> nat \<Rightarrow> nat list) \<Rightarrow> (nat \<Rightarrow> nat list) \<Rightarrow> (nat \<Rightarrow> nat list) \<Rightarrow>
    arena \<Rightarrow> (arena \<times> bench_report) option" where
  "memlane_benches os clk sched runs size_runs a = do {
    (a, g) \<leftarrow> bench_memlane_get (os 0) (\<lambda>p. clk (0 # p)) (runs 0) a;
    (a, s) \<leftarrow> bench_memlane_set (os 1) (\<lambda>p. clk (1 # p)) (runs 1) a;
    (a, x) \<leftarrow> bench_memlane_mixed (os 2) (\<lambda>p. clk (2 # p)) (runs 2) a;
    (a, m) \<leftarrow> bench_memlane_mget (os 3) (\<lambda>p. clk (3 # p)) size_runs a;
    (a, t) \<leftarrow> bench_memlane_concurrent (os 4) (\<lambda>p. clk (4 # p)) sched (runs 4) a;
    (a, e) \<leftarrow> bench_memlane_ttl (os 5) (\<lambda>p. clk (5 # p)) (runs 5) a;
    Some (a, \<lparr>gets = g, sets = s, mixes = x, mgets = m, threads = t, ttls = e\<rparr>) }"

section \<open>The benchmarks of Redis\<close>

text \<open>
  The same workload for another server through the crate \<open>redis\<close>: the commands sent, whose failures
  are ignored.  \<open>url_ok\<close> and \<open>link_ok\<close> tell whether \<open>Client::open\<close> and \<open>get_connection\<close> succeed.
\<close>

datatype redis_run = Unavailable | NoConnection | Sent "bytes list list" "bytes list list list"

definition utf8_unwrap :: "bytes \<Rightarrow> bytes option" where
  "utf8_unwrap bs = (if valid_utf8 bs then Some bs else None)"

definition redis_get :: "nat \<Rightarrow> bytes list option" where
  "redis_get i = do { key \<leftarrow> utf8_unwrap (make_key i); Some [ascii ''GET'', key] }"

definition redis_set :: "nat \<Rightarrow> bytes list option" where
  "redis_set i = do { key \<leftarrow> utf8_unwrap (make_key i); val \<leftarrow> utf8_unwrap (make_value i); Some [ascii ''SET'', key, val] }"

definition redis_iter :: "(nat \<Rightarrow> bytes list option) \<Rightarrow> nat \<Rightarrow> bytes list list option" where
  "redis_iter f n = those (map (\<lambda>i. f (i mod SEED_KEYS)) [0..<n])"

definition bench_redis_get :: "bool \<Rightarrow> bool \<Rightarrow> nat list \<Rightarrow> redis_run option" where
  "bench_redis_get url_ok link_ok runs =
    (if \<not> url_ok then Some Unavailable
     else if \<not> link_ok then Some NoConnection
     else do {
       seeds \<leftarrow> those (map redis_set [0..<SEED_KEYS]);
       sent \<leftarrow> those (map (redis_iter redis_get) runs);
       Some (Sent seeds sent) })"

definition bench_redis_set :: "bool \<Rightarrow> bool \<Rightarrow> nat list \<Rightarrow> redis_run option" where
  "bench_redis_set url_ok link_ok runs =
    (if \<not> url_ok then Some Unavailable
     else if \<not> link_ok then Some NoConnection
     else do {
       sent \<leftarrow> those (map (redis_iter redis_set) runs);
       Some (Sent [] sent) })"

section \<open>Fixtures have their size\<close>

lemma pad6_length: "i < 1000000 \<Longrightarrow> length (pad6 i) = 6"
  using length_show_nat [of i 6] by (simp add: pad6_def)

lemma pad6_ascii [simp]: "is_ascii (pad6 i)"
  using show_nat_ascii [of i] by (auto simp: pad6_def is_ascii_def)

lemma make_key_length: "i < 1000000 \<Longrightarrow> length (make_key i) = 16"
  by (simp add: make_key_def pad6_length)

text \<open>The comment of the source announces 64 bytes.\<close>

lemma make_value_length: "i < 1000000 \<Longrightarrow> length (make_value i) = 51"
  by (simp add: make_value_def pad6_length)

lemma fixtures_utf8: "valid_utf8 (make_key i)" "valid_utf8 (make_value i)"
  by (auto intro!: is_ascii_valid simp: make_key_def make_value_def) (simp_all add: ascii_def is_ascii_def)

text \<open>Equal keys have equal values.\<close>

lemma make_key_value: "make_key i = make_key j \<Longrightarrow> make_value i = make_value j"
  by (simp add: make_key_def make_value_def)

lemma mod_SEED_KEYS: "i mod SEED_KEYS < SEED_KEYS"
  by (simp add: SEED_KEYS_def)

definition bench_keys :: "bytes set" where
  "bench_keys = make_key ` {..<SEED_KEYS}"

interpretation bench: key_space bench_keys
proof unfold_locales
  show "finite bench_keys" by (simp add: bench_keys_def)
  have "card bench_keys \<le> SEED_KEYS" using card_image_le [of "{..<SEED_KEYS}" make_key] by (simp add: bench_keys_def)
  then show "card bench_keys < SLOT_COUNT" by (simp add: SEED_KEYS_def SLOT_COUNT_def)
  show "length k \<le> MAX_KEY_LEN" if "k \<in> bench_keys" for k
    using that make_key_length by (auto simp: bench_keys_def SEED_KEYS_def MAX_KEY_LEN_def)
qed

lemma bench_key_mem: "i < SEED_KEYS \<Longrightarrow> make_key i \<in> bench_keys"
  by (simp add: bench_keys_def)

lemma bench_value_fits: "i < SEED_KEYS \<Longrightarrow> length (make_value i) \<le> MAX_VAL_LEN"
  by (simp add: make_value_length SEED_KEYS_def MAX_VAL_LEN_def)

section \<open>Loops keep going\<close>

lemma for_each_indexed:
  assumes "\<And>j b. P j b \<Longrightarrow> j < i + n \<Longrightarrow> \<exists>b'. body j b = Some b' \<and> P (Suc j) b'" "P i a"
  shows "\<exists>a'. for_each body i n a = Some a' \<and> P (i + n) a'"
  using assms
proof (induction n arbitrary: i a)
  case (Suc n)
  from Suc.prems(1) [OF Suc.prems(2)] obtain b where b: "body i a = Some b" "P (Suc i) b" by auto
  from Suc.IH [of "Suc i" b] Suc.prems(1) b show ?case by simp
qed simp

lemma iter_works:
  assumes "\<And>j b. P b \<Longrightarrow> \<exists>b'. f j b = Some (b', x j) \<and> P b'" "P a"
  shows "\<exists>a'. iter f i n a = Some (a', map x [i..<i + n]) \<and> P a'"
  using assms(2)
proof (induction n arbitrary: i a)
  case (Suc n)
  from assms(1) [OF Suc.prems] obtain b where b: "f i a = Some (b, x i)" "P b" by blast
  from Suc.IH [OF b(2), of "Suc i"] obtain c where c: "iter f (Suc i) n b = Some (c, map x [Suc i..<Suc i + n])" "P c"
    by blast
  have "[i..<i + Suc n] = i # [Suc i..<Suc i + n]" by (simp add: upt_conv_Cons)
  with b(1) c show ?case by simp
qed simp

lemma bench_function_works:
  assumes "\<And>r j b. P b \<Longrightarrow> \<exists>b'. f r j b = Some (b', x j) \<and> P b'" "P a"
  shows "\<exists>a'. bench_function f r runs a = Some (a', map (\<lambda>n. map x [0..<n]) runs) \<and> P a'"
  using assms(2)
proof (induction runs arbitrary: r a)
  case (Cons n runs)
  from iter_works [of P "f r" x a 0 n, OF assms(1) Cons.prems] obtain b where
    b: "iter (f r) 0 n a = Some (b, map x [0..<n])" "P b" by auto
  from Cons.IH [OF b(2), of "Suc r"] b(1) show ?case by auto
qed simp

section \<open>The arena of a benchmark\<close>

text \<open>The first \<open>n\<close> keys hold their values, for ever.\<close>

definition hits :: "nat \<Rightarrow> arena \<Rightarrow> bool" where
  "hits n a \<longleftrightarrow> (\<exists>m. bench.kept a m \<and> (\<forall>j<n. m (make_key j) = Some (make_value j, 0)))"

lemma hits_fits: "hits n a \<Longrightarrow> bench.fits a"
  by (auto simp: hits_def bench.kept_def)

lemma hits_get:
  assumes "hits n a" "i < n" "i < SEED_KEYS"
  shows "client_get now (make_key i) a = (a, Ok (Some (make_value i)))"
    "hashmap_get now (make_key i) a = (a, Found (make_value i))"
  using assms bench.kept_get [OF _ bench_key_mem] bench.kept_hashmap_get by (auto simp: hits_def)

lemma hits_set:
  assumes "hits n a" "i \<le> n" "i < SEED_KEYS"
  shows "\<exists>a' x. client_set now (make_key i) (make_value i) 0 a = (a', Ok x) \<and> hits (if i = n then Suc n else n) a'"
proof -
  obtain m where m: "bench.kept a m" "\<forall>j<n. m (make_key j) = Some (make_value j, 0)"
    using assms(1) by (auto simp: hits_def)
  obtain a' x where set: "client_set now (make_key i) (make_value i) 0 a = (a', Ok x)"
    "bench.kept a' (m(make_key i \<mapsto> (make_value i, 0)))"
    using bench.kept_set [OF m(1) bench_key_mem bench_value_fits] assms(3) by blast
  define m' where "m' = m(make_key i \<mapsto> (make_value i, 0))"
  have m': "m' (make_key j) = Some (make_value j, 0)" if "j < n \<or> j = i" for j
    using that m(2) make_key_value [of j i] by (auto simp: m'_def)
  have "bench.kept a' m'" using set(2) by (simp only: m'_def)
  moreover have "j < n \<or> j = i" if "j < (if i = n then Suc n else n)" for j
    using that by (auto simp: less_Suc_eq split: if_splits)
  ultimately have "hits (if i = n then Suc n else n) a'"
    unfolding hits_def using m' by blast
  with set(1) show ?thesis by blast
qed

lemma seed_hits:
  assumes "bench.kept a m"
  shows "\<exists>a'. seed clk 0 SEED_KEYS a = Some a' \<and> hits SEED_KEYS a'"
proof -
  have "hits 0 a" using assms by (auto simp: hits_def)
  moreover have "\<exists>b'. map_option fst (unwrap (client_set (clk j) (make_key j) (make_value j) 0 b)) = Some b' \<and> hits (Suc j) b'"
    if "hits j b" "j < 0 + SEED_KEYS" for j b
    using hits_set [OF that(1), of j "clk j"] that(2) by (auto simp: unwrap_def)
  ultimately show ?thesis
    using for_each_indexed [where P = hits and i = 0 and n = SEED_KEYS] by (simp add: seed_def)
qed

lemma set_keeps_fits:
  assumes "bench.fits a" "i < SEED_KEYS"
  shows "\<exists>a' x. client_set now (make_key i) (make_value i) ttl a = (a', Ok x) \<and> bench.fits a'"
  using bench.fits_set(1,2) [OF assms(1) bench_key_mem bench_value_fits, OF assms(2,2)] by fastforce

lemma seed_fits:
  assumes "bench.fits a" "n \<le> SEED_KEYS"
  shows "\<exists>a'. seed clk ttl n a = Some a' \<and> bench.fits a'"
proof -
  have "\<exists>b'. map_option fst (unwrap (client_set (clk j) (make_key j) (make_value j) ttl b)) = Some b' \<and> bench.fits b'"
    if "bench.fits b" "j < 0 + n" for j b
    using set_keeps_fits [OF that(1), of j "clk j" ttl] that(2) assms(2) by (auto simp: unwrap_def)
  with assms(1) show ?thesis
    using for_each_indexed [where P = "\<lambda>_. bench.fits" and i = 0 and n = n] by (simp add: seed_def)
qed

section \<open>What the closures measure\<close>

abbreviation hit :: "nat \<Rightarrow> bytes option" where
  "hit i \<equiv> Some (make_value (i mod SEED_KEYS))"

lemma timed_get_hits: "hits SEED_KEYS a \<Longrightarrow> timed_get now i a = Some (a, [hit i])"
  by (simp add: timed_get_def hits_get(1) mod_SEED_KEYS unwrap_def)

lemma timed_set_hits: "hits SEED_KEYS a \<Longrightarrow> \<exists>a'. timed_set now 0 i a = Some (a', []) \<and> hits SEED_KEYS a'"
  using hits_set [of SEED_KEYS a "i mod SEED_KEYS" now] mod_SEED_KEYS [of i]
  by (auto simp: timed_set_def unwrap_def)

lemma timed_set_fits: "bench.fits a \<Longrightarrow> \<exists>a'. timed_set now ttl i a = Some (a', []) \<and> bench.fits a'"
  using set_keeps_fits [OF _ mod_SEED_KEYS, of a now i ttl] by (auto simp: timed_set_def unwrap_def)

lemma timed_mget_hits:
  assumes "hits SEED_KEYS a"
  shows "timed_mget clk n a = Some (a, map hit [0..<n])"
proof -
  have "client_mget clk (map (\<lambda>i. make_key (i mod SEED_KEYS)) is) a = (a, Ok (map hit is))" for "is"
    by (induction "is" arbitrary: clk) (simp_all add: hits_get(1) [OF assms] mod_SEED_KEYS)
  then show ?thesis by (simp add: timed_mget_def unwrap_def)
qed

lemma thread_key_mem: "t * 100 mod SEED_KEYS < SEED_KEYS"
  by (rule mod_SEED_KEYS)

text \<open>Every thread runs as if alone, and has its value after its turns.\<close>

definition fair :: "nat list \<Rightarrow> bool" where
  "fair sched \<longleftrightarrow> List.set sched \<subseteq> {..<4} \<and> (\<forall>t<4. STEP_BOUND \<le> count_list sched t)"

lemma timed_threads_hits:
  assumes "hits SEED_KEYS a" "fair sched"
  shows "timed_threads clk sched a = Some (a, map (\<lambda>t. hit (t * 100)) [0..<4])"
proof -
  let ?ops = "\<lambda>t. Getting (clk t) (thread_key t)"
  obtain pcs b where run: "run_threads ?ops sched (\<lambda>t. op_start (?ops t), a) = (pcs, b)" by fastforce
  have get: "hashmap_get (clk t) (thread_key t) a = (a, Found (make_value (t * 100 mod SEED_KEYS)))" for t
    unfolding thread_key_def by (rule hits_get(2) [OF assms(1)]) (rule thread_key_mem)+
  have ops: "?ops t = Getting (clk t) (thread_key t) \<and> fst (hashmap_get (clk t) (thread_key t) a) = a" for t
    by (simp add: get)
  note alone = readers_run_alone [where clk = clk and keys = thread_key, OF ops run]
  have "joined (pcs t) = Some (hit (t * 100))" if "t < 4" for t
  proof -
    have turns: "STEP_BOUND \<le> count_list sched t" using assms(2) that by (simp add: fair_def)
    then have "count_list sched t \<noteq> 0" by (simp add: STEP_BOUND_def)
    then have "t \<in> List.set sched" by (simp add: count_list_0_iff)
    from alone(2) [OF this finished_in_time [OF run turns]] show ?thesis by (simp add: joined_def get)
  qed
  then have "those (map (\<lambda>t. joined (pcs t)) [0..<4]) = Some (map (\<lambda>t. hit (t * 100)) [0..<4])"
    by (simp add: upt_rec)
  moreover have "length (thread_key t) \<le> MAX_KEY_LEN" for t
    unfolding thread_key_def by (rule bench.short_keys [OF bench_key_mem [OF thread_key_mem]])
  then have "\<not> list_ex (\<lambda>t. MAX_KEY_LEN < length (thread_key t)) [0..<4]"
    by (simp add: list_ex_iff not_less)
  ultimately show ?thesis
    using alone(1) by (simp add: timed_threads_def run del: op_start.simps)
qed

definition os_ok :: "os_results \<Rightarrow> bool" where
  "os_ok os \<longleftrightarrow> 0 \<le> opened os \<and> 0 \<le> truncated os \<and> map_ok os"

lemma bench_client_works:
  assumes "os_ok os" "\<forall>i<SLOT_COUNT. slot_wf (slot a i)"
  shows "\<exists>b. bench_client os a = Some b \<and> bench.kept b Map.empty"
proof -
  have "bench_client os a = Some (fresh_arena a)"
    using assms(1) by (simp add: os_ok_def bench_client_def client_create_def create_arena_def fresh_arena_def)
  moreover have "states_ok (fresh_arena a)"
    by (simp add: states_ok_def fresh_arena_def arena_simps slot_simps)
  ultimately show ?thesis
    using wf_fresh_arena [OF assms(2)] by (auto simp: bench.kept_def bench.fits_def)
qed

section \<open>The benchmarks\<close>

lemma fits_slots: "bench.fits a \<Longrightarrow> \<forall>i<SLOT_COUNT. slot_wf (slot a i)"
  by (simp add: bench.fits_def wf_slot)

text \<open>Creating and seeding the arena before the measurement.\<close>

lemma seeded_bench:
  assumes "os_ok os" "\<forall>i<SLOT_COUNT. slot_wf (slot a i)"
    and "\<And>b. hits SEED_KEYS b \<Longrightarrow> \<exists>a'. body b = Some (a', res) \<and> hits SEED_KEYS a'"
  shows "\<exists>a'. do { a \<leftarrow> bench_client os a; a \<leftarrow> seed clk 0 SEED_KEYS a; body a } = Some (a', res) \<and> bench.fits a'"
proof -
  obtain b where b: "bench_client os a = Some b" "bench.kept b Map.empty" using bench_client_works [OF assms(1,2)] by blast
  obtain c where c: "seed clk 0 SEED_KEYS b = Some c" "hits SEED_KEYS c" using seed_hits [OF b(2)] by blast
  from assms(3) [OF c(2)] b(1) c(1) show ?thesis by (auto dest: hits_fits)
qed

lemma bench_sizes_hits:
  assumes "hits SEED_KEYS a"
  shows "\<exists>a'. bench_sizes clk runs sizes a =
    Some (a', map (\<lambda>batch. map (\<lambda>n. replicate n (map hit [0..<batch])) (runs batch)) sizes) \<and> hits SEED_KEYS a'"
  using assms
proof (induction sizes arbitrary: a)
  case (Cons batch sizes)
  have "\<exists>b'. timed_mget (\<lambda>j. clk [batch, r, i, j]) batch b = Some (b', map hit [0..<batch]) \<and> hits SEED_KEYS b'"
    if "hits SEED_KEYS b" for r i b
    using timed_mget_hits [OF that] that by blast
  from bench_function_works [of "hits SEED_KEYS" "\<lambda>r i. timed_mget (\<lambda>j. clk [batch, r, i, j]) batch"
      "\<lambda>_. map hit [0..<batch]" a 0 "runs batch", OF this Cons.prems]
  obtain b where b: "bench_function (\<lambda>r i. timed_mget (\<lambda>j. clk [batch, r, i, j]) batch) 0 (runs batch) a =
      Some (b, map (\<lambda>n. replicate n (map hit [0..<batch])) (runs batch))" "hits SEED_KEYS b"
    by (auto simp: map_replicate_const)
  from Cons.IH [OF b(2)] b(1) show ?case by auto
qed simp

lemma bench_memlane_get_works:
  assumes "os_ok os" "\<forall>i<SLOT_COUNT. slot_wf (slot a i)"
  shows "\<exists>a'. bench_memlane_get os clk runs a = Some (a', map (\<lambda>n. map (\<lambda>i. [hit i]) [0..<n]) runs) \<and> bench.fits a'"
  unfolding bench_memlane_get_def
  by (rule seeded_bench [OF assms], rule bench_function_works) (auto simp: timed_get_hits)

lemma bench_memlane_mixed_works:
  assumes "os_ok os" "\<forall>i<SLOT_COUNT. slot_wf (slot a i)"
  shows "\<exists>a'. bench_memlane_mixed os clk runs a =
    Some (a', map (\<lambda>n. map (\<lambda>i. if i mod 5 = 0 then [] else [hit i]) [0..<n]) runs) \<and> bench.fits a'"
  unfolding bench_memlane_mixed_def
  by (rule seeded_bench [OF assms], rule bench_function_works) (auto simp: timed_get_hits timed_set_hits)

lemma bench_memlane_mget_works:
  assumes "os_ok os" "\<forall>i<SLOT_COUNT. slot_wf (slot a i)"
  shows "\<exists>a'. bench_memlane_mget os clk runs a =
    Some (a', map (\<lambda>batch. map (\<lambda>n. replicate n (map hit [0..<batch])) (runs batch)) [1, 10, 50, 100]) \<and> bench.fits a'"
  unfolding bench_memlane_mget_def by (rule seeded_bench [OF assms bench_sizes_hits])

lemma bench_memlane_concurrent_works:
  assumes "os_ok os" "\<forall>i<SLOT_COUNT. slot_wf (slot a i)" "\<forall>r i. fair (sched r i)"
  shows "\<exists>a'. bench_memlane_concurrent os clk sched runs a =
    Some (a', map (\<lambda>n. map (\<lambda>_. map (\<lambda>t. hit (t * 100)) [0..<4]) [0..<n]) runs) \<and> bench.fits a'"
  unfolding bench_memlane_concurrent_def
  by (rule seeded_bench [OF assms(1,2)], rule bench_function_works) (use assms(3) in \<open>simp_all add: timed_threads_hits\<close>)

lemma timed_sets_work:
  assumes "bench.fits a"
  shows "\<exists>a'. bench_function (\<lambda>r i. timed_set (clk r i) ttl i) 0 runs a = Some (a', map (\<lambda>n. map (\<lambda>_. []) [0..<n]) runs) \<and>
    bench.fits a'"
  by (rule bench_function_works) (simp_all add: timed_set_fits assms)

lemma bench_memlane_set_works:
  assumes "os_ok os" "\<forall>i<SLOT_COUNT. slot_wf (slot a i)"
  shows "\<exists>a'. bench_memlane_set os clk runs a = Some (a', map (\<lambda>n. map (\<lambda>_. []) [0..<n]) runs) \<and> bench.fits a'"
proof -
  obtain b where "bench_client os a = Some b" "bench.kept b Map.empty" using bench_client_works [OF assms] by blast
  with timed_sets_work [OF bench.kept_fits, of b] show ?thesis by (auto simp: bench_memlane_set_def)
qed

lemma bench_memlane_ttl_works:
  assumes "os_ok os" "\<forall>i<SLOT_COUNT. slot_wf (slot a i)"
  shows "\<exists>a'. bench_memlane_ttl os clk runs a = Some (a', map (\<lambda>n. map (\<lambda>_. []) [0..<n]) runs) \<and> bench.fits a'"
proof -
  obtain b where b: "bench_client os a = Some b" "bench.kept b Map.empty" using bench_client_works [OF assms] by blast
  obtain c where c: "bench_function (\<lambda>r i. timed_set (clk [r, i]) 60 i) 0 runs b = Some (c, map (\<lambda>n. map (\<lambda>_. []) [0..<n]) runs)"
    "bench.fits c" using timed_sets_work [OF bench.kept_fits [OF b(2)], of "\<lambda>r i. clk [r, i]" 60 runs] by blast
  obtain d where "seed (\<lambda>i. clk [i]) 1 100 c = Some d" "bench.fits d"
    using seed_fits [OF c(2), of 100] by (auto simp: SEED_KEYS_def)
  with b(1) c(1) show ?thesis by (simp add: bench_memlane_ttl_def)
qed

text \<open>
  C32: the benchmarks measure what their names say.  Whenever the six arenas can be created and the four
  threads get their turns, in whatever interleaving, no call of the suite panics, and every GET it
  measures is a hit on the seeded value: the iterations of GET, four of five of the mix, all keys of
  every MGET, and the four threads; whatever the clock shows, however often Criterion runs the
  closures, and even if keys have equal hashes.  The benchmark with a time to live measures no GET.
\<close>

theorem benchmarks_measure_hits:
  assumes "\<forall>b<6. os_ok (os b)" "\<forall>i<SLOT_COUNT. slot_wf (slot a i)" "\<forall>r i. fair (sched r i)"
  shows "\<exists>a' report. memlane_benches os clk sched runs size_runs a = Some (a', report) \<and> arena_wf a' \<and>
    gets report = map (\<lambda>n. map (\<lambda>i. [hit i]) [0..<n]) (runs 0) \<and>
    mixes report = map (\<lambda>n. map (\<lambda>i. if i mod 5 = 0 then [] else [hit i]) [0..<n]) (runs 2) \<and>
    mgets report = map (\<lambda>batch. map (\<lambda>n. replicate n (map hit [0..<batch])) (size_runs batch)) [1, 10, 50, 100] \<and>
    threads report = map (\<lambda>n. map (\<lambda>_. map (\<lambda>t. hit (t * 100)) [0..<4]) [0..<n]) (runs 4) \<and>
    ttls report = map (\<lambda>n. map (\<lambda>_. []) [0..<n]) (runs 5)"
proof -
  have os: "os_ok (os 0)" "os_ok (os 1)" "os_ok (os 2)" "os_ok (os 3)" "os_ok (os 4)" "os_ok (os 5)"
    using assms(1) by simp_all
  obtain b where b: "bench_memlane_get (os 0) (\<lambda>p. clk (0 # p)) (runs 0) a =
      Some (b, map (\<lambda>n. map (\<lambda>i. [hit i]) [0..<n]) (runs 0))" "bench.fits b"
    using bench_memlane_get_works [OF os(1) assms(2)] by blast
  obtain c where c: "bench_memlane_set (os 1) (\<lambda>p. clk (1 # p)) (runs 1) b =
      Some (c, map (\<lambda>n. map (\<lambda>_. []) [0..<n]) (runs 1))" "bench.fits c"
    using bench_memlane_set_works [OF os(2) fits_slots [OF b(2)]] by blast
  obtain d where d: "bench_memlane_mixed (os 2) (\<lambda>p. clk (2 # p)) (runs 2) c =
      Some (d, map (\<lambda>n. map (\<lambda>i. if i mod 5 = 0 then [] else [hit i]) [0..<n]) (runs 2))" "bench.fits d"
    using bench_memlane_mixed_works [OF os(3) fits_slots [OF c(2)]] by blast
  obtain e where e: "bench_memlane_mget (os 3) (\<lambda>p. clk (3 # p)) size_runs d =
      Some (e, map (\<lambda>batch. map (\<lambda>n. replicate n (map hit [0..<batch])) (size_runs batch)) [1, 10, 50, 100])" "bench.fits e"
    using bench_memlane_mget_works [OF os(4) fits_slots [OF d(2)]] by blast
  obtain f where f: "bench_memlane_concurrent (os 4) (\<lambda>p. clk (4 # p)) sched (runs 4) e =
      Some (f, map (\<lambda>n. map (\<lambda>_. map (\<lambda>t. hit (t * 100)) [0..<4]) [0..<n]) (runs 4))" "bench.fits f"
    using bench_memlane_concurrent_works [OF os(5) fits_slots [OF e(2)] assms(3)] by blast
  obtain g where g: "bench_memlane_ttl (os 5) (\<lambda>p. clk (5 # p)) (runs 5) f =
      Some (g, map (\<lambda>n. map (\<lambda>_. []) [0..<n]) (runs 5))" "bench.fits g"
    using bench_memlane_ttl_works [OF os(6) fits_slots [OF f(2)]] by blast
  show ?thesis
    unfolding memlane_benches_def
    by (simp only: b(1) c(1) d(1) e(1) f(1) g(1) bind.bind_lunit prod.case option.inject prod.inject
        bench_report.simps simp_thms) (use g(2) in \<open>simp add: bench.fits_def\<close>)
qed

theorem benchmarks_measure_hits_witness:
  "\<exists>a' report. memlane_benches (\<lambda>_. \<lparr>opened = 3, errno_is = 0, truncated = 0, map_ok = True\<rparr>) (\<lambda>_. 1700000000000)
      (\<lambda>_ _. concat (replicate STEP_BOUND [0, 1, 2, 3])) (\<lambda>_. [6]) (\<lambda>_. [1]) blank_arena = Some (a', report) \<and>
    mixes report = [[[], [Some (make_value 1)], [Some (make_value 2)], [Some (make_value 3)], [Some (make_value 4)], []]]"
proof -
  have count: "count_list (concat (replicate n [0, 1, 2, 3])) (t :: nat) = n" if "t < 4" for n t
    using that by (induction n) auto
  have "List.set (concat (replicate n [0, 1, 2, 3 :: nat])) \<subseteq> {..<4}" for n by auto
  then have "fair (concat (replicate STEP_BOUND [0, 1, 2, 3]))"
    unfolding fair_def by (simp only: count order_refl simp_thms cong: imp_cong)
  moreover have "\<forall>i<SLOT_COUNT. slot_wf (slot blank_arena i)" by (simp add: blank_arena_def slot_def slot_wf_blank)
  moreover have six: "[0..<6] = [0, 1, 2, 3, 4, 5 :: nat]" by (simp add: upt_rec)
  have "map (\<lambda>n. map (\<lambda>i. if i mod 5 = 0 then [] else [hit i]) [0..<n]) [6] =
      [[[], [Some (make_value 1)], [Some (make_value 2)], [Some (make_value 3)], [Some (make_value 4)], []]]"
    by (simp add: six SEED_KEYS_def)
  ultimately show ?thesis
    using benchmarks_measure_hits [of "\<lambda>_. \<lparr>opened = 3, errno_is = 0, truncated = 0, map_ok = True\<rparr>" blank_arena
        "\<lambda>_ _. concat (replicate STEP_BOUND [0, 1, 2, 3])" "\<lambda>_. 1700000000000" "\<lambda>_. [6]" "\<lambda>_. [1]"]
    by (simp only: os_ok_def os_results.simps order_refl simp_thms zero_le_numeral) blast
qed

text \<open>The Redis benchmarks do not panic either and send the same keys and values in the same order.\<close>

lemma redis_commands: "redis_get = (\<lambda>i. Some [ascii ''GET'', make_key i])"
  "redis_set = (\<lambda>i. Some [ascii ''SET'', make_key i, make_value i])"
  by (simp_all add: fun_eq_iff redis_get_def redis_set_def utf8_unwrap_def fixtures_utf8)

lemma those_Some: "those (map (\<lambda>x. Some (f x)) xs) = Some (map f xs)"
  by (induction xs) simp_all

lemma redis_iterations: "redis_iter (\<lambda>i. Some (f i)) = (\<lambda>n. Some (map (\<lambda>i. f (i mod SEED_KEYS)) [0..<n]))"
  by (simp add: fun_eq_iff redis_iter_def those_Some)

lemma redis_same_workload:
  "bench_redis_get True True runs = Some (Sent (map (\<lambda>i. [ascii ''SET'', make_key i, make_value i]) [0..<SEED_KEYS])
    (map (\<lambda>n. map (\<lambda>i. [ascii ''GET'', make_key (i mod SEED_KEYS)]) [0..<n]) runs))"
  "bench_redis_set True True runs = Some (Sent []
    (map (\<lambda>n. map (\<lambda>i. [ascii ''SET'', make_key (i mod SEED_KEYS), make_value (i mod SEED_KEYS)]) [0..<n]) runs))"
  by (simp_all add: bench_redis_get_def bench_redis_set_def redis_commands redis_iterations those_Some)

end
