(* ===== verification/Ffi.thy ===== *)
theory Ffi
  imports Client
begin

text \<open>
  \<open>src/lib.rs\<close>: the C interface.  A process sees one named shared-memory object and the clients it
  has boxed; a handle is null or the address of a box.  A key or value argument is null or points
  to the bytes given (the pointer and its length together), an output buffer is null or the
  writable bytes it points to.  Using a handle whose box is gone is undefined behaviour: the result
  \<open>None\<close>.
\<close>

section \<open>Processes\<close>

type_synonym ml_handle = "nat option"

record process =
  shm :: "arena option"
  boxes :: "nat \<rightharpoonup> int"
  next_box :: nat

type_synonym 'r ffi = "(process \<times> 'r) option"

text \<open>What \<open>mmap\<close> shows of the object: its content, zeros if it has just been created.\<close>

definition mapped :: "bool \<Rightarrow> process \<Rightarrow> arena option" where
  "mapped mmap_ok p = (if mmap_ok then Some (case shm p of Some a \<Rightarrow> a | None \<Rightarrow> blank_arena) else None)"

definition box_client :: "mapping \<Rightarrow> process \<Rightarrow> process \<times> ml_handle" where
  "box_client m p = (p\<lparr>shm := Some (mem m), boxes := (boxes p)(next_box p \<mapsto> fd m), next_box := Suc (next_box p)\<rparr>,
    Some (next_box p))"

definition ml_create :: "int \<Rightarrow> int \<Rightarrow> int \<Rightarrow> bool \<Rightarrow> process \<Rightarrow> process \<times> ml_handle" where
  "ml_create ret_open errno ret_trunc mmap_ok p =
    (case client_create ret_open errno ret_trunc (mapped mmap_ok p) of
      Ok client \<Rightarrow> box_client client p
    | _ \<Rightarrow> (if ret_open < 0 then p else p\<lparr>shm := mapped True p\<rparr>, None))"

text \<open>\<open>shm_open\<close> without \<open>O_CREAT\<close> fails when the object does not exist.\<close>

definition ml_open :: "int \<Rightarrow> bool \<Rightarrow> process \<Rightarrow> process \<times> ml_handle" where
  "ml_open ret_open mmap_ok p =
    (case client_open (if shm p = None then - 1 else ret_open) (mapped mmap_ok p) of
      Ok client \<Rightarrow> box_client client p
    | _ \<Rightarrow> (p, None))"

text \<open>\<open>drop\<close> unmaps and closes; the object itself stays.\<close>

definition ml_close :: "ml_handle \<Rightarrow> process \<Rightarrow> unit ffi" where
  "ml_close handle p = (case handle of
      None \<Rightarrow> Some (p, ())
    | Some h \<Rightarrow> (case boxes p h of
        None \<Rightarrow> None
      | Some _ \<Rightarrow> Some (p\<lparr>boxes := (boxes p)(h := None)\<rparr>, ())))"

section \<open>Operations\<close>

text \<open>\<open>&*(handle as *const MemLaneClient)\<close> and a call on the arena it is mapped to.\<close>

definition with_client :: "nat \<Rightarrow> (arena \<Rightarrow> arena \<times> 'r) \<Rightarrow> process \<Rightarrow> 'r ffi" where
  "with_client h f p = (case (boxes p h, shm p) of
      (Some _, Some a) \<Rightarrow> (case f a of (a', r) \<Rightarrow> Some (p\<lparr>shm := Some a'\<rparr>, r))
    | _ \<Rightarrow> None)"

definition ml_set :: "u64 \<Rightarrow> ml_handle \<Rightarrow> bytes option \<Rightarrow> bytes option \<Rightarrow> u64 \<Rightarrow> process \<Rightarrow> int ffi" where
  "ml_set now handle key_ptr val_ptr ttl_secs p = (case (handle, key_ptr, val_ptr) of
      (Some h, Some key, Some val) \<Rightarrow>
        with_client h (\<lambda>a. case client_set now key val ttl_secs a of (a', r) \<Rightarrow>
          (a', case r of Ok _ \<Rightarrow> 1 | _ \<Rightarrow> 0)) p
    | _ \<Rightarrow> Some (p, 0))"

text \<open>\<open>copy_nonoverlapping\<close> overwrites a prefix of the buffer.\<close>

definition ml_get :: "u64 \<Rightarrow> ml_handle \<Rightarrow> bytes option \<Rightarrow> bytes option \<Rightarrow> process \<Rightarrow> (bytes option \<times> int) ffi" where
  "ml_get now handle key_ptr out_buf p = (case (handle, key_ptr, out_buf) of
      (Some h, Some key, Some out) \<Rightarrow>
        with_client h (\<lambda>a. case client_get now key a of (a', r) \<Rightarrow>
          (a', case r of
            Ok (Some val) \<Rightarrow>
              (let copy_len = min (length val) (length out)
               in (Some (copy_prefix out (take copy_len val)), int copy_len))
          | Ok None \<Rightarrow> (Some out, - 1)
          | _ \<Rightarrow> (Some out, - 2))) p
    | _ \<Rightarrow> Some (p, out_buf, - 2))"

definition ml_del :: "ml_handle \<Rightarrow> bytes option \<Rightarrow> process \<Rightarrow> int ffi" where
  "ml_del handle key_ptr p = (case (handle, key_ptr) of
      (Some h, Some key) \<Rightarrow>
        with_client h (\<lambda>a. case client_del key a of (a', r) \<Rightarrow> (a', if r = Ok True then 1 else 0)) p
    | _ \<Rightarrow> Some (p, 0))"

definition ml_exists :: "u64 \<Rightarrow> ml_handle \<Rightarrow> bytes option \<Rightarrow> process \<Rightarrow> int ffi" where
  "ml_exists now handle key_ptr p = (case (handle, key_ptr) of
      (Some h, Some key) \<Rightarrow>
        with_client h (\<lambda>a. case client_exists now key a of (a', r) \<Rightarrow> (a', if r = Ok True then 1 else 0)) p
    | _ \<Rightarrow> Some (p, 0))"

definition ml_flush :: "ml_handle \<Rightarrow> process \<Rightarrow> int ffi" where
  "ml_flush handle p = (case handle of
      Some h \<Rightarrow> with_client h (\<lambda>a. case client_flush a of (a', r) \<Rightarrow> (a', case r of Ok _ \<Rightarrow> 1 | _ \<Rightarrow> 0)) p
    | None \<Rightarrow> Some (p, 0))"

definition ml_used_count :: "ml_handle \<Rightarrow> process \<Rightarrow> u64 ffi" where
  "ml_used_count handle p = (case handle of
      Some h \<Rightarrow> with_client h (\<lambda>a. (a, client_used_count a)) p
    | None \<Rightarrow> Some (p, 0))"

definition ml_capacity :: "ml_handle \<Rightarrow> process \<Rightarrow> u64 ffi" where
  "ml_capacity handle p = (case handle of
      Some h \<Rightarrow> with_client h (\<lambda>a. (a, of_nat (client_capacity a))) p
    | None \<Rightarrow> Some (p, 0))"

section \<open>Live handles\<close>

text \<open>A live handle: its box exists, and the object it maps holds a served arena.\<close>

definition serves :: "bytes set \<Rightarrow> process \<Rightarrow> nat \<Rightarrow> arena \<Rightarrow> bool" where
  "serves K p h a \<longleftrightarrow> boxes p h \<noteq> None \<and> shm p = Some a \<and> client_ok K a"

lemma with_client_live [simp]:
  "serves K p h a \<Longrightarrow> with_client h f p = Some (p\<lparr>shm := Some (fst (f a))\<rparr>, snd (f a))"
  by (auto simp: with_client_def serves_def case_prod_beta)

lemma client_create_ok:
  "0 \<le> ret_open \<Longrightarrow> 0 \<le> ret_trunc \<Longrightarrow>
   client_create ret_open errno ret_trunc (Some m) = Ok \<lparr>mem = fresh_arena m, fd = ret_open\<rparr>"
  by (simp add: client_create_def create_arena_def fresh_arena_def)

lemma fresh_magic: "magic (header (fresh_arena m)) = ARENA_MAGIC"
  by (simp add: fresh_arena_def init_header_def arena_simps)

section \<open>Properties\<close>

text \<open>
  C40: \<open>ml_get\<close> after a successful \<open>ml_set\<close> through the same handle gives the stored bytes cut to the
  caller's buffer, leaves the rest of the buffer alone and returns the number of bytes written, or
  -1 once the entry has expired.  (A value that was cut is reported like one that fits.)
\<close>

theorem ffi_set_get:
  assumes "serves K p h a" "k \<in> K" "length k \<le> MAX_KEY_LEN" "length v \<le> MAX_VAL_LEN"
    and "ml_set now (Some h) (Some k) (Some v) ttl p = Some (p', 1)"
  shows "map_option snd (ml_get t (Some h) (Some k) (Some out) p') =
    Some (if expired_at t (ttl_to_expiry now ttl) then (Some out, - 1)
      else (Some (take (length out) v @ drop (length v) out), int (min (length v) (length out))))"
proof -
  have ok: "client_ok K a" using assms(1) by (simp add: serves_def)
  note set = client_set_spec [OF ok assms(2-4), of now ttl]
  let ?a' = "fst (client_set now k v ttl a)"
  have p': "p' = p\<lparr>shm := Some ?a'\<rparr>" "snd (hashmap_set now k v ttl a) \<noteq> Full"
    using assms(1,5) set(1) by (auto simp: ml_set_def case_prod_beta split: if_splits)
  then have serves: "serves K p' h ?a'"
    using assms(1) set(2) by (simp add: serves_def)
  have "snd (client_get t k ?a') = Ok (if expired_at t (ttl_to_expiry now ttl) then None else Some v)"
    using client_get_spec(1) [OF set(2) assms(2,3), of t] set(3) p'(2) by (simp add: live_def)
  moreover have "copy_prefix out (take (min (length v) (length out)) v) =
      take (length out) v @ drop (length v) out"
    by (cases "length v \<le> length out") (simp_all add: copy_prefix_def min_def)
  ultimately show ?thesis
    using serves by (simp add: ml_get_def case_prod_beta Let_def)
qed

definition one_handle :: process where
  "one_handle = \<lparr>shm = Some (fresh_arena blank_arena), boxes = [0 \<mapsto> 3], next_box = 1\<rparr>"

lemma serves_one_handle: "serves {k} one_handle 0 (fresh_arena blank_arena)"
  by (simp add: serves_def one_handle_def)

theorem ffi_set_get_witness:
  "map_option snd (ml_get 9 (Some 0) (Some [1]) (Some [0, 0, 0])
    (one_handle\<lparr>shm := Some (fst (client_set 5 [1] [7, 8] 0 (fresh_arena blank_arena)))\<rparr>)) =
   Some (Some [7, 8, 0], 2)"
proof -
  let ?p = "one_handle\<lparr>shm := Some (fst (client_set 5 [1] [7, 8] 0 (fresh_arena blank_arena)))\<rparr>"
  have len: "length [1 :: u8] \<le> MAX_KEY_LEN" "length [7 :: u8, 8] \<le> MAX_VAL_LEN"
    by (simp_all add: MAX_KEY_LEN_def MAX_VAL_LEN_def)
  have "snd (hashmap_set 5 [1] [7, 8] 0 (fresh_arena blank_arena)) \<noteq> Full"
    by (rule set_room [OF wf_fresh_blank len(1) has_room_fresh])
  with client_set_spec(1) [OF client_ok_fresh _ len, of "[1]" 5 0]
  have "snd (client_set 5 [1] [7, 8] 0 (fresh_arena blank_arena)) = Ok True"
    by (simp add: entry_fresh_blank live_def)
  then have "ml_set 5 (Some 0) (Some [1]) (Some [7, 8]) 0 one_handle = Some (?p, 1)"
    using serves_one_handle [of "[1]"] by (simp add: ml_set_def case_prod_beta)
  from ffi_set_get [where t = 9 and out = "[0, 0, 0]", OF serves_one_handle _ len this] show ?thesis
    by simp
qed

text \<open>
  \<open>ml_create\<close> is not harmless while others use the cache.  When it succeeds, no key that a client
  with an earlier handle had stored is found through that handle any more.
\<close>

theorem create_wipes_other_clients:
  assumes "serves K p h a" "\<forall>i<SLOT_COUNT. slot_wf (slot a i)" "h < next_box p"
    and "ml_create ret_open errno ret_trunc True p = (p', Some h')" "length k \<le> MAX_KEY_LEN"
  shows "map_option snd (ml_exists t (Some h) (Some k) p') = Some 0"
proof -
  have ret: "0 \<le> ret_open" "0 \<le> ret_trunc"
    using assms(4) by (auto simp: ml_create_def client_create_def create_arena_def mapped_def split: if_splits)
  then have p': "p' = fst (box_client \<lparr>mem = fresh_arena a, fd = ret_open\<rparr> p)"
    using assms(1,4) by (auto simp: ml_create_def mapped_def serves_def client_create_ok box_client_def)
  have ok: "client_ok {k} (fresh_arena a)"
    using wf_fresh_arena [OF assms(2)] by (simp add: client_ok_def)
  then have "serves {k} p' h (fresh_arena a)"
    using assms(1,3) by (auto simp: p' box_client_def serves_def)
  with client_exists_spec(1) [OF ok _ assms(5), of t] wf_fresh_arena(2) [OF assms(2)] show ?thesis
    by (simp add: ml_exists_def case_prod_beta live_def)
qed

theorem create_wipes_other_clients_witness:
  "map_option snd (ml_exists 9 (Some 0) (Some [1]) (fst (ml_create 4 0 0 True one_handle))) = Some 0"
proof -
  have wf: "\<forall>i<SLOT_COUNT. slot_wf (slot (fresh_arena blank_arena) i)"
    using wf_fresh_blank by (simp add: wf_slot)
  have "ml_create 4 0 0 True one_handle = (fst (ml_create 4 0 0 True one_handle), Some 1)"
    by (simp add: ml_create_def mapped_def one_handle_def client_create_ok box_client_def)
  from create_wipes_other_clients [OF serves_one_handle wf _ this, of "[1]" 9] show ?thesis
    by (simp add: one_handle_def MAX_KEY_LEN_def)
qed

text \<open>
  The data outlives the handle.  After \<open>ml_close\<close> the old handle must not be used (that is
  undefined behaviour), but a client that opens the arena again finds every live entry.
\<close>

theorem data_survives_close:
  assumes "serves K p h a" "magic (header a) = ARENA_MAGIC" "k \<in> K" "length k \<le> MAX_KEY_LEN" "0 \<le> ret_open"
    and "ml_close (Some h) p = Some (p1, ())" "ml_open ret_open True p1 = (p2, h2)"
  shows "ml_exists t (Some h) (Some k) p1 = None \<and>
    map_option snd (ml_exists t h2 (Some k) p2) = Some (if live t (entry a) k = None then 0 else 1)"
proof -
  have p1: "p1 = p\<lparr>boxes := (boxes p)(h := None)\<rparr>"
    using assms(1,6) by (auto simp: ml_close_def serves_def)
  have p2: "(p2, h2) = box_client \<lparr>mem = a, fd = ret_open\<rparr> p1"
    using assms(1,2,5,7)
    by (simp add: ml_open_def client_open_def open_arena_def mapped_def serves_def p1)
  then have h2: "serves K p2 (next_box p1) a" "h2 = Some (next_box p1)"
    using assms(1) by (simp_all add: box_client_def serves_def)
  have "ml_exists t (Some h) (Some k) p1 = None"
    by (simp add: ml_exists_def p1 with_client_def)
  moreover have "snd (client_exists t k a) = Ok (live t (entry a) k \<noteq> None)"
    using client_exists_spec(1) [OF _ assms(3,4), of a t] assms(1) by (simp add: serves_def)
  ultimately show ?thesis
    using h2(1) by (simp add: h2(2) ml_exists_def case_prod_beta)
qed

theorem data_survives_close_witness:
  "map_option snd (ml_exists 9 (snd (ml_open 5 True (one_handle\<lparr>boxes := Map.empty\<rparr>))) (Some [1])
    (fst (ml_open 5 True (one_handle\<lparr>boxes := Map.empty\<rparr>)))) = Some 0"
proof -
  have "ml_close (Some 0) one_handle = Some (one_handle\<lparr>boxes := Map.empty\<rparr>, ())"
    by (simp add: ml_close_def one_handle_def)
  from data_survives_close [OF serves_one_handle fresh_magic _ _ _ this surjective_pairing, of "[1]" "[1]" 5 9]
  show ?thesis by (simp add: MAX_KEY_LEN_def entry_fresh_blank live_def)
qed

end
