(* ===== verification/Commands.thy ===== *)
theory Commands
  imports Replies KeySpace
begin

text \<open>
  What the commands of the server mean, without the slot array: a request is a call, a call has an
  effect on a finite map from keys to values with their expiry, and an answer that depends on that
  map, the clock and the text of INFO.  The dispatcher of \<open>src/server/mod.rs\<close> on the arena refines
  these meanings, for keys without hash collisions that are fewer than the slots.
\<close>

section \<open>Calls\<close>

datatype call =
    Refuse resp_value
  | Ping "bytes option"
  | Get bytes
  | Put bytes bytes u64
  | Remove "bytes list"
  | Present "bytes list"
  | GetMany "bytes list"
  | PutMany "(bytes \<times> bytes) list"
  | Increment bytes
  | Decrement bytes
  | TimeToLive
  | Clear
  | Describe
  | ListCommands

definition meaning :: "(bytes \<Rightarrow> bytes) \<Rightarrow> (bytes \<Rightarrow> bytes) \<Rightarrow> command \<Rightarrow> call" where
  "meaning uc lc cmd =
    (if name cmd = ascii ''PING'' then Ping (case args cmd of [] \<Rightarrow> None | x # _ \<Rightarrow> Some x)
     else if name cmd = ascii ''GET'' then
       (case args cmd of [k] \<Rightarrow> Get k | _ \<Rightarrow> Refuse (wrong_args lc (ascii ''GET'')))
     else if name cmd = ascii ''SET'' then
       (case args cmd of k # v # opts \<Rightarrow> Put k v (set_options uc 0 opts) | _ \<Rightarrow> Refuse (wrong_args lc (ascii ''SET'')))
     else if name cmd = ascii ''DEL'' then
       (if args cmd = [] then Refuse (wrong_args lc (ascii ''DEL'')) else Remove (args cmd))
     else if name cmd = ascii ''EXISTS'' then
       (if args cmd = [] then Refuse (wrong_args lc (ascii ''EXISTS'')) else Present (args cmd))
     else if name cmd = ascii ''MGET'' then
       (if args cmd = [] then Refuse (wrong_args lc (ascii ''MGET'')) else GetMany (args cmd))
     else if name cmd = ascii ''MSET'' then
       (if args cmd = [] \<or> length (args cmd) mod 2 \<noteq> 0 then Refuse (wrong_args lc (ascii ''MSET''))
        else PutMany (pairs (args cmd)))
     else if name cmd = ascii ''INCR'' then
       (case args cmd of [k] \<Rightarrow> Increment k | _ \<Rightarrow> Refuse (wrong_args lc (ascii ''INCR'')))
     else if name cmd = ascii ''DECR'' then
       (case args cmd of [k] \<Rightarrow> Decrement k | _ \<Rightarrow> Refuse (wrong_args lc (ascii ''DECR'')))
     else if name cmd = ascii ''TTL'' then
       (case args cmd of [k] \<Rightarrow> TimeToLive | _ \<Rightarrow> Refuse (wrong_args lc (ascii ''TTL'')))
     else if name cmd \<in> {ascii ''FLUSH'', ascii ''FLUSHALL'', ascii ''FLUSHDB''} then Clear
     else if name cmd = ascii ''INFO'' then Describe
     else if name cmd = ascii ''COMMAND'' then ListCommands
     else Refuse (unknown_command lc (name cmd)))"

fun call_keys :: "call \<Rightarrow> bytes list" where
  "call_keys (Get k) = [k]"
| "call_keys (Put k v ttl) = [k]"
| "call_keys (Remove ks) = ks"
| "call_keys (Present ks) = ks"
| "call_keys (GetMany ks) = ks"
| "call_keys (PutMany kvs) = map fst kvs"
| "call_keys (Increment k) = [k]"
| "call_keys (Decrement k) = [k]"
| "call_keys _ = []"

section \<open>Effects and answers\<close>

definition key_fits :: "bytes \<Rightarrow> bool" where
  "key_fits k \<longleftrightarrow> length k \<le> MAX_KEY_LEN"

definition pair_fits :: "bytes \<times> bytes \<Rightarrow> bool" where
  "pair_fits kv \<longleftrightarrow> key_fits (fst kv) \<and> length (snd kv) \<le> MAX_VAL_LEN"

text \<open>Keys that are read at the readings of a clock go if they have expired at theirs.\<close>

definition purged :: "(nat \<Rightarrow> u64) \<Rightarrow> bytes list \<Rightarrow> kv_map \<Rightarrow> kv_map" where
  "purged clk ks m = (\<lambda>k. case m k of
      None \<Rightarrow> None
    | Some (v, e) \<Rightarrow> if \<exists>i<length ks. ks ! i = k \<and> expired_at (clk i) e then None else Some (v, e))"

definition write_number :: "(u64 \<Rightarrow> u64) \<Rightarrow> (nat \<Rightarrow> u64) \<Rightarrow> bytes \<Rightarrow> kv_map \<Rightarrow> u64" where
  "write_number f clk k m = f (read_number (live (clk 0) m k))"

fun effect :: "(nat \<Rightarrow> u64) \<Rightarrow> call \<Rightarrow> kv_map \<Rightarrow> kv_map" where
  "effect clk (Get k) m = purged clk [k] m"
| "effect clk (Put k v ttl) m = (if pair_fits (k, v) then m(k \<mapsto> (v, ttl_to_expiry (clk 0) ttl)) else m)"
| "effect clk (Remove ks) m = m |` (- List.set ks)"
| "effect clk (Present ks) m = purged clk ks m"
| "effect clk (GetMany ks) m = purged clk (takeWhile key_fits ks) m"
| "effect clk (PutMany kvs) m = m ++ map_of (rev (map (\<lambda>(k, v). (k, v, 0)) (takeWhile pair_fits kvs)))"
| "effect clk (Increment k) m =
    (if key_fits k then m(k \<mapsto> (show_nat (unat (write_number (\<lambda>n. n + 1) clk k m)), 0)) else m)"
| "effect clk (Decrement k) m =
    (if key_fits k then m(k \<mapsto> (show_nat (unat (write_number (\<lambda>n. saturating_sub n 1) clk k m)), 0)) else m)"
| "effect clk Clear m = Map.empty"
| "effect clk _ m = m"

definition misfit :: "bytes \<times> bytes \<Rightarrow> resp_value" where
  "misfit kv = err (show_client_error
    (if key_fits (fst kv) then ValueTooLong (length (snd kv)) else KeyTooLong (length (fst kv))))"

definition value_reply :: "bytes option \<Rightarrow> resp_value" where
  "value_reply x = (case x of Some v \<Rightarrow> BulkString v | None \<Rightarrow> NilV)"

fun answer :: "(nat \<Rightarrow> u64) \<Rightarrow> bytes \<Rightarrow> call \<Rightarrow> kv_map \<Rightarrow> resp_value" where
  "answer clk info (Refuse r) m = r"
| "answer clk info (Ping x) m = (case x of Some msg \<Rightarrow> BulkString msg | None \<Rightarrow> SimpleString (ascii ''PONG''))"
| "answer clk info (Get k) m = (if key_fits k then value_reply (live (clk 0) m k) else misfit (k, []))"
| "answer clk info (Put k v ttl) m = (if pair_fits (k, v) then SimpleString (ascii ''OK'') else misfit (k, v))"
| "answer clk info (Remove ks) m = Integer (of_nat (card (List.set ks \<inter> dom m)))"
| "answer clk info (Present ks) m =
    Integer (of_nat (length (filter (\<lambda>i. live (clk i) m (ks ! i) \<noteq> None) [0..<length ks])))"
| "answer clk info (GetMany ks) m = (case List.find (\<lambda>k. \<not> key_fits k) ks of
      Some k \<Rightarrow> misfit (k, [])
    | None \<Rightarrow> Array (map (\<lambda>i. value_reply (live (clk i) m (ks ! i))) [0..<length ks]))"
| "answer clk info (PutMany kvs) m = (case List.find (\<lambda>kv. \<not> pair_fits kv) kvs of
      Some kv \<Rightarrow> misfit kv
    | None \<Rightarrow> SimpleString (ascii ''OK''))"
| "answer clk info (Increment k) m =
    (if key_fits k then Integer (write_number (\<lambda>n. n + 1) clk k m) else misfit (k, []))"
| "answer clk info (Decrement k) m =
    (if key_fits k then Integer (write_number (\<lambda>n. saturating_sub n 1) clk k m) else misfit (k, []))"
| "answer clk info TimeToLive m = Integer (- 1)"
| "answer clk info Clear m = SimpleString (ascii ''OK'')"
| "answer clk info Describe m = BulkString info"
| "answer clk info ListCommands m = Array []"

section \<open>Reading keys\<close>

lemma purged_Nil [simp]: "purged clk [] m = m"
  by (rule ext) (simp add: purged_def split: option.splits)

lemma purged_Cons: "purged clk (k # ks) m = purged (\<lambda>i. clk (Suc i)) ks (purge (clk 0) k m)"
proof
  fix k'
  have ex: "(\<exists>i<length (k # ks). P i) \<longleftrightarrow> P 0 \<or> (\<exists>i<length ks. P (Suc i))" for P
    by (simp add: Ex_less_Suc2)
  show "purged clk (k # ks) m k' = purged (\<lambda>i. clk (Suc i)) ks (purge (clk 0) k m) k'"
    unfolding purged_def ex by (auto simp: purge_def spec_get_def split: option.splits)
qed

lemma dom_purged: "dom (purged clk ks m) \<subseteq> dom m"
  by (auto simp: purged_def split: option.splits)

lemma purge_absent: "m k = None \<Longrightarrow> purge now k m = m"
  by (simp add: purge_def)

lemma find_map_Cons: "length (filter P [0..<Suc n]) =
    (if P 0 then 1 else 0) + length (filter (\<lambda>i. P (Suc i)) [0..<n])"
  by (simp add: upt_conv_Cons map_Suc_upt [symmetric] filter_map comp_def del: upt_Suc)

lemma map_upt_Cons: "map f [0..<Suc n] = f 0 # map (\<lambda>i. f (Suc i)) [0..<n]"
  by (simp add: map_upt_Suc del: upt_Suc)

lemma map_of_rev_Cons: "m ++ map_of (rev xs @ [(k, x)]) = m(k \<mapsto> x) ++ map_of (rev xs)"
  by (rule ext) (simp add: map_add_def split: option.splits)

lemma mono_Suc: "mono clk \<Longrightarrow> mono (\<lambda>i. clk (Suc i))"
  by (simp add: mono_def)

lemma live_later: "mono clk \<Longrightarrow> live (clk (Suc i)) (purge (clk 0) k m) = live (clk (Suc i)) m"
  by (rule live_purge) (simp add: mono_def)

section \<open>Loops of the dispatcher on the map\<close>

context script begin

definition reach :: "bytes list \<Rightarrow> bool" where
  "reach ks \<longleftrightarrow> (\<forall>k\<in>List.set ks. key_fits k \<longrightarrow> k \<in> J)"

lemma reach_Cons [simp]: "reach (k # ks) \<longleftrightarrow> (key_fits k \<longrightarrow> k \<in> J) \<and> reach ks"
  by (auto simp: reach_def)

lemma stored_long: "stored a m \<Longrightarrow> \<not> key_fits k \<Longrightarrow> m k = None"
  using key_facts(2) [of k] by (auto simp: stored_def key_fits_def)

lemma stored_dom: "stored a m \<Longrightarrow> dom m \<subseteq> J"
  by (simp add: stored_def)

lemma exists_count_stored:
  assumes "stored a m" "reach ks" "mono clk"
  shows "\<exists>a'. exists_count clk ks n a =
      (a', n + of_nat (length (filter (\<lambda>i. live (clk i) m (ks ! i) \<noteq> None) [0..<length ks]))) \<and>
    stored a' (purged clk ks m)"
  using assms
proof (induction ks arbitrary: clk n a m)
  case (Cons k ks)
  let ?m = "purge (clk 0) k m" and ?n = "if live (clk 0) m k \<noteq> None then n + 1 else n"
  have "\<exists>a1. stored a1 ?m \<and> exists_count clk (k # ks) n a = exists_count (\<lambda>i. clk (Suc i)) ks ?n a1"
  proof (cases "key_fits k")
    case True
    with Cons.prems(2) have "k \<in> J" by simp
    from stored_exists [OF Cons.prems(1) this, of "clk 0"] show ?thesis by auto
  next
    case False
    with stored_long [OF Cons.prems(1)] Cons.prems(1) show ?thesis
      by (intro exI [of _ a]) (simp add: client_exists_def key_fits_def purge_absent live_def)
  qed
  then obtain a1 where a1: "stored a1 ?m"
    "exists_count clk (k # ks) n a = exists_count (\<lambda>i. clk (Suc i)) ks ?n a1" by blast
  from Cons.prems(2) have "reach ks" by simp
  from Cons.IH [OF a1(1) this mono_Suc [OF Cons.prems(3)], of ?n] show ?case
    by (simp add: a1(2) purged_Cons find_map_Cons live_later [OF Cons.prems(3)] add.assoc
        del: upt_Suc exists_count.simps split: if_splits)
qed simp

lemma del_count_stored:
  assumes "stored a m" "reach ks"
  shows "\<exists>a'. del_count ks n a = (a', n + of_nat (card (List.set ks \<inter> dom m))) \<and> stored a' (m |` (- List.set ks))"
  using assms
proof (induction ks arbitrary: n a m)
  case (Cons k ks)
  let ?m = "m(k := None)" and ?n = "if m k \<noteq> None then n + 1 else n"
  have "\<exists>a1. stored a1 ?m \<and> del_count (k # ks) n a = del_count ks ?n a1"
  proof (cases "key_fits k")
    case True
    with Cons.prems(2) have "k \<in> J" by simp
    from stored_del [OF Cons.prems(1) this] show ?thesis by auto
  next
    case False
    with stored_long [OF Cons.prems(1)] Cons.prems(1) show ?thesis
      by (intro exI [of _ a]) (simp add: client_del_def key_fits_def fun_upd_idem)
  qed
  then obtain a1 where a1: "stored a1 ?m" "del_count (k # ks) n a = del_count ks ?n a1" by blast
  have "List.set (k # ks) \<inter> dom m =
      (if m k \<noteq> None then insert k (List.set ks \<inter> dom ?m) else List.set ks \<inter> dom ?m)" "k \<notin> dom ?m"
    by auto
  then have "of_nat (card (List.set (k # ks) \<inter> dom m)) =
      (if m k \<noteq> None then 1 else 0) + (of_nat (card (List.set ks \<inter> dom ?m)) :: i64)"
    by simp
  moreover have "?m |` (- List.set ks) = m |` (- List.set (k # ks))"
    by (auto simp: restrict_map_def)
  moreover from Cons.prems(2) have "reach ks" by simp
  from Cons.IH [where m = ?m, OF a1(1) this, of ?n] obtain a2 where
    "del_count ks ?n a1 = (a2, ?n + of_nat (card (List.set ks \<inter> dom ?m)))" "stored a2 (?m |` (- List.set ks))"
    by blast
  ultimately show ?case
    unfolding a1(2)
    by (intro exI [of _ a2], cases "m k = None") (simp_all only: add.assoc add_0_left simp_thms if_True if_False)
qed (simp add: restrict_map_def)

lemma mget_stored:
  assumes "stored a m" "reach ks" "mono clk"
  shows "\<exists>a'. client_mget clk ks a =
      (a', case List.find (\<lambda>k. \<not> key_fits k) ks of
        Some k \<Rightarrow> Err (KeyTooLong (length k))
      | None \<Rightarrow> Ok (map (\<lambda>i. live (clk i) m (ks ! i)) [0..<length ks])) \<and>
    stored a' (purged clk (takeWhile key_fits ks) m)"
  using assms
proof (induction ks arbitrary: clk a m)
  case (Cons k ks)
  show ?case
  proof (cases "key_fits k")
    case True
    with Cons.prems(2) have "k \<in> J" by simp
    from stored_get [OF Cons.prems(1) this, of "clk 0"] obtain a1 where
      a1: "client_get (clk 0) k a = (a1, Ok (live (clk 0) m k))" "stored a1 (purge (clk 0) k m)" by blast
    from Cons.IH [OF a1(2) _ mono_Suc [OF Cons.prems(3)]] Cons.prems(2) True show ?thesis
      by (auto simp: a1(1) purged_Cons map_upt_Cons live_later [OF Cons.prems(3)] simp del: upt_Suc split: option.splits)
  next
    case False
    with Cons.prems(1) show ?thesis by (simp add: client_get_def key_fits_def)
  qed
qed simp

lemma mset_stored:
  assumes "stored a m" "reach (map fst kvs)"
  shows "\<exists>a'. mset_loop clk kvs 0 n a =
      (a', case List.find (\<lambda>kv. \<not> pair_fits kv) kvs of
        Some (k, v) \<Rightarrow> Err (if key_fits k then ValueTooLong (length v) else KeyTooLong (length k))
      | None \<Rightarrow> Ok (n + length kvs)) \<and>
    stored a' (m ++ map_of (rev (map (\<lambda>(k, v). (k, v, 0)) (takeWhile pair_fits kvs))))"
  using assms
proof (induction kvs arbitrary: clk n a m)
  case (Cons kv kvs)
  obtain k v where kv: "kv = (k, v)" by fastforce
  show ?case
  proof (cases "pair_fits (k, v)")
    case True
    with Cons.prems(2) have "k \<in> J" "length v \<le> MAX_VAL_LEN" by (simp_all add: kv pair_fits_def)
    from stored_set [OF Cons.prems(1) this, of "clk 0" 0] obtain a1 where
      a1: "client_set (clk 0) k v 0 a = (a1, Ok (live (clk 0) m k = None))" "stored a1 (m(k \<mapsto> (v, 0)))"
      by (auto simp: ttl_0)
    have "reach (map fst kvs)" using Cons.prems(2) by simp
    note IH = Cons.IH [OF a1(2) this, of "\<lambda>i. clk (Suc i)" "Suc n"]
    have "mset_loop clk (kv # kvs) 0 n a = mset_loop (\<lambda>i. clk (Suc i)) kvs 0 (Suc n) a1"
      by (simp add: kv a1(1))
    with IH True show ?thesis
      by (simp only: kv list.map rev.simps map_of_rev_Cons takeWhile.simps find.simps if_True simp_thms if_False
          prod.case list.size add_Suc_right add_Suc add_0_right)
  next
    case False
    with Cons.prems(1) show ?thesis by (auto simp: kv client_set_def key_fits_def pair_fits_def)
  qed
qed simp

lemma store_number_stored:
  assumes "stored a m" "k \<in> J"
  shows "\<exists>a'. store_number f now1 now2 k a = (a', Ok (f (read_number (live now1 m k)))) \<and>
    stored a' (m(k \<mapsto> (show_nat (unat (f (read_number (live now1 m k)))), 0)))"
proof -
  from stored_get [OF assms, of now1] obtain a1 where
    a1: "client_get now1 k a = (a1, Ok (live now1 m k))" "stored a1 (purge now1 k m)" by blast
  have "(purge now1 k m)(k \<mapsto> x) = m(k \<mapsto> x)" for x by (simp add: purge_def)
  with stored_set [OF a1(2) assms(2) length_show_u64 [of "f (read_number (live now1 m k))"], of now2 0] show ?thesis
    by (auto simp: store_number_def a1(1) ttl_0 Let_def)
qed

text \<open>An arena and a reply that are what a call makes of a map.\<close>

definition meets :: "(nat \<Rightarrow> u64) \<Rightarrow> bytes \<Rightarrow> kv_map \<Rightarrow> call \<Rightarrow> arena \<times> resp_value \<Rightarrow> bool" where
  "meets clk info m c p \<longleftrightarrow> stored (fst p) (effect clk c m) \<and> snd p = answer clk info c m"

lemma meets_get:
  assumes "stored a m" "reach [k]"
  shows "meets clk info m (Get k) (case client_get (clk 0) k a of (a', r) \<Rightarrow>
    (a', reply_or_err (\<lambda>v. case v of Some v \<Rightarrow> bulk v | None \<Rightarrow> nil) r))"
proof (cases "key_fits k")
  case True
  with assms(2) have "k \<in> J" by simp
  from stored_get [OF assms(1) this, of "clk 0"] True show ?thesis
    by (auto simp: meets_def reply_or_err_def value_reply_def purged_Cons bulk_def nil_def split: option.splits)
next
  case False
  with assms(1) stored_long [OF assms(1) False] show ?thesis
    by (simp add: meets_def client_get_def key_fits_def reply_or_err_def misfit_def purged_Cons purge_absent)
qed

lemma meets_set:
  assumes "stored a m" "reach [k]"
  shows "meets clk info m (Put k v ttl) (case client_set (clk 0) k v ttl a of (a', r) \<Rightarrow> (a', reply_or_err (\<lambda>_. ok) r))"
proof (cases "pair_fits (k, v)")
  case True
  with assms(2) have "k \<in> J" "length v \<le> MAX_VAL_LEN" by (simp_all add: pair_fits_def)
  from stored_set [OF assms(1) this, of "clk 0" ttl] True show ?thesis
    by (auto simp: meets_def reply_or_err_def ok_def)
next
  case False
  with assms(1) show ?thesis
    by (auto simp: meets_def client_set_def key_fits_def pair_fits_def reply_or_err_def misfit_def)
qed

lemma meets_mget:
  assumes "stored a m" "reach ks" "mono clk"
  shows "meets clk info m (GetMany ks) (case client_mget clk ks a of (a', r) \<Rightarrow>
    (a', reply_or_err (\<lambda>vs. Array (map (\<lambda>v. case v of Some v \<Rightarrow> bulk v | None \<Rightarrow> nil) vs)) r))"
proof -
  have "(\<lambda>v. case v of Some v \<Rightarrow> bulk v | None \<Rightarrow> nil) = value_reply"
    by (rule ext) (simp add: value_reply_def bulk_def nil_def split: option.splits)
  moreover have "\<not> key_fits k" if "List.find (\<lambda>k. \<not> key_fits k) ks = Some k" for k
    using that by (auto simp: find_Some_iff)
  ultimately show ?thesis using mget_stored [OF assms]
    by (auto simp: meets_def reply_or_err_def misfit_def comp_def split: option.splits)
qed

lemma meets_mset:
  assumes "stored a m" "reach (map fst kvs)"
  shows "meets clk info m (PutMany kvs) (case client_mset clk kvs 0 a of (a', r) \<Rightarrow> (a', reply_or_err (\<lambda>_. ok) r))"
  using mset_stored [OF assms, of clk 0]
  by (auto simp: meets_def client_mset_def reply_or_err_def ok_def misfit_def split: option.splits)

lemma meets_number:
  assumes "stored a m" "reach [k]" "c = Increment k \<and> f = (\<lambda>n. n + 1) \<or> c = Decrement k \<and> f = (\<lambda>n. saturating_sub n 1)"
  shows "meets clk info m c (case store_number f (clk 0) (clk 1) k a of (a', r) \<Rightarrow> (a', reply_or_err integer r))"
proof (cases "key_fits k")
  case True
  with assms(2) have "k \<in> J" by simp
  from store_number_stored [OF assms(1) this, of f "clk 0" "clk 1"] assms(3) True show ?thesis
    by (auto simp: meets_def reply_or_err_def integer_def write_number_def)
next
  case False
  with assms(1,3) show ?thesis
    by (auto simp: meets_def store_number_def client_get_def key_fits_def reply_or_err_def misfit_def)
qed

lemma meets_flush:
  "stored a m \<Longrightarrow> meets clk info m Clear (case client_flush a of (a', r) \<Rightarrow> (a', reply_or_err (\<lambda>_. ok) r))"
  using stored_flush [of a m] by (auto simp: meets_def reply_or_err_def ok_def)

lemma meets_del: "stored a m \<Longrightarrow> reach ks \<Longrightarrow>
  meets clk info m (Remove ks) (case del_count ks 0 a of (a', n) \<Rightarrow> (a', integer n))"
  using del_count_stored [of a m ks 0] by (auto simp: meets_def integer_def)

lemma meets_exists: "stored a m \<Longrightarrow> reach ks \<Longrightarrow> mono clk \<Longrightarrow>
  meets clk info m (Present ks) (case exists_count clk ks 0 a of (a', n) \<Rightarrow> (a', integer n))"
  using exists_count_stored [of a m ks clk 0] by (auto simp: meets_def integer_def)

lemma map_fst_pairs: "k \<in> List.set (map fst (pairs ks)) \<Longrightarrow> k \<in> List.set ks"
  by (induction ks rule: pairs.induct) auto

text \<open>The branches of the dispatcher against the branches of the meaning.\<close>

definition branch :: "(nat \<Rightarrow> u64) \<Rightarrow> bytes \<Rightarrow> kv_map \<Rightarrow> call \<Rightarrow> arena \<times> resp_value \<Rightarrow> bool" where
  "branch clk info m c p \<longleftrightarrow> (reach (call_keys c) \<longrightarrow> meets clk info m c p)"

lemma branchI: "(reach (call_keys c) \<Longrightarrow> meets clk info m c p) \<Longrightarrow> branch clk info m c p"
  by (simp add: branch_def)

lemma branch_if: "(b \<Longrightarrow> branch clk info m c p) \<Longrightarrow> (\<not> b \<Longrightarrow> branch clk info m d q) \<Longrightarrow>
  branch clk info m (if b then c else d) (if b then p else q)"
  by simp

lemma branch_one:
  assumes "stored a m" "\<And>k. ks = [k] \<Longrightarrow> branch clk info m (f k) p"
  shows "branch clk info m (case ks of [] \<Rightarrow> Refuse r | [k] \<Rightarrow> f k | k # x # xs \<Rightarrow> Refuse r)
    (if length ks \<noteq> 1 then (a, r) else p)"
  using assms by (auto simp: branch_def meets_def split: list.splits)

lemma branch_two:
  assumes "stored a m" "\<And>k v opts. ks = k # v # opts \<Longrightarrow> branch clk info m (f k v opts) p"
  shows "branch clk info m (case ks of [] \<Rightarrow> Refuse r | [k] \<Rightarrow> Refuse r | k # v # opts \<Rightarrow> f k v opts)
    (if length ks < 2 then (a, r) else p)"
  using assms by (auto simp: branch_def meets_def split: list.splits)

lemma branch_pure: "stored a m \<Longrightarrow> effect clk c m = m \<Longrightarrow> r = answer clk info c m \<Longrightarrow> branch clk info m c (a, r)"
  by (simp add: branch_def meets_def)

lemma dispatch_branches:
  assumes "stored a m" "mono clk"
  shows "branch clk (info_text a) m (meaning uc lc cmd) (dispatch uc lc clk cmd a)"
  unfolding dispatch_def meaning_def Let_def incr_store_number decr_store_number
proof (intro branch_if branch_one branch_two assms(1), goal_cases)
  case 1
  show ?case
    by (rule branch_pure [OF assms(1)]) (simp_all add: pong_def bulk_def split: list.splits)
next
  case (2 k)
  then show ?case by (intro branchI) (simp add: meets_get [OF assms(1)])
next
  case (3 k v opts)
  then show ?case by (intro branchI) (simp add: meets_set [OF assms(1)])
next
  case 5
  then show ?case by (intro branchI meets_del [OF assms(1)]) simp
next
  case 7
  then show ?case by (intro branchI meets_exists [OF assms(1) _ assms(2)]) simp
next
  case 9
  then show ?case by (intro branchI meets_mget [OF assms(1) _ assms(2)]) simp
next
  case 11
  then show ?case by (intro branchI meets_mset [OF assms(1)]) simp
next
  case (12 k)
  then show ?case by (intro branchI) (simp add: meets_number [OF assms(1)] del: One_nat_def)
next
  case (13 k)
  then show ?case by (intro branchI) (simp add: meets_number [OF assms(1)] del: One_nat_def)
next
  case 14
  show ?case
    by (rule branch_pure [OF assms(1)]) (auto simp: integer_def split: list.splits)
next
  case 15
  then show ?case by (intro branchI meets_flush [OF assms(1)])
qed (rule branch_pure [OF assms(1)]; simp add: bulk_def; fail)+

end

section \<open>The refinement\<close>

text \<open>
  A set of keys for which the arena is as good as the map: fewer than its slots, short enough, no
  two with one hash; and an arena that holds a map with keys from it.
\<close>

definition key_set :: "bytes set \<Rightarrow> bool" where
  "key_set K \<longleftrightarrow> finite K \<and> card K < SLOT_COUNT \<and> (\<forall>k\<in>K. length k \<le> MAX_KEY_LEN) \<and> inj_on siphash K"

definition represents :: "bytes set \<Rightarrow> arena \<Rightarrow> kv_map \<Rightarrow> bool" where
  "represents K a m \<longleftrightarrow> arena_wf a \<and> states_ok a \<and> entry a = m \<and> dom m \<subseteq> K"

definition admissible :: "bytes set \<Rightarrow> call \<Rightarrow> bool" where
  "admissible K c \<longleftrightarrow> (\<forall>k\<in>List.set (call_keys c). key_fits k \<longrightarrow> k \<in> K)"

lemma key_set_script: "key_set K \<Longrightarrow> script K K"
  by unfold_locales (auto simp: key_set_def)

lemma represents_stored: "key_set K \<Longrightarrow> represents K a m \<longleftrightarrow> script.stored K K a m"
  using key_space.fits_def [OF script.axioms(1), of K K a]
  by (auto simp: represents_def script.stored_def [OF key_set_script] key_set_script)

lemma dispatch_on_map:
  assumes "key_set K" "represents K a m" "admissible K (meaning uc lc cmd)" "mono clk"
  shows "snd (dispatch uc lc clk cmd a) = answer clk (info_text a) (meaning uc lc cmd) m"
    "represents K (fst (dispatch uc lc clk cmd a)) (effect clk (meaning uc lc cmd) m)"
  using script.dispatch_branches [OF key_set_script [OF assms(1)] assms(2) [unfolded represents_stored [OF assms(1)]] assms(4), of uc lc cmd]
    assms(3)
  by (simp_all add: script.branch_def [OF key_set_script [OF assms(1)]] script.meets_def [OF key_set_script [OF assms(1)]]
      script.reach_def [OF key_set_script [OF assms(1)]] admissible_def represents_stored [OF assms(1)])


lemma key_set_1: "key_set {[1]}"
  by (simp add: key_set_def SLOT_COUNT_def MAX_KEY_LEN_def)

lemma represents_fresh: "represents K (fresh_arena blank_arena) Map.empty"
  by (simp add: represents_def wf_fresh_blank entry_fresh_blank states_ok_def state_fresh_blank)


end
