(* ===== verification/Serial.thy ===== *)
theory Serial
  imports Connections Commands "HOL-Library.Sublist"
begin

text \<open>
  The server as one sequential machine.  Whatever the order in which the tasks of
  \<open>src/server/mod.rs\<close> take their turns, what they do to the arena and what they answer is a log of
  frames, executed one after the other: the log is the order in which the tasks parsed them.  With
  the meanings of the commands this makes the server a single map that answers calls.
\<close>

section \<open>The log of a run\<close>

datatype work = Frame resp_value | Garbage resp_error

record exec =
  conn_no :: nat
  exec_env :: env
  seq_no :: nat
  work_of :: work

definition run_work :: "env \<Rightarrow> nat \<Rightarrow> work \<Rightarrow> arena \<Rightarrow> arena \<times> resp_value" where
  "run_work env n w a = (case w of
      Frame val \<Rightarrow> dispatch_command (upper env) (lower env) (clock env n) val a
    | Garbage e \<Rightarrow> (a, err (show_resp_error e)))"

definition run_exec :: "exec \<Rightarrow> arena \<Rightarrow> arena \<times> resp_value" where
  "run_exec e a = run_work (exec_env e) (seq_no e) (work_of e) a"

text \<open>What a task finds in its buffer at the head of its inner loop.\<close>

fun task_work :: "env \<Rightarrow> task \<Rightarrow> work list" where
  "task_work env (Parsing offset, c) = (case slice offset (length (pending c)) (pending c) of
      None \<Rightarrow> []
    | Some rest \<Rightarrow> (case parse (alloc env) rest of
        Ok (Some (val, consumed)) \<Rightarrow> [Frame val]
      | Err e \<Rightarrow> [Garbage e]
      | _ \<Rightarrow> []))"
| "task_work env _ = []"

definition executed :: "server_event \<Rightarrow> server \<Rightarrow> exec list" where
  "executed ev s = (case ev of
      Run i input \<Rightarrow> if i < length (tasks s) then
        (case tasks s ! i of (env, t) \<Rightarrow>
          map (\<lambda>w. \<lparr>conn_no = i, exec_env = env, seq_no = length (metrics (snd t)), work_of = w\<rparr>) (task_work env t))
        else []
    | _ \<Rightarrow> [])"

fun history :: "server_event list \<Rightarrow> server \<Rightarrow> exec list" where
  "history [] s = []"
| "history (ev # evs) s = executed ev s @ history evs (server_step ev s)"

text \<open>The log of one connection, and the bytes of its replies.\<close>

definition own_log :: "nat \<Rightarrow> exec list \<Rightarrow> work list" where
  "own_log i log = map work_of (filter (\<lambda>e. conn_no e = i) log)"

definition own_replies :: "nat \<Rightarrow> exec list \<Rightarrow> resp_value list \<Rightarrow> bytes list" where
  "own_replies i log rs = map (encode_to_vec \<circ> snd) (filter (\<lambda>(e, r). conn_no e = i) (zip log rs))"

lemma history_append: "history (xs @ ys) s = history xs s @ history ys (run_server xs s)"
  by (induction xs arbitrary: s) simp_all

lemma kv_run_append:
  "kv_run step (xs @ ys) s = (fst (kv_run step ys (fst (kv_run step xs s))),
    snd (kv_run step xs s) @ snd (kv_run step ys (fst (kv_run step xs s))))"
  by (induction xs arbitrary: s) (simp_all add: case_prod_beta)

lemma length_kv_run [simp]: "length (snd (kv_run step xs s)) = length xs"
  by (induction xs arbitrary: s) (simp_all add: case_prod_beta)

lemma own_replies_append: "length rs = length log \<Longrightarrow>
  own_replies i (log @ log') (rs @ rs') = own_replies i log rs @ own_replies i log' rs'"
  by (simp add: own_replies_def)

lemma own_log_append: "own_log i (log @ log') = own_log i log @ own_log i log'"
  by (simp add: own_log_def)

section \<open>One turn of a task\<close>

text \<open>The replies of a task that went out, or are on their way out, against all it has made.\<close>

definition delivered :: "task \<Rightarrow> bytes list \<Rightarrow> bool" where
  "delivered t outs \<longleftrightarrow> (case fst t of
      Replying offset bs \<Rightarrow> outs = sent (snd t) @ [bs]
    | Rejecting bs \<Rightarrow> outs = sent (snd t) @ [bs]
    | Ended e \<Rightarrow> prefix (sent (snd t)) outs \<and> length outs \<le> Suc (length (sent (snd t)))
    | _ \<Rightarrow> outs = sent (snd t))"

lemma sent_write_all: "write_all env bs c = Inl c' \<Longrightarrow> sent c' = sent c"
  "write_all env bs c = Inr c' \<Longrightarrow> sent c' = sent c @ [bs]"
  by (auto simp: write_all_def split: if_splits)

lemma task_step_work:
  fixes env :: env and pc :: task_pc and c :: conn
  defines "run \<equiv> kv_run (run_work env (length (metrics c))) (task_work env (pc, c)) (store c)"
  shows "store (snd (task_step env input (pc, c))) = fst run"
    "delivered (pc, c) outs \<Longrightarrow> delivered (task_step env input (pc, c)) (outs @ map encode_to_vec (snd run))"
proof (atomize (full), cases pc)
  case (Parsing offset)
  then show "store (snd (task_step env input (pc, c))) = fst run \<and>
    (delivered (pc, c) outs \<longrightarrow> delivered (task_step env input (pc, c)) (outs @ map encode_to_vec (snd run)))"
    by (auto simp: run_def delivered_def run_work_def run_command_def case_prod_beta
        split: option.splits rresult.splits)
qed (auto simp: run_def delivered_def store_write_all sent_write_all split: read.splits sum.splits)

section \<open>One turn of the server\<close>

definition log_of :: "nat \<Rightarrow> env \<Rightarrow> nat \<Rightarrow> work list \<Rightarrow> exec list" where
  "log_of i env n = map (\<lambda>w. \<lparr>conn_no = i, exec_env = env, seq_no = n, work_of = w\<rparr>)"

lemma executed_Run: "i < length (tasks s) \<Longrightarrow> tasks s ! i = (env, t) \<Longrightarrow>
  executed (Run i input) s = log_of i env (length (metrics (snd t))) (task_work env t)"
  by (simp add: executed_def log_of_def)

lemma executed_none: "\<forall>i input. ev = Run i input \<longrightarrow> \<not> i < length (tasks s) \<Longrightarrow> executed ev s = []"
  by (cases ev) (auto simp: executed_def)

lemma kv_run_log_of: "kv_run run_exec (log_of i env n ws) a = kv_run (run_work env n) ws a"
  by (induction ws arbitrary: a) (simp_all add: log_of_def run_exec_def)

lemma own_replies_log_of: "length rs = length ws \<Longrightarrow>
  own_replies j (log_of i env n ws) rs = (if j = i then map encode_to_vec rs else [])"
  by (induction rs ws rule: list_induct2) (auto simp: own_replies_def log_of_def)

lemma own_log_log_of: "own_log j (log_of i env n ws) = (if j = i then ws else [])"
  by (induction ws) (auto simp: own_log_def log_of_def)

lemma task_work_store [simp]: "task_work env (pc, c\<lparr>store := a\<rparr>) = task_work env (pc, c)"
  by (cases pc) (simp_all split: option.splits)

lemma delivered_store [simp]: "delivered (pc, c\<lparr>store := a\<rparr>) outs = delivered (pc, c) outs"
  by (simp add: delivered_def split: task_pc.splits)

lemma delivered_connected [simp]: "delivered (Reading, connected a) outs \<longleftrightarrow> outs = []"
  by (simp add: delivered_def connected_def)

text \<open>
  The arena and the replies are those of the log, run from the start.
\<close>

definition serial :: "arena \<Rightarrow> exec list \<Rightarrow> server \<Rightarrow> bool" where
  "serial a log s \<longleftrightarrow> shared s = fst (kv_run run_exec log a) \<and>
    (\<forall>i<length (tasks s). delivered (snd (tasks s ! i)) (own_replies i log (snd (kv_run run_exec log a)))) \<and>
    (\<forall>e\<in>List.set log. conn_no e < length (tasks s))"

lemma own_replies_beyond: "\<forall>e\<in>List.set log. conn_no e < n \<Longrightarrow> n \<le> i \<Longrightarrow> own_replies i log rs = []"
  by (fastforce simp: own_replies_def filter_empty_conv dest: set_zip_leftD)

lemma serial_step:
  assumes "serial a log s"
  shows "serial a (log @ executed ev s) (server_step ev s)"
proof (cases "\<exists>i input. ev = Run i input \<and> i < length (tasks s)")
  case True
  then obtain i input where ev: "ev = Run i input" "i < length (tasks s)" by blast
  obtain env pc c where t: "tasks s ! i = (env, pc, c)" by (cases "tasks s ! i") auto
  let ?c = "c\<lparr>store := shared s\<rparr>" and ?ws = "task_work env (pc, c)" and ?n = "length (metrics c)"
  let ?run = "kv_run (run_work env ?n) ?ws (shared s)" and ?rs = "snd (kv_run run_exec log a)"
  note turn = task_step_work [where env = env and input = input and pc = pc and c = ?c, simplified]
  have new: "executed ev s = log_of i env ?n ?ws" using ev t by (simp add: executed_Run)
  have run: "kv_run run_exec (log @ executed ev s) a = (fst ?run, ?rs @ snd ?run)"
    using assms by (simp add: kv_run_append new kv_run_log_of serial_def)
  have "delivered (snd (tasks (server_step ev s) ! j)) (own_replies j (log @ executed ev s) (?rs @ snd ?run))"
    if "j < length (tasks s)" for j
  proof -
    have outs: "own_replies j (log @ executed ev s) (?rs @ snd ?run) =
        own_replies j log ?rs @ (if j = i then map encode_to_vec (snd ?run) else [])"
      by (simp add: own_replies_append new own_replies_log_of)
    have "delivered (snd (tasks s ! j)) (own_replies j log ?rs)" using assms that by (simp add: serial_def)
    with turn(2) show ?thesis
      using step_own(1) [OF ev(2) t, of input] step_other [of j s ev] that ev t unfolding outs
      by (cases "j = i") (simp_all add: run_task_def case_prod_beta)
  qed
  moreover have "length (tasks (server_step ev s)) = length (tasks s)"
    using ev by (simp add: run_task_def case_prod_beta)
  moreover have "shared (server_step ev s) = fst ?run"
    using step_own(2) [OF ev(2) t, of input] turn(1) ev(1) by simp
  moreover have "\<forall>e\<in>List.set (log @ executed ev s). conn_no e < length (tasks s)"
    using assms ev(2) by (auto simp: serial_def new log_of_def)
  ultimately show ?thesis unfolding serial_def run fst_conv snd_conv by (simp only:) simp
next
  case False
  then have "executed ev s = []" by (intro executed_none) blast
  then have new: "log @ executed ev s = log" by simp
  show ?thesis unfolding new
  proof (cases ev)
    case (Accept env)
    then show "serial a log (server_step ev s)"
      using assms own_replies_beyond [of log "length (tasks s)" "length (tasks s)"]
      by (auto simp: serial_def nth_append less_Suc_eq)
  qed (use assms False in \<open>auto simp: serial_def run_task_def\<close>)
qed

lemma serial_run: "serial a log s \<Longrightarrow> serial a (log @ history evs s) (run_server evs s)"
proof (induction evs arbitrary: log s)
  case (Cons ev evs)
  from Cons.IH [OF serial_step [OF Cons.prems]] show ?case by simp
qed simp

lemma serial_start: "serial a [] (server_start a)"
  by (simp add: serial_def server_start_def)

section \<open>The log of a connection is what its client sent\<close>

text \<open>The bytes that the reads of connection \<open>i\<close> have given.\<close>

definition fresh_bytes :: "nat \<Rightarrow> server_event \<Rightarrow> server \<Rightarrow> bytes" where
  "fresh_bytes i ev s = (case ev of
      Run j (Data bs) \<Rightarrow> if j = i \<and> i < length (tasks s) \<and> fst (snd (tasks s ! i)) = Reading then bs else []
    | _ \<Rightarrow> [])"

fun received :: "nat \<Rightarrow> server_event list \<Rightarrow> server \<Rightarrow> bytes" where
  "received i [] s = []"
| "received i (ev # evs) s = fresh_bytes i ev s @ received i evs (server_step ev s)"

lemma received_append: "received i (xs @ ys) s = received i xs s @ received i ys (run_server xs s)"
  by (induction xs arbitrary: s) simp_all

text \<open>
  A task between two frames of the stream its client sends: the frames before are its log, its
  unread bytes and those still to come are the frames after.
\<close>

definition aligned :: "env \<Rightarrow> resp_value list \<Rightarrow> bytes \<Rightarrow> bytes \<Rightarrow> work list \<Rightarrow> task \<Rightarrow> bool" where
  "aligned env vs tail rest ws t \<longleftrightarrow> (\<exists>past future. vs = past @ future \<and> ws = map Frame past \<and>
    (case fst t of
      Reading \<Rightarrow> parse (alloc env) (pending (snd t)) = Ok None \<and>
        pending (snd t) @ rest = concat (map encoding future) @ tail
    | Parsing offset \<Rightarrow> offset \<le> length (pending (snd t)) \<and>
        drop offset (pending (snd t)) @ rest = concat (map encoding future) @ tail
    | Replying offset bs \<Rightarrow> offset \<le> length (pending (snd t)) \<and>
        drop offset (pending (snd t)) @ rest = concat (map encoding future) @ tail
    | Rejecting bs \<Rightarrow> False
    | Ended e \<Rightarrow> True))"

lemma aligned_read:
  assumes "aligned env vs tail (bs @ rest) ws (Reading, c)"
  shows "aligned env vs tail rest ws (task_step env (Data bs) (Reading, c))"
  using assms by (auto simp: aligned_def)

lemma aligned_parse:
  assumes "list_all (resp_ok (alloc env)) vs" "parse (alloc env) tail = Ok None"
    and "aligned env vs tail rest ws (Parsing offset, c)"
  shows "aligned env vs tail rest (ws @ task_work env (Parsing offset, c)) (task_step env input (Parsing offset, c))"
proof -
  let ?p = "drop offset (pending c)"
  obtain past future where vs: "vs = past @ future" "ws = map Frame past" "offset \<le> length (pending c)"
    "?p @ rest = concat (map encoding future) @ tail"
    using assms(3) by (auto simp: aligned_def)
  have "list_all (resp_ok (alloc env)) future" using assms(1) vs(1) by simp
  from wire.split_frames [OF this assms(2) vs(4)] obtain vs1 vs2 p' where
    f: "future = vs1 @ vs2" "?p = concat (map encoding vs1) @ p'" "parse (alloc env) p' = Ok None"
      "p' @ rest = concat (map encoding vs2) @ tail" .
  show ?thesis
  proof (cases vs1)
    case Nil
    with f vs show ?thesis by (auto simp: aligned_def slice_to_end)
  next
    case (Cons v us)
    have unread: "unread env offset c (v # us) p'"
      using assms(1) vs(1,3) f(1,2) Cons by (simp add: unread_def)
    note step = unread_step [OF this]
    have "unread env (offset + length (encoding v)) (fst (run_command env v c)) us p'"
      by (rule step(3)) (rule pending_run_command [OF surjective_pairing])
    with step(1,2) vs(1,2) f(1,4) Cons show ?thesis
      unfolding aligned_def
      by - (rule exI [of _ "past @ [v]"], rule exI [of _ "us @ vs2"], simp add: case_prod_beta unread_def)
  qed
qed

lemma aligned_step:
  assumes "list_all (resp_ok (alloc env)) vs" "parse (alloc env) tail = Ok None"
    and "aligned env vs tail ((if pc = Reading then case input of Data bs \<Rightarrow> bs | ReadError \<Rightarrow> [] else []) @ rest) ws (pc, c)"
  shows "aligned env vs tail rest (ws @ task_work env (pc, c)) (task_step env input (pc, c))"
proof (cases pc)
  case Reading
  with assms(3) aligned_read [of env vs tail _ rest ws c] show ?thesis
    by (cases input) (auto simp: aligned_def)
next
  case (Parsing offset)
  with aligned_parse [OF assms(1,2), of rest ws offset c input] assms(3) show ?thesis by simp
next
  case (Replying offset bs)
  with assms(3) show ?thesis
    by (auto simp: aligned_def pending_write_all split: sum.splits)
qed (use assms(3) in \<open>auto simp: aligned_def\<close>)

lemma aligned_store [simp]: "aligned env vs tail rest ws (pc, c\<lparr>store := a\<rparr>) = aligned env vs tail rest ws (pc, c)"
  by (simp add: aligned_def split: task_pc.splits)

lemma parse_Nil: "parse al [] = Ok None"
  by (simp add: parse.simps)

lemma own_log_executed:
  assumes "i < length (tasks s)" "tasks s ! i = (env, t)"
  shows "own_log i (executed ev s) = (if \<exists>input. ev = Run i input then task_work env t else [])"
proof (cases ev)
  case (Run j input)
  then show ?thesis
    using assms executed_Run [of j s] own_log_log_of [of i j]
    by (cases "j < length (tasks s)"; cases "tasks s ! j") (auto simp: executed_def own_log_def [of i "[]"])
qed (simp_all add: executed_def own_log_def)

lemma fresh_bytes_own:
  assumes "i < length (tasks s)" "tasks s ! i = (env, pc, c)"
  shows "fresh_bytes i ev s = (case ev of
      Run j input \<Rightarrow> if j = i \<and> pc = Reading then (case input of Data bs \<Rightarrow> bs | ReadError \<Rightarrow> []) else []
    | _ \<Rightarrow> [])"
  using assms by (auto simp: fresh_bytes_def split: server_event.splits read.splits)

text \<open>A connection that is not there yet has received and done nothing.\<close>

lemma beyond_step:
  assumes "length (tasks s) \<le> i"
  shows "own_log i (executed ev s) = []" "fresh_bytes i ev s = []"
proof -
  show "own_log i (executed ev s) = []"
  proof (cases ev)
    case (Run j input)
    then show ?thesis
      using assms executed_Run [of j s] own_log_log_of [of i j]
      by (cases "j < length (tasks s)"; cases "tasks s ! j") (auto simp: executed_def own_log_def [of i "[]"])
  qed (simp_all add: executed_def own_log_def)
  show "fresh_bytes i ev s = []"
    using assms by (auto simp: fresh_bytes_def split: server_event.splits read.splits)
qed

lemma beyond_run:
  assumes "length (tasks (run_server evs s)) \<le> i"
  shows "own_log i (history evs s) = []" "received i evs s = []"
proof (atomize (full), use assms in \<open>induction evs arbitrary: s\<close>)
  case (Cons ev evs)
  have "length (tasks t) \<le> length (tasks (run_server evs t))" for t
    by (induction evs arbitrary: t) (auto intro: order_trans [OF length_server_step])
  from this [of "server_step ev s"] length_server_step [of s ev] Cons.prems have "length (tasks s) \<le> i" by simp
  with Cons show ?case by (simp add: own_log_append beyond_step)
qed (simp add: own_log_def)

lemma connection_aligned:
  assumes "list_all (resp_ok (alloc env)) vs" "parse (alloc env) tail = Ok None"
    and "i < length (tasks (run_server evs (server_start a)))" "tasks (run_server evs (server_start a)) ! i = (env, t)"
    and "received i evs (server_start a) @ rest = concat (map encoding vs) @ tail"
  shows "aligned env vs tail rest (own_log i (history evs (server_start a))) t"
  using assms(3-5)
proof (induction evs arbitrary: t rest rule: rev_induct)
  case Nil
  then show ?case by (simp add: server_start_def)
next
  case (snoc ev evs)
  let ?s = "run_server evs (server_start a)"
  let ?log = "own_log i (history evs (server_start a))"
  have s': "run_server (evs @ [ev]) (server_start a) = server_step ev ?s" by simp
  have log: "own_log i (history (evs @ [ev]) (server_start a)) = ?log @ own_log i (executed ev ?s)"
    by (simp add: history_append own_log_append)
  have got: "received i evs (server_start a) @ fresh_bytes i ev ?s @ rest = concat (map encoding vs) @ tail"
    using snoc.prems(3) by (simp add: received_append)
  note own = snoc.prems(1,2) [unfolded s']
  show ?case
  proof (cases "i < length (tasks ?s)")
    case True
    obtain env' pc c where t: "tasks ?s ! i = (env', pc, c)" by (cases "tasks ?s ! i") auto
    have env: "env' = env"
      using own(2) step_own(1) [OF True t] step_other [OF True, of ev] t by (cases "\<exists>input. ev = Run i input") auto
    note IH = snoc.IH [OF True t [unfolded env] got]
    show ?thesis
    proof (cases "\<exists>input. ev = Run i input")
      case True': True
      then obtain input where ev: "ev = Run i input" by blast
      have "t = task_step env input (pc, c\<lparr>store := shared ?s\<rparr>)"
        using step_own(1) [OF True t, of input] own(2) by (simp add: ev env del: server_step.simps)
      moreover have "aligned env vs tail rest (?log @ task_work env (pc, c\<lparr>store := shared ?s\<rparr>))
          (task_step env input (pc, c\<lparr>store := shared ?s\<rparr>))"
        using IH by (intro aligned_step [OF assms(1,2)]) (simp add: fresh_bytes_own [OF True t] ev)
      ultimately show ?thesis
        unfolding log own_log_executed [OF True t] by (simp add: ev env)
    next
      case False
      then have "fresh_bytes i ev ?s = []" "own_log i (executed ev ?s) = []" "t = (pc, c)"
        using fresh_bytes_own [OF True t] own_log_executed [OF True t] step_other [OF True, of ev] own(2) t
        by (auto split: server_event.splits)
      with IH show ?thesis by (simp add: log)
    qed
  next
    case False
    then obtain env' where ev: "ev = Accept env'" "accepting ?s"
      using own(1) by (cases ev) (auto simp: run_task_def case_prod_beta split: if_splits)
    with own False have "t = (Reading, connected (shared ?s))" by (auto simp: nth_append split: if_splits)
    moreover have "?log = []" "received i evs (server_start a) = []" "own_log i (executed ev ?s) = []" "fresh_bytes i ev ?s = []"
      using False beyond_run [of evs "server_start a" i] beyond_step [of ?s i ev] by simp_all
    ultimately show ?thesis
      using got by (simp add: log aligned_def connected_def parse_Nil)
  qed
qed

section \<open>The server on the map\<close>

text \<open>What a log entry asks of the map, at which readings of the clock.\<close>

definition exec_call :: "exec \<Rightarrow> call" where
  "exec_call e = (case work_of e of
      Frame val \<Rightarrow> (case extract_command (upper (exec_env e)) val of
        Ok cmd \<Rightarrow> meaning (upper (exec_env e)) (lower (exec_env e)) cmd
      | Err x \<Rightarrow> Refuse (err x)
      | Panic \<Rightarrow> Refuse nil)
    | Garbage x \<Rightarrow> Refuse (err (show_resp_error x)))"

definition exec_clock :: "exec \<Rightarrow> nat \<Rightarrow> u64" where
  "exec_clock e = clock (exec_env e) (seq_no e)"

text \<open>One entry on the map; the text that INFO shows is given.\<close>

definition map_exec :: "exec \<times> bytes \<Rightarrow> kv_map \<Rightarrow> kv_map \<times> resp_value" where
  "map_exec ei m = (effect (exec_clock (fst ei)) (exec_call (fst ei)) m,
    answer (exec_clock (fst ei)) (snd ei) (exec_call (fst ei)) m)"

lemma run_exec_on_map:
  assumes "key_set K" "represents K a m" "admissible K (exec_call e)" "mono (exec_clock e)"
  shows "snd (run_exec e a) = snd (map_exec (e, info_text a) m)"
    "represents K (fst (run_exec e a)) (fst (map_exec (e, info_text a) m))"
  using assms(2-4) dispatch_on_map [OF assms(1,2)]
  by (auto simp: run_exec_def run_work_def map_exec_def exec_call_def exec_clock_def dispatch_command_def
      split: work.splits rresult.splits)

lemma log_on_map:
  assumes "key_set K" "represents K a m" "\<forall>e\<in>List.set log. admissible K (exec_call e) \<and> mono (exec_clock e)"
  shows "\<exists>infos. length infos = length log \<and>
    snd (kv_run run_exec log a) = snd (kv_run map_exec (zip log infos) m) \<and>
    represents K (fst (kv_run run_exec log a)) (fst (kv_run map_exec (zip log infos) m))"
  using assms(2,3)
proof (induction log arbitrary: a m)
  case (Cons e log)
  note e = run_exec_on_map [OF assms(1) Cons.prems(1), of e]
  obtain infos where "length infos = length log"
    "snd (kv_run run_exec log (fst (run_exec e a))) =
      snd (kv_run map_exec (zip log infos) (fst (map_exec (e, info_text a) m)))"
    "represents K (fst (kv_run run_exec log (fst (run_exec e a))))
      (fst (kv_run map_exec (zip log infos) (fst (map_exec (e, info_text a) m))))"
    using Cons.IH [OF e(2)] Cons.prems(2) by auto
  with e(1) Cons.prems(2) show ?case
    by (intro exI [of _ "info_text a # infos"]) (simp add: case_prod_beta)
qed simp

section \<open>Properties\<close>


text \<open>A connection that sends one frame, of which the server is about to write the reply.\<close>

definition one_frame :: "resp_value \<Rightarrow> server_event list" where
  "one_frame v = [Accept plain_env, Run 0 (Data (encode_to_vec v)), Run 0 ReadError]"

lemma one_frame_run:
  assumes "resp_ok (\<lambda>_. True) v"
  shows "history (one_frame v) (server_start a) =
      [\<lparr>conn_no = 0, exec_env = plain_env, seq_no = 0, work_of = Frame v\<rparr>]"
    "\<exists>offset bs c. tasks (run_server (one_frame v) (server_start a)) = [(plain_env, Replying offset bs, c)]"
    "received 0 (one_frame v) (server_start a) = encode_to_vec v"
proof -
  have "parse (\<lambda>_. True) (encoding v) = Ok (Some (v, length (encoding v)))"
    using parse_encoding [OF assms, of "[]"] by simp
  moreover from this have "encoding v \<noteq> []" by (auto simp: parse_Nil)
  moreover have "encode_to_vec v = encoding v" by (simp add: encode_to_vec)
  ultimately show "history (one_frame v) (server_start a) =
      [\<lparr>conn_no = 0, exec_env = plain_env, seq_no = 0, work_of = Frame v\<rparr>]"
    "\<exists>offset bs c. tasks (run_server (one_frame v) (server_start a)) = [(plain_env, Replying offset bs, c)]"
    "received 0 (one_frame v) (server_start a) = encode_to_vec v"
    by (simp_all add: one_frame_def executed_def server_start_def run_task_def connected_def plain_env_def slice_def
        fresh_bytes_def case_prod_beta)
qed

lemma ping_ok: "resp_ok (\<lambda>_. True) (request [ascii ''PING''])"
  by (simp add: resp_ok_request ascii_def)


text \<open>
  C5: requests are executed once, in the order of their connection.  If what has arrived on a
  connection is the beginning of some complete frames with an incomplete one after them, then the
  work done for the connection is a beginning of those frames, nothing left out or repeated; and
  when its task waits for input, it has done all that have arrived completely.
\<close>

theorem requests_in_order:
  fixes evs :: "server_event list" and a :: arena
  defines "s \<equiv> run_server evs (server_start a)" and "got i \<equiv> received i evs (server_start a)"
    and "own i \<equiv> own_log i (history evs (server_start a))"
  assumes "i < length (tasks s)" "tasks s ! i = (env, pc, c)"
    and "list_all (resp_ok (alloc env)) vs" "parse (alloc env) tail = Ok None"
    and "prefix (got i) (concat (map encode_to_vec vs) @ tail)"
  shows "prefix (own i) (map Frame vs) \<and> (pc = Reading \<longrightarrow>
    got i = concat (map encode_to_vec (take (length (own i)) vs)) @ pending c \<and> parse (alloc env) (pending c) = Ok None)"
proof -
  have enc: "concat (map encode_to_vec us) = concat (map encoding us)" for us
    by (simp add: encode_to_vec cong: map_cong)
  obtain rest where rest: "got i @ rest = concat (map encoding vs) @ tail"
    using assms(8) by (auto simp: prefix_def enc)
  from connection_aligned [OF assms(6,7) assms(4,5) [unfolded s_def] rest [unfolded got_def]]
  obtain past future where "vs = past @ future" "own i = map Frame past"
    "pc = Reading \<Longrightarrow> parse (alloc env) (pending c) = Ok None"
    "pc = Reading \<Longrightarrow> pending c @ rest = concat (map encoding future) @ tail"
    unfolding aligned_def own_def by (elim exE conjE) (cases pc; simp)
  moreover from this rest have "got i @ rest = (concat (map encoding past) @ pending c) @ rest" if "pc = Reading"
    using that by simp
  then have "got i = concat (map encoding past) @ pending c" if "pc = Reading"
    using that by (simp only: append_same_eq)
  ultimately show ?thesis by (auto simp: enc)
qed

theorem requests_in_order_witness:
  "prefix (own_log 0 (history (one_frame (request [ascii ''PING''])) (server_start blank_arena))) [Frame (request [ascii ''PING''])]"
proof -
  obtain offset bs c where "tasks (run_server (one_frame (request [ascii ''PING''])) (server_start blank_arena)) =
      [(plain_env, Replying offset bs, c)]"
    using one_frame_run(2) [OF ping_ok] by blast
  with requests_in_order [of 0 "one_frame (request [ascii ''PING''])" blank_arena plain_env "Replying offset bs" c
      "[request [ascii ''PING'']]" "[]"] one_frame_run(3) [OF ping_ok] ping_ok
  show ?thesis by (simp add: plain_env_def parse_Nil)
qed



end
