(* ===== verification/Atomicity.thy ===== *)
theory Atomicity
  imports Interleaving
begin

text \<open>
  GET beside an insertion or a deletion of the same key.  An insertion publishes its slot by the store
  of the state, which \<open>claim_slot\<close> of \<open>src/hashmap.rs\<close> makes last; a deletion unpublishes it by one
  compare-and-exchange and leaves the buffers alone.  A reader therefore sees the entry as a whole
  or not at all.
\<close>

section \<open>What a reader looks at\<close>

text \<open>The contents of a slot, without its state.\<close>

definition same_contents :: "slot \<Rightarrow> slot \<Rightarrow> bool" where
  "same_contents s s' \<longleftrightarrow> s\<lparr>state := 0\<rparr> = s'\<lparr>state := 0\<rparr>"

lemma same_contents_refl [simp]: "same_contents s s"
  by (simp add: same_contents_def)

lemma same_contents_state [simp]: "same_contents (s\<lparr>state := x\<rparr>) s"
  by (simp add: same_contents_def)

lemma same_contents_fields:
  assumes "same_contents s s'"
  shows "fingerprint s = fingerprint s'" "read_key s = read_key s'" "read_value s = read_value s'"
    "expires_at_ms s = expires_at_ms s'" "is_expired now s = is_expired now s'"
  using assms by (cases s; cases s'; simp add: same_contents_def read_key_def read_value_def is_expired_def)+

definition outcome_at :: "u64 \<Rightarrow> slot \<Rightarrow> get_result" where
  "outcome_at now s = (if is_expired now s then Expired else Found (read_value s))"

lemma spec_get_outcome:
  "arena_wf b \<Longrightarrow> holds b i key \<Longrightarrow> spec_get now key (entry b) = outcome_at now (slot b i)"
  by (simp add: spec_get_holds outcome_at_def)

text \<open>The places of a reader: which slot it looks at, and what it has found out about it.\<close>

fun looking :: "u64 \<Rightarrow> bytes \<Rightarrow> (nat \<Rightarrow> bool) \<Rightarrow> get_result set \<Rightarrow> get_pc \<Rightarrow> arena \<Rightarrow> bool" where
  "looking now key vis outs (GetState i) b \<longleftrightarrow> True"
| "looking now key vis outs (GetFingerprint i) b \<longleftrightarrow> vis (probe (siphash key) i)"
| "looking now key vis outs (GetExpiry i) b \<longleftrightarrow> vis (probe (siphash key) i) \<and>
    fingerprint (slot b (probe (siphash key) i)) = siphash key"
| "looking now key vis outs (GetEvict i) b \<longleftrightarrow> vis (probe (siphash key) i) \<and>
    fingerprint (slot b (probe (siphash key) i)) = siphash key \<and> is_expired now (slot b (probe (siphash key) i))"
| "looking now key vis outs (GetKey i) b \<longleftrightarrow> vis (probe (siphash key) i) \<and>
    fingerprint (slot b (probe (siphash key) i)) = siphash key \<and> \<not> is_expired now (slot b (probe (siphash key) i))"
| "looking now key vis outs (GetValue i) b \<longleftrightarrow> vis (probe (siphash key) i) \<and>
    fingerprint (slot b (probe (siphash key) i)) = siphash key \<and> \<not> is_expired now (slot b (probe (siphash key) i))"
| "looking now key vis outs (GetDone r) b \<longleftrightarrow> r \<in> outs"

lemma looking_next: "NotFound \<in> outs \<Longrightarrow> looking now key vis outs (get_next i) b"
  by (simp add: get_next_def)

lemma looking_mono:
  assumes "looking now key vis outs pc b" "\<And>p. vis p \<Longrightarrow> vis' p \<and> same_contents (slot b' p) (slot b p)"
  shows "looking now key vis' outs pc b'"
  using assms(1) assms(2) [THEN conjunct1] same_contents_fields(1,5) [OF assms(2) [THEN conjunct2]]
  by (cases pc) simp_all

text \<open>
  What a reader needs of an operation beside it: slots stay visible, with their contents, from the moment
  they are occupied, and a visible slot with the hash of the key holds a result that is allowed.
\<close>

locale watched =
  fixes oper :: operation and inv :: "place \<times> arena \<Rightarrow> bool" and vis :: "place \<times> arena \<Rightarrow> nat \<Rightarrow> bool"
    and key :: bytes and now :: u64 and outs :: "get_result set"
  assumes inv_step: "inv x \<Longrightarrow> inv (op_step oper x)"
    and occupied_vis: "inv x \<Longrightarrow> p < SLOT_COUNT \<Longrightarrow> state (slot (snd x) p) = STATE_OCCUPIED \<Longrightarrow> vis x p"
    and vis_step: "inv x \<Longrightarrow> vis x p \<Longrightarrow> vis (op_step oper x) p \<and>
      same_contents (slot (snd (op_step oper x)) p) (slot (snd x) p)"
    and vis_good: "inv x \<Longrightarrow> vis x p \<Longrightarrow> fingerprint (slot (snd x) p) = siphash key \<Longrightarrow>
      read_key (slot (snd x) p) = key \<and> outcome_at now (slot (snd x) p) \<in> outs"
    and absent: "NotFound \<in> outs"
begin

lemma looking_step:
  assumes "inv (place, b)" "looking now key (vis (place, b)) outs pc b"
  shows "(\<exists>r\<in>outs. fst (get_step now key (pc, b)) = GetDone r) \<or>
    snd (get_step now key (pc, b)) = b \<and> looking now key (vis (place, b)) outs (fst (get_step now key (pc, b))) b"
proof -
  have key: "read_key (slot b p) = key" and expired: "is_expired now (slot b p) \<Longrightarrow> Expired \<in> outs"
    and found: "\<not> is_expired now (slot b p) \<Longrightarrow> Found (read_value (slot b p)) \<in> outs"
    if "vis (place, b) p" "fingerprint (slot b p) = siphash key" for p
    using vis_good [OF assms(1), of p] that by (simp_all add: outcome_at_def)
  have occ: "vis (place, b) (probe (siphash key) i)" if "state (slot b (probe (siphash key) i)) = STATE_OCCUPIED" for i
    using occupied_vis [OF assms(1)] that by simp
  show ?thesis
    using assms(2) key expired found occ absent looking_next [OF absent]
    by (cases pc) (auto simp: Let_def)
qed

definition watching :: "(nat \<Rightarrow> place) \<times> arena \<Rightarrow> bool" where
  "watching x \<longleftrightarrow> (\<exists>r\<in>outs. fst x 0 = AtGet (GetDone r)) \<or>
    (\<exists>pc. fst x 0 = AtGet pc \<and> inv (fst x 1, snd x) \<and> looking now key (vis (fst x 1, snd x)) outs pc (snd x))"

lemma watching_step:
  assumes "watching (pcs, b)" "t \<in> {0, 1}" "op_step (reader_and oper now key t) (pcs t, b) = (pc, b')"
  shows "watching (pcs(t := pc), b')"
proof (cases "\<exists>r\<in>outs. pcs 0 = AtGet (GetDone r)")
  case True
  then obtain r where "r \<in> outs" "pcs 0 = AtGet (GetDone r)" by blast
  with assms(3) have "(pcs(t := pc)) 0 = AtGet (GetDone r)"
    by (cases "t = 0") (simp_all add: reader_and_def)
  with \<open>r \<in> outs\<close> show ?thesis unfolding watching_def by auto
next
  case False
  with assms(1) obtain gpc where pcs: "pcs 0 = AtGet gpc" "inv (pcs 1, b)" "looking now key (vis (pcs 1, b)) outs gpc b"
    by (auto simp: watching_def)
  from assms(2) consider (reader) "t = 0" | (other) "t = 1" by blast
  then show ?thesis
  proof cases
    case reader
    from looking_step [OF pcs(2,3)] pcs assms(3) show ?thesis
      by (auto simp: reader watching_def reader_and_def split: prod.splits)
  next
    case other
    have step: "op_step oper (pcs 1, b) = (pc, b')" using assms(3) by (simp add: other reader_and_def)
    have "looking now key (vis (pc, b')) outs gpc b'"
      by (rule looking_mono [OF pcs(3)]) (use vis_step [OF pcs(2), unfolded step snd_conv] in blast)
    with inv_step [OF pcs(2), unfolded step] pcs(1) show ?thesis by (simp add: other watching_def)
  qed
qed

lemma watching_run:
  assumes "watching x" "List.set ts \<subseteq> {0, 1}"
  shows "watching (run_threads (reader_and oper now key) ts x)"
  by (rule run_threads_invariant [OF watching_step assms])

lemma result_allowed:
  assumes "inv (op_start oper, a)" "List.set ts \<subseteq> {0, 1}"
    and "run_threads (reader_and oper now key) ts (\<lambda>t. op_start (reader_and oper now key t), a) = (pcs, b)"
    and "pcs 0 = AtGet (GetDone r)"
  shows "r \<in> outs"
proof -
  have "watching (\<lambda>t. op_start (reader_and oper now key t), a)"
    using assms(1) looking_next [OF absent] by (simp add: watching_def reader_and_def)
  from watching_run [OF this assms(2)] assms(3,4) show ?thesis by (auto simp: watching_def)
qed

end

section \<open>Deletion\<close>

definition deletion :: "arena \<Rightarrow> bytes \<Rightarrow> place \<times> arena \<Rightarrow> bool" where
  "deletion a key x \<longleftrightarrow> arena_wf a \<and> alone key a \<and> (\<exists>pc. fst x = AtDel pc) \<and>
    (\<forall>p. slot (snd x) p = slot a p \<or> slot (snd x) p = (slot a p)\<lparr>state := STATE_TOMBSTONE\<rparr>)"

lemma deletion_contents: "deletion a key x \<Longrightarrow> same_contents (slot (snd x) p) (slot a p)"
  by (metis deletion_def same_contents_refl same_contents_state)

text \<open>An occupied slot with the hash of the key holds the key.\<close>

lemma alone_holds:
  assumes "arena_wf a" "alone key a" "p < SLOT_COUNT" "state (slot a p) = STATE_OCCUPIED"
    and "fingerprint (slot a p) = siphash key"
  shows "holds a p key"
proof -
  have held: "holds a p (read_key (slot a p))" by (rule holds_occupied [OF assms(3,4)])
  then have "read_key (slot a p) \<in> dom (entry a)" using entry_holds [OF assms(1)] by (simp add: domIff)
  with assms(2,5) wf_fingerprint [OF assms(1) held] have "read_key (slot a p) = key" by (auto simp: alone_def)
  with held show ?thesis by simp
qed

lemma set_state_twice [simp]: "(s\<lparr>state := x\<rparr>)\<lparr>state := y\<rparr> = s\<lparr>state := y\<rparr>"
  by simp

interpretation deleted: watched "Deleting d" "deletion a key" "\<lambda>_ p. p < SLOT_COUNT \<and> state (slot a p) = STATE_OCCUPIED"
  key now "{NotFound, spec_get now key (entry a)}" for d a key now
proof unfold_locales
  fix x p
  assume x: "deletion a key x"
  then obtain pc b where b: "x = (AtDel pc, b)" by (cases x) (auto simp: deletion_def)
  have slots: "slot b p = slot a p \<or> slot b p = (slot a p)\<lparr>state := STATE_TOMBSTONE\<rparr>" for p
    using x by (simp add: deletion_def b)
  show step: "deletion a key (op_step (Deleting d) x)"
  proof (cases pc)
    case (DelSwap i)
    have "(slot b p)\<lparr>state := STATE_TOMBSTONE\<rparr> = (slot a p)\<lparr>state := STATE_TOMBSTONE\<rparr>" for p
      using slots [of p] by auto
    with x slots DelSwap show ?thesis
      by (auto simp: b deletion_def Let_def case_prod_beta compare_exchange_state_def arena_simps)
  qed (use x in \<open>auto simp: b deletion_def Let_def arena_simps\<close>)
  show "p < SLOT_COUNT \<and> state (slot a p) = STATE_OCCUPIED"
    if "p < SLOT_COUNT" "state (slot (snd x) p) = STATE_OCCUPIED"
    using slots [of p] that by (auto simp: b)
  show "(p < SLOT_COUNT \<and> state (slot a p) = STATE_OCCUPIED) \<and>
      same_contents (slot (snd (op_step (Deleting d) x)) p) (slot (snd x) p)"
    if "p < SLOT_COUNT \<and> state (slot a p) = STATE_OCCUPIED"
    using that deletion_contents [OF step, of p] deletion_contents [OF x, of p] by (simp add: same_contents_def)
  show "read_key (slot (snd x) p) = key \<and> outcome_at now (slot (snd x) p) \<in> {NotFound, spec_get now key (entry a)}"
    if vis: "p < SLOT_COUNT \<and> state (slot a p) = STATE_OCCUPIED" "fingerprint (slot (snd x) p) = siphash key"
  proof -
    note same = same_contents_fields [OF deletion_contents [OF x, of p], unfolded b snd_conv]
    have "holds a p key" using x vis same(1) by (intro alone_holds) (auto simp: deletion_def b)
    with x spec_get_outcome [of a p key now] same show ?thesis
      by (simp add: b deletion_def outcome_at_def holds_def)
  qed
qed simp

section \<open>Insertion\<close>

text \<open>The places of a SET that finds its key absent; \<open>committed\<close> from the store of the state on.\<close>

fun inserts :: "set_pc \<Rightarrow> bool" where
  "inserts (TestExpiry i ft) \<longleftrightarrow> False"
| "inserts (CompareKey i ft) \<longleftrightarrow> False"
| "inserts (UpdateValBuf t) \<longleftrightarrow> False"
| "inserts (UpdateValLen t) \<longleftrightarrow> False"
| "inserts (UpdateExpiry t) \<longleftrightarrow> False"
| "inserts (Done r) \<longleftrightarrow> r \<noteq> Updated"
| "inserts _ \<longleftrightarrow> True"

fun committed :: "set_pc \<Rightarrow> bool" where
  "committed AddUsed \<longleftrightarrow> True"
| "committed (Done r) \<longleftrightarrow> r = Inserted"
| "committed _ \<longleftrightarrow> False"

lemma inserts_next [simp]: "inserts (next_probe i ft)" "\<not> committed (next_probe i ft)"
  by (simp_all add: next_probe_def split: option.splits)

text \<open>The content of the arena at a place.\<close>

definition content_at :: "set_call \<Rightarrow> arena \<Rightarrow> set_pc \<Rightarrow> kv_map" where
  "content_at c a pc =
    (if committed pc then (entry a)(call_key c \<mapsto> (take MAX_VAL_LEN (call_val c), call_expiry c)) else entry a)"

definition keeps_occupied :: "arena \<Rightarrow> arena \<Rightarrow> bool" where
  "keeps_occupied b b' \<longleftrightarrow> (\<forall>p. state (slot b p) = STATE_OCCUPIED \<longrightarrow> slot b' p = slot b p)"

lemma keeps_occupied_refl [simp]: "keeps_occupied b b"
  by (simp add: keeps_occupied_def)

lemma claim_hides:
  assumes "undisturbed c a (pc, b)" "claims c t b" "\<And>s. state (f s) = state s" "\<And>s. slot_wf s \<Longrightarrow> slot_wf (f s)"
  shows "entry (slot_mut t f b) = entry b" "keeps_occupied b (slot_mut t f b)"
proof -
  have "arena_wf b" using assms(1) by (simp add: undisturbed_def)
  from hidden_store(2) [OF this assms(2-4)] show "entry (slot_mut t f b) = entry b" .
  have "state (slot b t) \<noteq> STATE_OCCUPIED" using assms(2) by (auto simp: claims_def can_claim_def call_hash_def)
  then show "keeps_occupied b (slot_mut t f b)" by (auto simp: keeps_occupied_def arena_simps)
qed

lemma insertion_step:
  assumes inv: "undisturbed c a (pc, b)" and at: "inserts pc" "entry b = content_at c a pc"
    and absent: "entry a (call_key c) = None" and alone: "alone (call_key c) a"
  shows "inserts (fst (set_step c (pc, b))) \<and>
    entry (snd (set_step c (pc, b))) = content_at c a (fst (set_step c (pc, b))) \<and>
    keeps_occupied b (snd (set_step c (pc, b)))"
proof -
  have wf: "arena_wf b" using inv by (simp add: undisturbed_def)
  have hidden: "entry (slot_mut t f b) = entry b" "keeps_occupied b (slot_mut t f b)"
    if "claims c t b" "f \<in> {store_key_buf (call_key c), store_key_len (call_key c), store_val_buf (call_val c),
      store_val_len (call_val c), \<lambda>s. s\<lparr>fingerprint := call_hash c\<rparr>, \<lambda>s. s\<lparr>expires_at_ms := call_expiry c\<rparr>}" for t f
  proof -
    have "state (f s) = state s" "slot_wf s \<Longrightarrow> slot_wf (f s)" for s
      using that(2) by (auto simp: slot_simps wf_intros)
    from claim_hides [OF inv that(1) this]
    show "entry (slot_mut t f b) = entry b" "keeps_occupied b (slot_mut t f b)" by simp_all
  qed
  show ?thesis
  proof (cases pc)
    case (LoadFingerprint i ft)
    have b: "entry b = entry a" using at(2) by (simp add: LoadFingerprint content_at_def)
    have occ: "state (slot b (probe (call_hash c) i)) = STATE_OCCUPIED"
      using inv by (simp add: LoadFingerprint undisturbed_def)
    have "alone (call_key c) b" using alone by (simp add: alone_def b)
    from alone_holds [OF wf this _ occ] absent
    have "fingerprint (slot b (probe (call_hash c) i)) \<noteq> call_hash c"
      unfolding b [symmetric] entry_None_iff by (auto simp: call_hash_def)
    then show ?thesis by (simp add: LoadFingerprint b content_at_def keeps_occupied_def)
  next
    case (ClaimState t n)
    then obtain j where j: "t = probe (siphash (call_key c)) j" "can_claim b (call_key c) j"
      and full: "claim_slot (siphash (call_key c)) (call_key c) (call_val c) (call_expiry c) (slot b t) =
        (slot b t)\<lparr>state := STATE_OCCUPIED\<rparr>"
      using inv by (auto simp: undisturbed_def claims_def call_hash_def)
    have claim: "slot_mut t (\<lambda>s. s\<lparr>state := STATE_OCCUPIED\<rparr>) b = claim (call_key c) (call_val c) (call_expiry c) t b"
      using full by (simp add: claim_def slot_mut_def slot_def)
    have "state (slot b t) \<noteq> STATE_OCCUPIED" using j by (auto simp: can_claim_def)
    then have "keeps_occupied b (claim (call_key c) (call_val c) (call_expiry c) t b)"
      by (auto simp: keeps_occupied_def arena_simps)
    with at(2) entry_claim [OF wf j(2)] show ?thesis
      by (simp add: ClaimState claim [unfolded j(1)] j(1) content_at_def)
  next
    case AddUsed
    with at show ?thesis by (simp add: content_at_def keeps_occupied_def arena_simps)
  qed (use inv at hidden in \<open>auto simp: undisturbed_def content_at_def Let_def\<close>)
qed

lemma call_of_simps [simp]:
  "call_now (call_of t key val ttl) = t" "call_key (call_of t key val ttl) = key"
  "call_val (call_of t key val ttl) = val" "call_expiry (call_of t key val ttl) = ttl_to_expiry t ttl"
  by (simp_all add: call_of_def)

text \<open>A SET of an absent key, alone up to some step of it.\<close>

definition insertion :: "set_call \<Rightarrow> arena \<Rightarrow> place \<times> arena \<Rightarrow> bool" where
  "insertion c a x \<longleftrightarrow> arena_wf a \<and> alone (call_key c) a \<and> entry a (call_key c) = None \<and>
    length (call_key c) \<le> MAX_KEY_LEN \<and>
    (\<exists>pc n. fst x = AtSet pc \<and> (set_step c ^^ n) (set_start, a) = (pc, snd x) \<and>
      inserts pc \<and> entry (snd x) = content_at c a pc)"

lemma insertion_start:
  assumes "arena_wf a" "alone (call_key c) a" "entry a (call_key c) = None" "length (call_key c) \<le> MAX_KEY_LEN"
  shows "insertion c a (AtSet set_start, a)"
proof -
  have "inserts set_start \<and> entry a = content_at c a set_start"
    by (simp add: set_start_def content_at_def)
  moreover have "(set_step c ^^ 0) (set_start, a) = (set_start, a)" by simp
  ultimately show ?thesis using assms unfolding insertion_def by (metis fst_conv snd_conv)
qed

text \<open>A committed SET ends with an insertion, and the arena shows what it will show then.\<close>

lemma done_unique:
  assumes "(set_step c ^^ n) x = (Done r, b)" "(set_step c ^^ m) x = (Done r', b')"
  shows "r = r' \<and> b = b'"
proof -
  have "(set_step c ^^ (n + m)) x = (Done r', b')" "(set_step c ^^ (m + n)) x = (Done r, b)"
    by (simp_all add: funpow_add assms funpow_fixed)
  then show ?thesis by (simp add: add.commute)
qed

lemma committed_end:
  assumes run: "(set_step (call_of t key val ttl) ^^ n) (set_start, a) = (pc, b)" and "committed pc"
  shows "snd (hashmap_set t key val ttl a) = Inserted" "entry (fst (hashmap_set t key val ttl a)) = entry b"
proof -
  let ?c = "call_of t key val ttl"
  obtain m where m: "(set_step ?c ^^ m) (set_start, a) =
    (Done (snd (hashmap_set t key val ttl a)), fst (hashmap_set t key val ttl a))"
    using set_steps_end by blast
  have "\<exists>l b'. (set_step ?c ^^ l) (set_start, a) = (Done Inserted, b') \<and> entry b' = entry b"
  proof (cases "pc = AddUsed")
    case True
    with run have "(set_step ?c ^^ Suc n) (set_start, a) = (Done Inserted, add_used 1 b)" by simp
    moreover have "entry (add_used 1 b) = entry b" by (simp add: arena_simps)
    ultimately show ?thesis by blast
  next
    case False
    with assms show ?thesis by (cases pc) auto
  qed
  then obtain l b' where l: "(set_step ?c ^^ l) (set_start, a) = (Done Inserted, b')" "entry b' = entry b" by blast
  from done_unique [OF m l(1)] l(2)
  show "snd (hashmap_set t key val ttl a) = Inserted" "entry (fst (hashmap_set t key val ttl a)) = entry b" by auto
qed

interpretation inserted: watched "Setting (call_of t key val ttl)" "insertion (call_of t key val ttl) a"
  "\<lambda>x p. p < SLOT_COUNT \<and> state (slot (snd x) p) = STATE_OCCUPIED" key now
  "{NotFound, spec_get now key (entry (fst (hashmap_set t key val ttl a)))}" for t key val ttl a now
proof unfold_locales
  fix x p
  let ?c = "call_of t key val ttl"
  assume x: "insertion ?c a x"
  then obtain pc n b where b: "x = (AtSet pc, b)" and run: "(set_step ?c ^^ n) (set_start, a) = (pc, b)"
    and at: "inserts pc" "entry b = content_at ?c a pc" by (cases x) (auto simp: insertion_def)
  have start: "arena_wf a" "length (call_key ?c) \<le> MAX_KEY_LEN" "entry a key = None" "alone key a"
    using x by (simp_all add: insertion_def)
  have inv: "undisturbed ?c a (pc, b)" using undisturbed_run [OF start(1,2), of n] by (simp add: run)
  then have wf: "arena_wf b" by (simp add: undisturbed_def)
  obtain pc' b' where step: "set_step ?c (pc, b) = (pc', b')" by fastforce
  have next_run: "(set_step ?c ^^ Suc n) (set_start, a) = (pc', b')" by (simp add: run step)
  have stepped: "inserts pc'" "entry b' = content_at ?c a pc'" "keeps_occupied b b'"
    using insertion_step [OF inv at] start(3,4) by (simp_all add: step)
  show "insertion ?c a (op_step (Setting ?c) x)"
    using x next_run stepped by (auto simp: b step insertion_def simp del: funpow.simps)
  show "p < SLOT_COUNT \<and> state (slot (snd x) p) = STATE_OCCUPIED"
    if "p < SLOT_COUNT" "state (slot (snd x) p) = STATE_OCCUPIED"
    using that by simp
  show "(p < SLOT_COUNT \<and> state (slot (snd (op_step (Setting ?c) x)) p) = STATE_OCCUPIED) \<and>
      same_contents (slot (snd (op_step (Setting ?c) x)) p) (slot (snd x) p)"
    if "p < SLOT_COUNT \<and> state (slot (snd x) p) = STATE_OCCUPIED"
    using that stepped(3) by (simp add: b step keeps_occupied_def)
  show "read_key (slot (snd x) p) = key \<and> outcome_at now (slot (snd x) p) \<in>
      {NotFound, spec_get now key (entry (fst (hashmap_set t key val ttl a)))}"
    if vis: "p < SLOT_COUNT \<and> state (slot (snd x) p) = STATE_OCCUPIED" "fingerprint (slot (snd x) p) = siphash key"
  proof -
    have "alone key b"
      using start(4) by (auto simp: alone_def at(2) content_at_def)
    with vis have held: "holds b p key" by (intro alone_holds [OF wf]) (simp_all add: b)
    then have "entry b key \<noteq> None" by (auto simp: entry_None_iff)
    then have "committed pc" using at(2) start(3) by (simp add: content_at_def split: if_splits)
    with committed_end [OF run] spec_get_outcome [OF wf held, of now] held show ?thesis
      by (simp add: b holds_def)
  qed
qed simp

section \<open>Old or new\<close>

lemma get_alone: "arena_wf b \<Longrightarrow> alone key b \<Longrightarrow> snd (hashmap_get now key b) = spec_get now key (entry b)"
  by (rule hashmap_get_spec(1)) (simp_all add: alone_def)

lemma alone_set:
  assumes "arena_wf a" "alone key a" "length key \<le> MAX_KEY_LEN"
  shows "alone key (fst (hashmap_set t key val ttl a))"
proof (cases "snd (hashmap_set t key val ttl a) = Full")
  case True
  with hashmap_set_full [OF assms(1,3)] assms(2) show ?thesis by simp
next
  case False
  with hashmap_set_entries [OF assms(1,3)] assms(2) show ?thesis by (auto simp: alone_def)
qed

lemma alone_del: "arena_wf a \<Longrightarrow> alone key a \<Longrightarrow> alone key (fst (hashmap_del key a))"
  by (auto simp: alone_def hashmap_del_spec(2))

text \<open>
  A GET beside an insertion or a deletion of its own key sees all of it or nothing.  One thread looks a
  key up while another inserts the key, which the arena does not hold, or deletes it, with any
  interleaving of their loads, stores and compare-and-exchanges: when the GET has returned, its
  result is the one it would give before the other operation or the one it would give after it.
  No part of a value that is being stored is ever returned.
\<close>

theorem concurrent_get_atomic:
  assumes "arena_wf a" "\<forall>k'\<in>dom (entry a). siphash k' = siphash key \<longrightarrow> k' = key" "length key \<le> MAX_KEY_LEN"
    and "oper = Setting (call_of t key val ttl) \<and> entry a key = None \<and> after = fst (hashmap_set t key val ttl a) \<or>
      oper = Deleting key \<and> after = fst (hashmap_del key a)"
    and "List.set ts \<subseteq> {0, 1}"
    and "run_threads (reader_and oper now key) ts (\<lambda>t. op_start (reader_and oper now key t), a) = (pcs, b)"
    and "pcs 0 = AtGet (GetDone r)"
  shows "r = snd (hashmap_get now key a) \<or> r = snd (hashmap_get now key after)"
  using assms(4)
proof (elim disjE conjE)
  have alone: "alone key a" using assms(2) by (simp add: alone_def)
  note before = get_alone [OF assms(1) alone, of now]
  {
    assume oper: "oper = Setting (call_of t key val ttl)" "entry a key = None" "after = fst (hashmap_set t key val ttl a)"
    have "insertion (call_of t key val ttl) a (op_start oper, a)"
      using assms(1,3) alone oper by (simp add: insertion_start)
    from inserted.result_allowed [OF this [unfolded oper(1)] assms(5-7) [unfolded oper(1)]]
    have "r = NotFound \<or> r = spec_get now key (entry after)" by (simp add: oper(3))
    moreover have "snd (hashmap_get now key after) = spec_get now key (entry after)"
      unfolding oper(3) using assms(1,3) alone by (intro get_alone alone_set wf_hashmap_set)
    ultimately show ?thesis using before oper(2) by (auto simp: spec_get_def)
  next
    assume oper: "oper = Deleting key" "after = fst (hashmap_del key a)"
    have "deletion a key (op_start oper, a)"
      using assms(1) alone by (simp add: deletion_def oper(1))
    from deleted.result_allowed [OF this [unfolded oper(1)] assms(5-7) [unfolded oper(1)]]
    have "r = NotFound \<or> r = spec_get now key (entry a)" by simp
    moreover have "snd (hashmap_get now key after) = NotFound"
      unfolding oper(2) using assms(1) alone
      by (simp add: get_alone alone_del wf_hashmap_del hashmap_del_spec(2) spec_get_def)
    ultimately show ?thesis using before by auto
  }
qed

theorem concurrent_get_atomic_witness:
  "\<exists>pcs b. run_threads (reader_and (Deleting [1]) 9 [1]) [0, 0, 0, 1, 1, 1, 1, 0, 0]
      (\<lambda>t. op_start (reader_and (Deleting [1]) 9 [1] t), fst (hashmap_set 5 [1] [7] 0 (fresh_arena blank_arena))) = (pcs, b) \<and>
    pcs 0 = AtGet (GetDone (Found [7])) \<and>
    Found [7] \<in> {snd (hashmap_get 9 [1] (fst (hashmap_set 5 [1] [7] 0 (fresh_arena blank_arena)))), NotFound}"
proof -
  let ?ops = "reader_and (Deleting [1]) 9 [1]" and ?a = "fst (hashmap_set 5 [1] [7] 0 (fresh_arena blank_arena))"
  let ?s = "slot ?a (probe (siphash [1]) 0)"
  have s: "state ?s = STATE_OCCUPIED" "fingerprint ?s = siphash [1]" "read_key ?s = [1]" "read_value ?s = [7]"
    "\<not> is_expired 9 ?s"
    by (simp_all add: set_fresh arena_simps slot_simps wf_slot [OF wf_fresh_blank] MAX_KEY_LEN_def MAX_VAL_LEN_def
        is_expired_def ttl_to_expiry_def)
  have "\<exists>pcs b. run_threads ?ops [0, 0, 0, 1, 1, 1, 1, 0, 0] (\<lambda>t. op_start (?ops t), ?a) = (pcs, b) \<and>
    pcs 0 = AtGet (GetDone (Found [7]))"
    using s by (simp add: reader_and_def get_next_def del_next_def Let_def compare_exchange_state_def arena_simps slot_simps)
  then obtain pcs b where run: "run_threads ?ops [0, 0, 0, 1, 1, 1, 1, 0, 0] (\<lambda>t. op_start (?ops t), ?a) = (pcs, b)"
    "pcs 0 = AtGet (GetDone (Found [7]))" by blast
  have wf: "arena_wf ?a" by (intro wf_hashmap_set wf_fresh_blank) (simp add: MAX_KEY_LEN_def)
  have dom: "dom (entry ?a) = {[1]}" using entry_set_fresh [of "[1]" 5 "[7]" 0] by (simp add: MAX_KEY_LEN_def)
  have "Found [7] = snd (hashmap_get 9 [1] ?a) \<or> Found [7] = snd (hashmap_get 9 [1] (fst (hashmap_del [1] ?a)))"
    by (rule concurrent_get_atomic [OF wf _ _ _ _ run]) (simp_all add: dom MAX_KEY_LEN_def)
  moreover have "snd (hashmap_get 9 [1] (fst (hashmap_del [1] ?a))) = NotFound"
    using get_alone [of "fst (hashmap_del [1] ?a)" "[1]" 9] wf dom
    by (auto simp: wf_hashmap_del hashmap_del_spec(2) [OF wf] alone_def spec_get_def)
  ultimately show ?thesis using run by auto
qed

end
