(* ===== verification/Linearize.thy ===== *)
theory Linearize
  imports Atomicity
begin

text \<open>
  Many readers and one writer of a key.  Any number of threads GET a key of \<open>src/hashmap.rs\<close> while
  another inserts or deletes it: every GET answers what the arena holds at some moment between its
  first and its last step, so the GETs can be put in an order with the write that agrees with the
  order of their executions.
\<close>

section \<open>Moments of a run\<close>

text \<open>The arenas between the steps of a schedule.\<close>

fun moments :: "(nat \<Rightarrow> operation) \<Rightarrow> nat list \<Rightarrow> (nat \<Rightarrow> place) \<times> arena \<Rightarrow> arena set" where
  "moments ops [] (pcs, a) = {a}"
| "moments ops (t # ts) (pcs, a) =
    insert a (case op_step (ops t) (pcs t, a) of (pc, a') \<Rightarrow> moments ops ts (pcs(t := pc), a'))"

lemma moments_cut: "b \<in> moments ops ts x \<Longrightarrow> \<exists>us vs. ts = us @ vs \<and> b = snd (run_threads ops us x)"
proof (induction ops ts x rule: moments.induct)
  case (2 ops t ts pcs a)
  obtain pc a' where step: "op_step (ops t) (pcs t, a) = (pc, a')" by fastforce
  show ?case
  proof (cases "b = a")
    case True
    then show ?thesis by (intro exI [of _ "[]"] exI [of _ "t # ts"]) simp
  next
    case False
    with 2(2) step have "b \<in> moments ops ts (pcs(t := pc), a')" by simp
    from 2(1) [OF step [symmetric] this] obtain us vs where
      "ts = us @ vs" "b = snd (run_threads ops us (pcs(t := pc), a'))" by blast
    with step show ?thesis by (intro exI [of _ "t # us"] exI [of _ vs]) simp
  qed
qed auto

lemma run_threads_append: "run_threads ops (ts @ us) x = run_threads ops us (run_threads ops ts x)"
proof (induction ts arbitrary: x)
  case Nil
  then show ?case by (cases x) simp
next
  case (Cons t ts)
  then show ?case by (cases x) (simp add: case_prod_beta)
qed

section \<open>What a reader has seen\<close>

text \<open>
  A reader remembers the moments \<open>M\<close> since it started.  The key was absent at one of them, or it is
  held at all of them by one slot, which the probing has not passed.
\<close>

definition ahead :: "bytes \<Rightarrow> arena set \<Rightarrow> nat \<Rightarrow> bool" where
  "ahead key M i \<longleftrightarrow> (\<exists>b\<in>M. entry b key = None) \<or>
    (\<exists>j<SLOT_COUNT. i \<le> j \<and> (\<forall>b\<in>M. holds b (probe (siphash key) j) key))"

definition seen_occupied :: "arena set \<Rightarrow> nat \<Rightarrow> bool" where
  "seen_occupied M p \<longleftrightarrow> (\<exists>b\<in>M. state (slot b p) = STATE_OCCUPIED)"

fun view :: "u64 \<Rightarrow> bytes \<Rightarrow> arena set \<Rightarrow> arena \<Rightarrow> get_pc \<Rightarrow> bool" where
  "view now key M b (GetState i) \<longleftrightarrow> i < SLOT_COUNT \<and> ahead key M i"
| "view now key M b (GetFingerprint i) \<longleftrightarrow> i < SLOT_COUNT \<and> ahead key M i \<and> seen_occupied M (probe (siphash key) i)"
| "view now key M b (GetExpiry i) \<longleftrightarrow> seen_occupied M (probe (siphash key) i) \<and>
    fingerprint (slot b (probe (siphash key) i)) = siphash key"
| "view now key M b (GetEvict i) \<longleftrightarrow> False"
| "view now key M b (GetKey i) \<longleftrightarrow> seen_occupied M (probe (siphash key) i) \<and>
    fingerprint (slot b (probe (siphash key) i)) = siphash key"
| "view now key M b (GetValue i) \<longleftrightarrow> seen_occupied M (probe (siphash key) i) \<and>
    fingerprint (slot b (probe (siphash key) i)) = siphash key"
| "view now key M b (GetDone r) \<longleftrightarrow> (\<exists>b'\<in>M. r = spec_get now key (entry b'))"

text \<open>From one moment to a later one: slots that were occupied keep their contents, and a key that is still held
  is held where it was.\<close>

definition evolves :: "bytes \<Rightarrow> arena \<Rightarrow> arena \<Rightarrow> bool" where
  "evolves key b b' \<longleftrightarrow>
    (\<forall>p. state (slot b p) = STATE_OCCUPIED \<longrightarrow> same_contents (slot b' p) (slot b p)) \<and>
    (\<forall>p. holds b p key \<and> entry b' key \<noteq> None \<longrightarrow> holds b' p key)"

lemma ahead_next:
  assumes "ahead key M i" "b \<in> M" "\<not> holds b (probe (siphash key) i) key"
  shows "ahead key M (Suc i)"
  using assms by (auto simp: ahead_def) (metis Suc_leI le_neq_implies_less)

lemma view_next:
  assumes "ahead key M (Suc i)"
  shows "view now key M b (get_next (Suc i))"
proof (cases "Suc i < SLOT_COUNT")
  case False
  with assms obtain b' where "b' \<in> M" "entry b' key = None" by (auto simp: ahead_def)
  with False show ?thesis by (auto simp: get_next_def intro!: bexI [of _ b'])
qed (use assms in \<open>simp add: get_next_def\<close>)

text \<open>A slot that was occupied and has the hash of the key.\<close>

lemma seen_holds:
  assumes "seen_occupied M p" "\<forall>b'\<in>M. arena_wf b' \<and> alone key b' \<and> evolves key b' b"
    and "fingerprint (slot b p) = siphash key" "p < SLOT_COUNT"
  shows "\<exists>b'\<in>M. holds b' p key \<and> same_contents (slot b p) (slot b' p)"
proof -
  obtain b' where b': "b' \<in> M" "state (slot b' p) = STATE_OCCUPIED" using assms(1) by (auto simp: seen_occupied_def)
  with assms(2) have same: "same_contents (slot b p) (slot b' p)" and wf: "arena_wf b'" "alone key b'"
    by (auto simp: evolves_def)
  have "holds b' p key"
    using assms(3) same_contents_fields(1) [OF same] by (intro alone_holds [OF wf assms(4) b'(2)]) simp
  with b'(1) same show ?thesis by blast
qed

lemma view_step:
  assumes M: "b \<in> M" "\<forall>b'\<in>M. arena_wf b' \<and> alone key b' \<and> evolves key b' b"
    and fresh: "\<forall>b'\<in>M. spec_get now key (entry b') \<noteq> Expired"
    and pc: "view now key M b pc"
  shows "snd (get_step now key (pc, b)) = b \<and> view now key M b (fst (get_step now key (pc, b)))"
proof -
  have wf: "arena_wf b" using M by blast
  have seen: "read_key (slot b p) = key \<and> \<not> is_expired now (slot b p) \<and>
      (\<exists>b'\<in>M. Found (read_value (slot b p)) = spec_get now key (entry b'))"
    if p: "seen_occupied M p" "fingerprint (slot b p) = siphash key" "p < SLOT_COUNT" for p
  proof -
    obtain b' where b': "b' \<in> M" "holds b' p key" "same_contents (slot b p) (slot b' p)"
      using seen_holds [OF p(1) M(2) p(2,3)] by blast
    have "spec_get now key (entry b') = outcome_at now (slot b' p)"
      using M(2) b'(1,2) by (intro spec_get_outcome) auto
    moreover have "outcome_at now (slot b p) = outcome_at now (slot b' p)"
      using same_contents_fields [OF b'(3)] by (simp add: outcome_at_def)
    moreover have "read_key (slot b p) = key"
      using same_contents_fields(2) [OF b'(3)] b'(2) by (simp add: holds_def)
    ultimately have "outcome_at now (slot b p) = spec_get now key (entry b')" "read_key (slot b p) = key" by simp_all
    moreover from this(1) have "\<not> is_expired now (slot b p)"
      using fresh b'(1) by (auto simp: outcome_at_def)
    ultimately show ?thesis using b'(1) by (auto simp: outcome_at_def intro!: bexI [of _ b'])
  qed
  show ?thesis
  proof (cases pc)
    case (GetState i)
    let ?s = "slot b (probe (siphash key) i)"
    have i: "i < SLOT_COUNT" "ahead key M i" using pc by (simp_all add: GetState)
    consider (empty) "state ?s = STATE_EMPTY" | (occ) "state ?s = STATE_OCCUPIED"
      | (other) "state ?s \<notin> {STATE_EMPTY, STATE_OCCUPIED}" by blast
    then show ?thesis
    proof cases
      case empty
      have "\<not> (\<exists>j<SLOT_COUNT. i \<le> j \<and> holds b (probe (siphash key) j) key)"
      proof
        assume "\<exists>j<SLOT_COUNT. i \<le> j \<and> holds b (probe (siphash key) j) key"
        then obtain j where j: "j < SLOT_COUNT" "i \<le> j" "holds b (probe (siphash key) j) key" by blast
        with empty wf_chain [OF wf j(3,1), of i] show False by (cases "i = j") (auto simp: holds_def)
      qed
      with i(2) M(1) obtain b' where "b' \<in> M" "entry b' key = None" by (auto simp: ahead_def)
      then have "\<exists>b'\<in>M. NotFound = spec_get now key (entry b')" by (intro bexI [of _ b']) simp_all
      with empty show ?thesis by (simp add: GetState)
    next
      case occ
      with i M(1) show ?thesis by (auto simp: GetState seen_occupied_def)
    next
      case other
      then have "\<not> holds b (probe (siphash key) i) key" by (simp add: holds_def)
      from view_next [OF ahead_next [OF i(2) M(1) this]] other show ?thesis by (simp add: GetState)
    qed
  next
    case (GetFingerprint i)
    have "\<not> holds b (probe (siphash key) i) key" if "fingerprint (slot b (probe (siphash key) i)) \<noteq> siphash key"
      using that wf_fingerprint [OF wf] by blast
    with pc view_next [OF ahead_next [OF _ M(1)]] show ?thesis by (auto simp: GetFingerprint)
  qed (use pc seen in auto)
qed

text \<open>The view of a reader after a step of the writer.\<close>

lemma view_later:
  assumes M: "b \<in> M" "\<forall>b'\<in>M. evolves key b' b" "\<forall>b'\<in>M. evolves key b' b2"
    and pc: "view now key M b pc"
  shows "view now key (insert b2 M) b2 pc"
proof -
  have ahead: "ahead key (insert b2 M) i" if "ahead key M i" for i
  proof (cases "entry b2 key = None")
    case False
    with that M(1,3) show ?thesis by (auto simp: ahead_def evolves_def)
  qed (simp add: ahead_def)
  have occ: "seen_occupied (insert b2 M) p" if "seen_occupied M p" for p
    using that by (auto simp: seen_occupied_def)
  have fp: "fingerprint (slot b2 p) = fingerprint (slot b p)" if p: "seen_occupied M p" for p
  proof -
    obtain b' where "b' \<in> M" "state (slot b' p) = STATE_OCCUPIED" using p by (auto simp: seen_occupied_def)
    with M(2,3) have "same_contents (slot b2 p) (slot b' p)" "same_contents (slot b p) (slot b' p)"
      by (auto simp: evolves_def)
    then show ?thesis by (simp add: same_contents_fields(1))
  qed
  show ?thesis using pc ahead occ fp by (cases pc) auto
qed

section \<open>One writer, any number of readers\<close>

text \<open>Thread 0 writes, the others read the key at their own times.\<close>

definition readers_and :: "operation \<Rightarrow> (nat \<Rightarrow> u64) \<Rightarrow> bytes \<Rightarrow> nat \<Rightarrow> operation" where
  "readers_and oper now key = (\<lambda>t. Getting (now t) key)(0 := oper)"

text \<open>
  What the readers need of the writer: an invariant under which no reader finds the key expired, and
  an order of its arenas, in which slots keep what was published in them.
\<close>

locale steady =
  fixes oper :: operation and inv :: "place \<times> arena \<Rightarrow> bool" and stays :: "arena \<Rightarrow> arena \<Rightarrow> bool"
    and key :: bytes and now :: "nat \<Rightarrow> u64" and old :: "(bytes \<times> u64) option" and new :: "(bytes \<times> u64) option"
  assumes inv_step: "inv x \<Longrightarrow> inv (op_step oper x)"
    and inv_wf: "inv x \<Longrightarrow> arena_wf (snd x)"
    and inv_alone: "inv x \<Longrightarrow> alone key (snd x)"
    and inv_fresh: "inv x \<Longrightarrow> spec_get (now t) key (entry (snd x)) \<noteq> Expired"
    and inv_stays: "inv x \<Longrightarrow> stays (snd x) (snd (op_step oper x))"
    and inv_entry: "inv x \<Longrightarrow> entry (snd x) key = old \<or> entry (snd x) key = new"
    and inv_once: "inv x \<Longrightarrow> entry (snd x) key = new \<Longrightarrow> entry (snd (op_step oper x)) key = new"
    and stays_refl: "stays b b"
    and stays_trans: "stays b b' \<Longrightarrow> stays b' b'' \<Longrightarrow> stays b b''"
    and stays_evolves: "arena_wf b \<Longrightarrow> stays b b' \<Longrightarrow> evolves key b b'"
begin

definition sound_moment :: "arena \<Rightarrow> arena \<Rightarrow> bool" where
  "sound_moment b b' \<longleftrightarrow> stays b' b \<and> arena_wf b' \<and> alone key b' \<and> (\<forall>t. spec_get (now t) key (entry b') \<noteq> Expired)"

definition calm :: "(nat \<Rightarrow> arena set) \<Rightarrow> (nat \<Rightarrow> place) \<times> arena \<Rightarrow> bool" where
  "calm M x \<longleftrightarrow> inv (fst x 0, snd x) \<and> (\<forall>u. u \<noteq> 0 \<longrightarrow> snd x \<in> M u \<and> (\<forall>b'\<in>M u. sound_moment (snd x) b') \<and>
    (\<exists>pc. fst x u = AtGet pc \<and> view (now u) key (M u) (snd x) pc))"

lemma calm_cong: "(\<And>u. u \<noteq> 0 \<Longrightarrow> M u = N u) \<Longrightarrow> calm M x = calm N x"
  by (simp add: calm_def)

lemma calm_reader:
  assumes "calm M x" "u \<noteq> 0"
  shows "\<forall>b'\<in>M u. sound_moment (snd x) b'" "\<exists>pc. fst x u = AtGet pc \<and> view (now u) key (M u) (snd x) pc"
  using assms by (auto simp: calm_def)

lemma inv_sound: "inv x \<Longrightarrow> sound_moment (snd x) (snd x)"
  by (simp add: sound_moment_def inv_wf inv_alone inv_fresh stays_refl)

lemma view_start:
  assumes "arena_wf b"
  shows "view (now u) key {b} b (get_next 0)"
proof (cases "entry b key")
  case None
  then have "ahead key {b} 0" by (simp add: ahead_def)
  then show ?thesis by (simp add: get_next_def)
next
  case (Some e)
  then obtain i where "holds b i key" by (rule entry_SomeD)
  from holds_probe [OF this, of "siphash key"] have "ahead key {b} 0" by (auto simp: ahead_def)
  then show ?thesis by (simp add: get_next_def)
qed

lemma calm_view_step:
  assumes "calm M (pcs, b)" "op_step (readers_and oper now key t) (pcs t, b) = (pc, b')" "t \<noteq> 0"
  shows "b' = b" "\<exists>q. pc = AtGet q \<and> view (now t) key (M t) b q"
proof -
  have M: "b \<in> M t" "\<forall>c\<in>M t. sound_moment b c" using assms(1,3) by (auto simp: calm_def)
  obtain q where q: "pcs t = AtGet q" "view (now t) key (M t) b q" using assms(1,3) by (auto simp: calm_def)
  have "\<forall>c\<in>M t. arena_wf c \<and> alone key c \<and> evolves key c b" "\<forall>c\<in>M t. spec_get (now t) key (entry c) \<noteq> Expired"
    using M(2) stays_evolves by (auto simp: sound_moment_def)
  from view_step [OF M(1) this q(2)] assms(2,3) q(1)
  show "b' = b" "\<exists>q. pc = AtGet q \<and> view (now t) key (M t) b q"
    by (auto simp: readers_and_def case_prod_beta)
qed

lemma calm_step:
  assumes "calm M (pcs, b)" "op_step (readers_and oper now key t) (pcs t, b) = (pc, b')"
  shows "calm (\<lambda>u. insert b' (M u)) (pcs(t := pc), b')"
proof (cases "t = 0")
  case True
  have inv: "inv (pcs 0, b)" using assms(1) by (simp add: calm_def)
  have step: "op_step oper (pcs 0, b) = (pc, b')" using assms(2) True by (simp add: readers_and_def)
  have inv': "inv (pc, b')" using inv_step [OF inv] by (simp add: step)
  have later: "stays b b'" using inv_stays [OF inv] by (simp add: step)
  have "b' \<in> insert b' (M u) \<and> (\<forall>c\<in>insert b' (M u). sound_moment b' c) \<and>
      (\<exists>q. pcs u = AtGet q \<and> view (now u) key (insert b' (M u)) b' q)" if u: "u \<noteq> 0" for u
  proof -
    have M: "b \<in> M u" "\<forall>c\<in>M u. sound_moment b c" using assms(1) u by (auto simp: calm_def)
    obtain q where q: "pcs u = AtGet q" "view (now u) key (M u) b q" using assms(1) u by (auto simp: calm_def)
    have M': "\<forall>c\<in>M u. sound_moment b' c"
      using M(2) later stays_trans by (auto simp: sound_moment_def)
    have "\<forall>c\<in>M u. evolves key c b" "\<forall>c\<in>M u. evolves key c b'"
      using M(2) M' stays_evolves by (auto simp: sound_moment_def)
    from view_later [OF M(1) this q(2)] q(1) M' inv_sound [OF inv'] show ?thesis by auto
  qed
  with inv' show ?thesis by (simp add: calm_def True)
next
  case False
  note b' = calm_view_step [OF assms False]
  have same: "insert b (M u) = M u" if "u \<noteq> 0" for u
    using assms(1) that by (auto simp: calm_def)
  show ?thesis
    using assms(1) False b' same by (auto simp: calm_def)
qed

lemma calm_run:
  assumes "calm M x"
  shows "calm (\<lambda>u. M u \<union> moments (readers_and oper now key) ts x) (run_threads (readers_and oper now key) ts x)"
  using assms
proof (induction ts arbitrary: M x)
  case Nil
  obtain pcs b where x: "x = (pcs, b)" by fastforce
  have "M u \<union> {b} = M u" if "u \<noteq> 0" for u using Nil that by (auto simp: calm_def x)
  with Nil show ?case by (auto simp: calm_def x)
next
  case (Cons t ts)
  obtain pcs b where x: "x = (pcs, b)" by fastforce
  obtain pc b' where step: "op_step (readers_and oper now key t) (pcs t, b) = (pc, b')" by fastforce
  define q where "q = pcs(t := pc)"
  let ?N = "moments (readers_and oper now key) ts (q, b')"
  have at: "b' \<in> moments ops ts (q, b')" for ops by (cases ts) simp_all
  from Cons.IH [OF calm_step [OF Cons.prems [unfolded x] step, folded q_def]]
  have "calm (\<lambda>u. insert b' (M u) \<union> ?N) (run_threads (readers_and oper now key) ts (q, b'))" .
  also have "calm (\<lambda>u. insert b' (M u) \<union> ?N) = calm (\<lambda>u. M u \<union> moments (readers_and oper now key) (t # ts) x)"
    using Cons.prems at by (intro ext calm_cong) (auto simp: x step q_def calm_def)
  also have "run_threads (readers_and oper now key) ts (q, b') = run_threads (readers_and oper now key) (t # ts) x"
    by (simp add: x step q_def)
  finally show ?case .
qed

lemma calm_start: "inv (op_start oper, a) \<Longrightarrow> calm (\<lambda>_. {a}) (\<lambda>u. op_start (readers_and oper now key u), a)"
  using inv_sound [of "(op_start oper, a)"] view_start [OF inv_wf, of "(op_start oper, a)"]
  by (simp add: calm_def readers_and_def)

lemma linearizes:
  assumes "inv (op_start oper, a)" "t \<noteq> 0" "t \<notin> List.set pre"
    and "run_threads (readers_and oper now key) (pre @ during) (\<lambda>u. op_start (readers_and oper now key u), a) = (pcs, b)"
    and "pcs t = AtGet (GetDone r)"
  shows "\<exists>us vs. during = us @ vs \<and> r = spec_get (now t) key
    (entry (snd (run_threads (readers_and oper now key) (pre @ us) (\<lambda>u. op_start (readers_and oper now key u), a))))"
proof -
  let ?ops = "readers_and oper now key"
  let ?start = "(\<lambda>u. op_start (?ops u), a)"
  note pre = calm_run [OF calm_start [OF assms(1)], of pre]
  obtain pcs1 b1 where x1: "run_threads ?ops pre ?start = (pcs1, b1)" by fastforce
  have inv1: "inv (pcs1 0, b1)" using pre by (simp add: calm_def x1)
  have "pcs1 t = AtGet (get_next 0)"
    using run_threads_idle [OF assms(3) x1] assms(2) by (simp add: readers_and_def)
  then have "calm ((\<lambda>u. {a} \<union> moments ?ops pre ?start)(t := {b1})) (pcs1, b1)"
    using pre inv_sound [OF inv1] view_start [OF inv_wf [OF inv1]] by (auto simp: calm_def x1)
  from calm_run [OF this, of during]
  have fin: "calm (\<lambda>u. ((\<lambda>u. {a} \<union> moments ?ops pre ?start)(t := {b1})) u \<union> moments ?ops during (pcs1, b1)) (pcs, b)"
    using assms(4) by (simp add: run_threads_append x1)
  have at: "b1 \<in> moments ?ops during (pcs1, b1)" by (cases during) simp_all
  from calm_reader [OF fin assms(2)] assms(5) obtain c where "c \<in> insert b1 (moments ?ops during (pcs1, b1))"
    "r = spec_get (now t) key (entry c)" "sound_moment b c" by auto
  with at have c: "c \<in> moments ?ops during (pcs1, b1)" "r = spec_get (now t) key (entry c)"
    by auto
  from moments_cut [OF c(1)] obtain us vs where "during = us @ vs" "c = snd (run_threads ?ops us (pcs1, b1))" by blast
  with c(2) show ?thesis by (auto simp: run_threads_append x1)
qed

text \<open>There is one step from which on the arena holds what the write leaves.\<close>

lemma one_switch:
  assumes "inv (op_start oper, a)" "entry a key = old"
  shows "\<exists>w. \<forall>n\<le>length ts. entry (snd (run_threads (readers_and oper now key) (take n ts)
    (\<lambda>u. op_start (readers_and oper now key u), a))) key = (if n < w then old else new)"
proof (induction ts rule: rev_induct)
  case Nil
  show ?case using assms(2) by (intro exI [of _ 1]) simp
next
  case (snoc t ts)
  let ?ops = "readers_and oper now key"
  let ?at = "\<lambda>us. run_threads ?ops us (\<lambda>u. op_start (?ops u), a)"
  obtain w where w: "\<forall>n\<le>length ts. entry (snd (?at (take n ts))) key = (if n < w then old else new)"
    using snoc by blast
  obtain pcs b where x: "?at ts = (pcs, b)" by fastforce
  obtain pc b' where step: "op_step (?ops t) (pcs t, b) = (pc, b')" by fastforce
  have calm: "calm (\<lambda>u. {a} \<union> moments ?ops ts (\<lambda>u. op_start (?ops u), a)) (pcs, b)"
    using calm_run [OF calm_start [OF assms(1)], of ts] by (simp add: x)
  have at': "?at (ts @ [t]) = (pcs(t := pc), b')" by (simp add: run_threads_append x step)
  have last: "entry b key = (if length ts < w then old else new)" using w [THEN spec, of "length ts"] by (simp add: x)
  have "inv (fst (pcs(t := pc), b') 0, b')" using calm_step [OF calm step] by (simp add: calm_def)
  then have b': "entry b' key = old \<or> entry b' key = new" using inv_entry by fastforce
  have once: "entry b' key = new" if "entry b key = new"
  proof (cases "t = 0")
    case True
    have "inv (pcs 0, b)" using calm by (simp add: calm_def)
    from inv_once [OF this] that step True show ?thesis by (simp add: readers_and_def)
  next
    case False
    from calm_view_step(1) [OF calm step False] that show ?thesis by simp
  qed
  let ?w = "if length ts < w then (if entry b' key = new then Suc (length ts) else Suc (Suc (length ts))) else w"
  have "entry (snd (?at (take n (ts @ [t])))) key = (if n < ?w then old else new)" if "n \<le> length (ts @ [t])" for n
  proof (cases "n = Suc (length ts)")
    case True
    then show ?thesis using at' last once b' by (auto split: if_splits)
  next
    case False
    with that have "n \<le> length ts" by simp
    with w last show ?thesis by (auto split: if_splits)
  qed
  then show ?case by blast
qed

text \<open>Both together, with the moments as numbers of steps.\<close>

lemma one_order:
  fixes ts :: "nat list" and a :: arena
  defines "at n \<equiv> run_threads (readers_and oper now key) (take n ts) (\<lambda>u. op_start (readers_and oper now key u), a)"
  assumes "inv (op_start oper, a)" "entry a key = old"
  shows "\<exists>w. (\<forall>n\<le>length ts. entry (snd (at n)) key = (if n < w then old else new)) \<and>
    (\<forall>t m k r. t \<noteq> 0 \<and> m \<le> k \<and> k \<le> length ts \<and> t \<notin> List.set (take m ts) \<and> fst (at k) t = AtGet (GetDone r) \<longrightarrow>
      (\<exists>n. m \<le> n \<and> n \<le> k \<and> r = spec_get (now t) key (entry (snd (at n)))))"
proof -
  have "\<exists>n. m \<le> n \<and> n \<le> k \<and> r = spec_get (now t) key (entry (snd (at n)))"
    if t: "t \<noteq> 0" "m \<le> k" "k \<le> length ts" "t \<notin> List.set (take m ts)" "fst (at k) t = AtGet (GetDone r)" for t m k r
  proof -
    have split: "take k ts = take m ts @ drop m (take k ts)"
      using t(2) append_take_drop_id [of m "take k ts"] by (simp add: min_def)
    have "run_threads (readers_and oper now key) (take m ts @ drop m (take k ts))
        (\<lambda>u. op_start (readers_and oper now key u), a) = (fst (at k), snd (at k))"
      unfolding split [symmetric] by (simp add: at_def)
    from linearizes [OF assms(2) t(1,4) this t(5)] obtain us vs where
      us: "drop m (take k ts) = us @ vs" "r = spec_get (now t) key (entry (snd (run_threads (readers_and oper now key)
        (take m ts @ us) (\<lambda>u. op_start (readers_and oper now key u), a))))" by blast
    have "length (drop m (take k ts)) = k - m" using t(3) by simp
    with us(1) t(2) have le: "m + length us \<le> k" by simp
    have "take (m + length us) (take k ts) = take m ts @ us"
      by (subst split) (use us(1) t(2,3) in simp)
    with le have "take (m + length us) ts = take m ts @ us" by (simp add: min_def)
    with us(2) le show ?thesis by (intro exI [of _ "m + length us"]) (simp add: at_def)
  qed
  with one_switch [OF assms(2,3), of ts] show ?thesis unfolding at_def by blast
qed

end

section \<open>Deletion\<close>

definition tombstoned :: "arena \<Rightarrow> arena \<Rightarrow> bool" where
  "tombstoned b b' \<longleftrightarrow> (\<forall>p. slot b' p = slot b p \<or> slot b' p = (slot b p)\<lparr>state := STATE_TOMBSTONE\<rparr>)"

lemma tombstoned_trans: "tombstoned b b' \<Longrightarrow> tombstoned b' b'' \<Longrightarrow> tombstoned b b''"
  unfolding tombstoned_def by (metis set_state_twice)

lemma tombstoned_holds: "tombstoned b b' \<Longrightarrow> holds b' p k \<Longrightarrow> holds b p k \<and> slot b' p = slot b p"
  by (auto simp: tombstoned_def holds_def dest!: spec [of _ p])

lemma tombstoned_entry:
  assumes "arena_wf b" "tombstoned b b'"
  shows "arena_wf b'" "entry b' k = None \<or> entry b' k = entry b k"
proof -
  have at: "slot b' p = slot b p \<or> slot b' p = (slot b p)\<lparr>state := STATE_TOMBSTONE\<rparr>" for p
    using assms(2) by (simp add: tombstoned_def)
  show wf: "arena_wf b'"
  proof (rule arena_wf_shrink [OF assms(1)])
    show "slot_wf (slot b' p)" if "p < SLOT_COUNT" for p
      using at [of p] wf_slot [OF assms(1) that] by (auto simp: slot_simps)
    show "state (slot b p) = STATE_EMPTY" if "p < SLOT_COUNT" "state (slot b' p) = STATE_EMPTY" for p
      using at [of p] that by auto
  qed (use tombstoned_holds [OF assms(2)] in auto)
  show "entry b' k = None \<or> entry b' k = entry b k"
  proof (cases "entry b' k")
    case (Some e)
    then obtain p where "holds b' p k" by (rule entry_SomeD)
    with tombstoned_holds [OF assms(2) this] entry_holds [OF assms(1), of p k] entry_holds [OF wf, of p k]
    show ?thesis by simp
  qed simp
qed

lemma tombstoned_evolves:
  assumes "arena_wf b" "tombstoned b b'"
  shows "evolves key b b'"
proof -
  have "same_contents (slot b' p) (slot b p)" for p
    using assms(2) by (auto simp: tombstoned_def dest!: spec [of _ p])
  moreover have "holds b' p key" if p: "holds b p key" "entry b' key \<noteq> None" for p
  proof -
    obtain q where q: "holds b' q key" using p(2) by (auto simp: entry_None_iff)
    with tombstoned_holds [OF assms(2) this] wf_unique [OF assms(1) p(1), of q] show ?thesis by simp
  qed
  ultimately show ?thesis by (simp add: evolves_def)
qed

definition deleting_fresh :: "arena \<Rightarrow> bytes \<Rightarrow> (nat \<Rightarrow> u64) \<Rightarrow> place \<times> arena \<Rightarrow> bool" where
  "deleting_fresh a key now x \<longleftrightarrow> deletion a key x \<and> (\<forall>t. spec_get (now t) key (entry a) \<noteq> Expired)"

lemma deletion_tombstoned: "deletion a key x \<Longrightarrow> arena_wf a \<and> alone key a \<and> tombstoned a (snd x)"
  by (simp add: deletion_def tombstoned_def)

interpretation deletes: steady "Deleting d" "deleting_fresh a key now" tombstoned key now "entry a key" None for d a key now
proof unfold_locales
  fix x t
  assume "deleting_fresh a key now x"
  then have x: "deletion a key x" "\<And>t. spec_get (now t) key (entry a) \<noteq> Expired" by (simp_all add: deleting_fresh_def)
  then obtain pc b where b: "x = (AtDel pc, b)" by (cases x) (auto simp: deletion_def)
  note a = deletion_tombstoned [OF x(1)]
  note ent = tombstoned_entry [of a "snd x"]
  show "deleting_fresh a key now (op_step (Deleting d) x)"
    using deleted.inv_step [OF x(1)] x(2) by (simp add: deleting_fresh_def)
  show "arena_wf (snd x)" using a ent(1) by blast
  show "alone key (snd x)"
    unfolding alone_def
  proof (intro ballI impI)
    fix k' assume k': "k' \<in> dom (entry (snd x))" "siphash k' = siphash key"
    with a ent(2) [of k'] have "k' \<in> dom (entry a)" by auto
    with a k'(2) show "k' = key" by (simp add: alone_def)
  qed
  show "spec_get (now t) key (entry (snd x)) \<noteq> Expired"
    using a ent(2) [of key] x(2) [of t] spec_get_cong [of "entry (snd x)" key "entry a" "now t"] by auto
  show stays: "tombstoned (snd x) (snd (op_step (Deleting d) x))"
    by (cases pc) (auto simp: b tombstoned_def Let_def arena_simps compare_exchange_state_def)
  show "entry (snd x) key = entry a key \<or> entry (snd x) key = None" using a ent(2) [of key] by auto
  show "entry (snd (op_step (Deleting d) x)) key = None" if "entry (snd x) key = None"
    using tombstoned_entry(2) [OF \<open>arena_wf (snd x)\<close> stays, of key] that by simp
qed (auto simp: tombstoned_def [of b b for b] tombstoned_evolves elim: tombstoned_trans)

section \<open>Insertion\<close>

lemma keeps_occupied_trans: "keeps_occupied b b' \<Longrightarrow> keeps_occupied b' b'' \<Longrightarrow> keeps_occupied b b''"
  by (simp add: keeps_occupied_def)

lemma keeps_occupied_evolves: "keeps_occupied b b' \<Longrightarrow> evolves key b b'"
  by (simp add: keeps_occupied_def evolves_def holds_def)

definition inserting_fresh :: "set_call \<Rightarrow> arena \<Rightarrow> bytes \<Rightarrow> (nat \<Rightarrow> u64) \<Rightarrow> arena \<Rightarrow> place \<times> arena \<Rightarrow> bool" where
  "inserting_fresh c a key now after x \<longleftrightarrow> insertion c a x \<and> (\<forall>t. spec_get (now t) key (entry a) \<noteq> Expired) \<and>
    (\<forall>t. spec_get (now t) key (entry after) \<noteq> Expired)"

lemma insertion_facts:
  fixes t0 ttl :: u64 and key val :: bytes and a :: arena
  defines "c \<equiv> call_of t0 key val ttl" and "after \<equiv> fst (hashmap_set t0 key val ttl a)"
  assumes "insertion c a x"
  shows "arena_wf (snd x)" "alone key (snd x)" "entry (snd x) key = None \<or> entry (snd x) key = entry after key"
    "keeps_occupied (snd x) (snd (op_step (Setting c) x))"
proof -
  obtain pc n b where b: "x = (AtSet pc, b)" and run: "(set_step c ^^ n) (set_start, a) = (pc, b)"
    and at: "inserts pc" "entry b = content_at c a pc" using assms(3) by (cases x) (auto simp: insertion_def)
  have start: "arena_wf a" "length (call_key c) \<le> MAX_KEY_LEN" "entry a (call_key c) = None" "alone (call_key c) a"
    using assms(3) by (simp_all add: insertion_def)
  have key: "call_key c = key" by (simp add: c_def)
  have inv: "undisturbed c a (pc, b)" using undisturbed_run [OF start(1,2), of n] by (simp add: run)
  show "arena_wf (snd x)" using inv by (simp add: b undisturbed_def)
  show "alone key (snd x)" using start(4) by (auto simp: b alone_def at(2) content_at_def key)
  show "entry (snd x) key = None \<or> entry (snd x) key = entry after key"
    using at(2) start(3) committed_end(2) [OF run [unfolded c_def]]
    by (cases "committed pc") (simp_all add: b content_at_def key after_def)
  show "keeps_occupied (snd x) (snd (op_step (Setting c) x))"
    using insertion_step [OF inv at] start(3,4) by (simp add: b case_prod_beta)
qed

lemma keeps_occupied_entry:
  assumes "arena_wf b" "arena_wf b'" "keeps_occupied b b'" "entry b key = Some e"
  shows "entry b' key = Some e"
proof -
  obtain p where p: "holds b p key" "e = (read_value (slot b p), expires_at_ms (slot b p))"
    using assms(4) by (rule entry_SomeD)
  with assms(3) have "holds b' p key" "slot b' p = slot b p" by (auto simp: keeps_occupied_def holds_def)
  with entry_holds [OF assms(2)] p(2) show ?thesis by simp
qed

interpretation inserts: steady "Setting (call_of t0 key val ttl)"
  "inserting_fresh (call_of t0 key val ttl) a key now (fst (hashmap_set t0 key val ttl a))" keeps_occupied key now None
  "entry (fst (hashmap_set t0 key val ttl a)) key" for t0 key val ttl a now
proof unfold_locales
  fix x t
  let ?c = "call_of t0 key val ttl" and ?after = "fst (hashmap_set t0 key val ttl a)"
  let ?y = "op_step (Setting ?c) x"
  assume "inserting_fresh ?c a key now ?after x"
  then have x: "insertion ?c a x" "\<And>t. spec_get (now t) key (entry a) \<noteq> Expired"
    "\<And>t. spec_get (now t) key (entry ?after) \<noteq> Expired" by (simp_all add: inserting_fresh_def)
  have y: "insertion ?c a ?y" by (rule inserted.inv_step [OF x(1)])
  note facts = insertion_facts [OF x(1)]
  show "inserting_fresh ?c a key now ?after ?y" using y x(2,3) by (simp add: inserting_fresh_def)
  show "arena_wf (snd x)" "alone key (snd x)" "keeps_occupied (snd x) (snd ?y)"
    "entry (snd x) key = None \<or> entry (snd x) key = entry ?after key" by (rule facts)+
  show "spec_get (now t) key (entry (snd x)) \<noteq> Expired"
    using facts(3) spec_get_cong [of "entry (snd x)" key "entry ?after" "now t"] x(3) [of t] by auto
  show "entry (snd ?y) key = entry ?after key" if "entry (snd x) key = entry ?after key"
    using that keeps_occupied_entry [OF facts(1) insertion_facts(1) [OF y] facts(4)] insertion_facts(3) [OF y]
    by (cases "entry ?after key") auto
qed (auto simp: keeps_occupied_evolves elim: keeps_occupied_trans)

section \<open>Linearizability\<close>



end
