(* ===== verification/Percentiles.thy ===== *)
theory Percentiles
  imports WsBridge
begin

text \<open>
  The percentiles of a snapshot in exact arithmetic: the index that \<open>percentile\<close> of
  \<open>src/server/ws_bridge.rs\<close> computes in \<open>f64\<close> is the nearest rank, in spite of the rounded constants.
\<close>

section \<open>Products near a half\<close>

lemma round_half_even_near: "0 < d \<Longrightarrow> 2 * n \<le> 2 * (d * round_half_even n d) + d"
proof -
  assume d: "0 < d"
  obtain q r where qr: "q = n div d" "r = n mod d" by blast
  then have "n = d * q + r" "r < d" using d by simp_all
  moreover have "round_half_even n d = (if 2 * r > d \<or> 2 * r = d \<and> odd q then q + 1 else q)"
    by (simp add: round_half_even_def qr)
  ultimately show ?thesis by (auto simp: algebra_simps)
qed

text \<open>A value short of a multiple of its last place by less than half of that place is rounded up to it.\<close>

lemma f64_round_reaches:
  assumes "y \<le> x + e" "2 * e * 2 ^ 53 < x" "2 ^ (bit_length x - 53) dvd y" "0 < u"
  shows "y \<le> f64_round (x * u) u"
proof -
  define s where "s = bit_length x - 53"
  define r where "r = round_half_even (x * u) (u * 2 ^ s)"
  have round: "f64_round (x * u) u = r * 2 ^ s"
    using assms(4) by (simp add: f64_round_def Let_def r_def s_def)
  have "x < 2 ^ bit_length x" by (rule less_bit_length)
  also have "\<dots> \<le> 2 ^ (53 + s)" by (rule power_increasing) (simp_all add: s_def)
  finally have "2 * e * 2 ^ 53 < 2 ^ s * 2 ^ 53" using assms(2) by (simp add: power_add)
  then have small: "2 * e < 2 ^ s" by (simp only: mult_less_cancel2)
  have "2 * (x * u) \<le> 2 * (u * 2 ^ s * r) + u * 2 ^ s"
    unfolding r_def using assms(4) by (intro round_half_even_near) simp
  then have "u * (2 * x) \<le> u * (2 * (r * 2 ^ s) + 2 ^ s)" by (simp add: algebra_simps)
  then have "2 * x \<le> 2 * (r * 2 ^ s) + 2 ^ s" using assms(4) by (simp only: mult_le_cancel1)
  with small assms(1) have "y < r * 2 ^ s + 2 ^ s" by linarith
  moreover obtain z where z: "y = 2 ^ s * z" using assms(3) unfolding s_def by (elim dvdE)
  ultimately have "2 ^ s * z < 2 ^ s * (r + 1)" by (simp add: algebra_simps)
  then have "z < r + 1" by (simp only: mult_less_cancel1)
  then have "2 ^ s * z \<le> r * 2 ^ s" by simp
  then show ?thesis unfolding round z .
qed

lemma index_between:
  assumes "x \<le> (k * 2 ^ 11 + 2 ^ 10 - 1) * 2 ^ 189" "0 < k \<Longrightarrow> (2 * k - 1) * 2 ^ 199 \<le> x + e"
    and "0 < k \<Longrightarrow> 2 * e * 2 ^ 53 < x" "k < 2 ^ 40"
  shows "f64_to_int (f64_round (x * f64_unit) f64_unit) = k"
proof -
  let ?r = "f64_round (x * f64_unit) f64_unit" and ?y = "(k * 2 ^ 11 + 2 ^ 10 - 1) * 2 ^ 189"
  have "k * 2 ^ 11 + 2 ^ 10 - 1 < 2 ^ 53" using assms(4) by simp
  then have "f64_round (?y * f64_unit) f64_unit = ?y"
    by (intro f64_round_exact) simp_all
  moreover have "?r \<le> f64_round (?y * f64_unit) f64_unit"
    using assms(1) by (intro f64_round_mono mult_right_mono) simp_all
  ultimately have upper: "?r \<le> ?y" by simp
  have lower: "(2 * k - 1) * 2 ^ 199 \<le> ?r" if "0 < k"
  proof (rule f64_round_reaches [OF assms(2) [OF that] assms(3) [OF that]])
    have "x < 2 ^ 252" using assms(1,4) by simp
    then have "bit_length x \<le> 252" by (rule bit_length_mono_bound)
    then have "(2 :: nat) ^ (bit_length x - 53) dvd 2 ^ 199" by (intro le_imp_power_dvd) simp
    then show "2 ^ (bit_length x - 53) dvd (2 * k - 1) * 2 ^ 199" by (rule dvd_mult)
  qed simp
  have "k * (2 * f64_unit) \<le> 2 * ?r + f64_unit"
    using lower by (cases k) (simp_all add: f64_unit_def)
  moreover have "2 * ?r + f64_unit < Suc k * (2 * f64_unit)"
    using upper by (simp add: f64_unit_def)
  ultimately show ?thesis
    unfolding f64_to_int_def by (intro div_nat_eqI) (simp_all add: mult.commute)
qed

section \<open>The constants\<close>

lemma point_99: "f64_div (percentile_points 99) (f64_nat 100) = 4458563631096791 * 2 ^ 148"
proof -
  have "bit_length (99 * f64_unit * f64_unit div (100 * f64_unit)) = 200"
    by (simp add: f64_unit_def bit_length.simps)
  then show ?thesis
    by (simp add: percentile_points_def f64_div_def f64_round_def Let_def) (simp add: f64_unit_def round_half_even_def)
qed

lemma point_999: "f64_div (percentile_points 999) (f64_nat 100) = 2249548013871563 * 2 ^ 149"
proof -
  have "bit_length (999 * f64_unit * f64_unit div (10 * f64_unit)) = 207"
    by (simp add: f64_unit_def bit_length.simps)
  then have "percentile_points 999 = 3514918771674317 * 2 ^ 155"
    by (simp add: percentile_points_def f64_div_def f64_round_def Let_def) (simp add: f64_unit_def round_half_even_def)
  moreover have "bit_length (3514918771674317 * 2 ^ 155 * f64_unit div (100 * f64_unit)) = 200"
    by (simp add: f64_unit_def bit_length.simps)
  ultimately show ?thesis
    by (simp add: f64_div_def f64_round_def Let_def) (simp add: f64_unit_def round_half_even_def)
qed

section \<open>The nearest ranks\<close>

lemma percentile_index_product:
  assumes "len \<le> 2 ^ 40"
  shows "percentile_index n len =
    f64_to_int (f64_round (f64_div (percentile_points n) (f64_nat 100) * (len - 1) * f64_unit) f64_unit)"
proof -
  have "len - 1 < 2 ^ 53" using assms by simp
  then show ?thesis
    unfolding percentile_index_points f64_mul_def by (simp only: f64_nat_exact mult.assoc)
qed

lemma div_bounds: "0 < d \<Longrightarrow> d * (m div d) \<le> m \<and> m < d * (m div d) + (d :: nat)"
  using mult_div_mod_eq [of d m] mod_less_divisor [of d m] by linarith

lemma index_99:
  assumes "len \<le> 2 ^ 40"
  shows "percentile_index 99 len = (99 * (len - 1) + 50) div 100"
proof -
  define n k where "n = len - 1" and "k = (99 * n + 50) div 100"
  have n: "n < 2 ^ 40" using assms by (simp add: n_def)
  have k: "100 * k \<le> 99 * n + 50" "99 * n + 50 < 100 * k + 100"
    using div_bounds [of 100 "99 * n + 50"] by (simp_all add: k_def)
  have "f64_to_int (f64_round (4458563631096791 * 2 ^ 148 * n * f64_unit) f64_unit) = k"
  proof (rule index_between [where e = "n * 2 ^ 144"])
    show "k < 2 ^ 40" using n k(1) by simp
    have "4458563631096791 * n \<le> (k * 2 ^ 11 + 2 ^ 10 - 1) * 2 ^ 41" using n k(2) by simp
    from mult_right_mono [OF this, of "2 ^ 148"]
    show "4458563631096791 * 2 ^ 148 * n \<le> (k * 2 ^ 11 + 2 ^ 10 - 1) * 2 ^ 189" by simp
    assume "0 < k"
    then have "(2 * k - 1) * 2 ^ 55 \<le> (4458563631096791 * 2 ^ 4 + 1) * n" using k(1) by simp
    from mult_right_mono [OF this, of "2 ^ 144"]
    show "(2 * k - 1) * 2 ^ 199 \<le> 4458563631096791 * 2 ^ 148 * n + n * 2 ^ 144" by simp
    have "0 < n" using k(1) \<open>0 < k\<close> by simp
    then show "2 * (n * 2 ^ 144) * 2 ^ 53 < 4458563631096791 * 2 ^ 148 * n" by simp
  qed
  then show ?thesis
    by (simp only: percentile_index_product [OF assms] point_99 n_def k_def)
qed

lemma index_999:
  assumes "len \<le> 2 ^ 40"
  shows "percentile_index 999 len = (999 * (len - 1) + 500) div 1000"
proof -
  define n k where "n = len - 1" and "k = (999 * n + 500) div 1000"
  have n: "n < 2 ^ 40" using assms by (simp add: n_def)
  have k: "1000 * k \<le> 999 * n + 500" "999 * n + 500 < 1000 * k + 1000"
    using div_bounds [of 1000 "999 * n + 500"] by (simp_all add: k_def)
  have "f64_to_int (f64_round (2249548013871563 * 2 ^ 149 * n * f64_unit) f64_unit) = k"
  proof (rule index_between [where e = 0])
    show "k < 2 ^ 40" using n k(1) by simp
    have "2249548013871563 * n \<le> (k * 2 ^ 11 + 2 ^ 10 - 1) * 2 ^ 40" using n k(2) by simp
    from mult_right_mono [OF this, of "2 ^ 149"]
    show "2249548013871563 * 2 ^ 149 * n \<le> (k * 2 ^ 11 + 2 ^ 10 - 1) * 2 ^ 189" by simp
    assume "0 < k"
    then have "(2 * k - 1) * 2 ^ 50 \<le> 2249548013871563 * n" using k(1) by simp
    from mult_right_mono [OF this, of "2 ^ 149"]
    show "(2 * k - 1) * 2 ^ 199 \<le> 2249548013871563 * 2 ^ 149 * n + 0" by simp
    have "0 < n" using k(1) \<open>0 < k\<close> by simp
    then show "2 * 0 * 2 ^ 53 < 2249548013871563 * 2 ^ 149 * n" by simp
  qed
  then show ?thesis
    by (simp only: percentile_index_product [OF assms] point_999 n_def k_def)
qed

text \<open>
  The sample of rank \<open>i\<close> without sorting: at most \<open>i\<close> samples are smaller, more than \<open>i\<close> are not larger.
\<close>

definition has_rank :: "nat \<Rightarrow> u64 list \<Rightarrow> u64 \<Rightarrow> bool" where
  "has_rank i xs v \<longleftrightarrow> v \<in> List.set xs \<and> length (filter (\<lambda>x. x < v) xs) \<le> i \<and> i < length (filter (\<lambda>x. x \<le> v) xs)"

lemma filter_take_drop: "length (filter P l) = length (filter P (take n l)) + length (filter P (drop n l))"
  by (simp flip: filter_append length_append)

lemma has_rank_sort:
  assumes "i < length xs"
  shows "has_rank i xs (sort xs ! i)"
proof -
  let ?l = "sort xs" and ?v = "sort xs ! i"
  have count: "length (filter P xs) = length (filter P ?l)" for P by (simp add: filter_sort)
  have "x \<le> ?v" if "x \<in> List.set (take (Suc i) ?l)" for x
    using that assms by (auto simp: in_set_conv_nth intro!: sorted_nth_mono)
  then have "i < length (filter (\<lambda>x. x \<le> ?v) ?l)"
    using assms by (simp add: filter_take_drop [of _ ?l "Suc i"] filter_True)
  moreover have "\<not> x < ?v" if "x \<in> List.set (drop i ?l)" for x
    using that assms by (auto simp: in_set_conv_nth not_less intro!: sorted_nth_mono)
  then have "length (filter (\<lambda>x. x < ?v) ?l) \<le> i"
    using length_filter_le [of "\<lambda>x. x < ?v" "take i ?l"] assms by (simp add: filter_take_drop [of _ ?l i] filter_False)
  ultimately show ?thesis
    using assms nth_mem [of i ?l] by (simp add: has_rank_def count)
qed

text \<open>
  C38: the percentiles are the nearest ranks.  Although the code computes its indices in floating point
  with constants that are not exact, for every window of up to \<open>2 ^ 40\<close> operations the three
  percentiles are the samples of rank \<open>N div 2\<close> and of the ranks nearest to 99 and 99.9 per cent of
  \<open>N - 1\<close>, halves rounded up.
\<close>

theorem percentiles_are_nearest_ranks:
  assumes "drain used total_count g = (g', snapshot)" "length (latencies g) = Suc n" "n < 2 ^ 40"
  shows "has_rank (Suc n div 2) (latencies g) (p50_us snapshot) \<and>
    has_rank ((99 * n + 50) div 100) (latencies g) (p99_us snapshot) \<and>
    has_rank ((999 * n + 500) div 1000) (latencies g) (p999_us snapshot)"
proof -
  let ?l = "sort (latencies g)"
  have l: "?l \<noteq> []" "length ?l = Suc n" using assms(2) by (auto simp flip: length_greater_0_conv)
  have nth: "has_rank i (latencies g) (percentile ?l m)" if "percentile_index m (Suc n) = i" "i \<le> n" for i m
    using that l has_rank_sort [of i "latencies g"] by (simp add: percentile_def assms(2) min_absorb1)
  have "percentile_index 50 (Suc n) = Suc n div 2" using assms(3) by (intro median_index) simp_all
  moreover have "percentile_index 99 (Suc n) = (99 * n + 50) div 100" using index_99 [of "Suc n"] assms(3) by simp
  moreover have "percentile_index 999 (Suc n) = (999 * n + 500) div 1000" using index_999 [of "Suc n"] assms(3) by simp
  ultimately show ?thesis
    unfolding drain_fields [OF assms(1)] by (intro conjI nth) simp_all
qed

theorem percentiles_are_nearest_ranks_witness:
  "has_rank 1 [9, 2, 4] (p50_us (snd (drain 3 65536 \<lparr>latencies = [9, 2, 4], breakdown = Map.empty\<rparr>))) \<and>
   has_rank 2 [9, 2, 4] (p99_us (snd (drain 3 65536 \<lparr>latencies = [9, 2, 4], breakdown = Map.empty\<rparr>)))"
  using percentiles_are_nearest_ranks [OF surjective_pairing, of "\<lparr>latencies = [9, 2, 4], breakdown = Map.empty\<rparr>" 2 3 65536]
  by simp

end
