(* ===== verification/Independence.thy ===== *)
theory Independence
  imports Contention KeySpace
begin

text \<open>
  Threads that work on different stored keys.  Each GET, update or DEL touches only the slot of its
  own key, and what the others do to their slots (new values, tombstones) does not lead its search
  astray.  So any number of such operations, in any interleaving of their steps, has the results
  and the final content of the same operations one after the other, in every order.
\<close>

section \<open>The slot of a key\<close>

definition home_of :: "arena \<Rightarrow> bytes \<Rightarrow> nat \<Rightarrow> bool" where
  "home_of a k j \<longleftrightarrow> arena_wf a \<and> alone k a \<and> j < SLOT_COUNT \<and> holds a (probe (siphash k) j) k"

text \<open>
  The search of one thread on its way to probe \<open>j\<close>: the slots before it may be changed by the threads
  of their keys, from what they were in \<open>a\<close> to what they are in \<open>b\<close>.
\<close>

definition beside :: "arena \<Rightarrow> arena \<Rightarrow> bool" where
  "beside a b \<longleftrightarrow> (\<forall>q. fingerprint (slot b q) = fingerprint (slot a q) \<and>
    (state (slot b q) = state (slot a q) \<or> state (slot a q) = STATE_OCCUPIED \<and> state (slot b q) = STATE_TOMBSTONE))"

abbreviation met :: "arena \<Rightarrow> bytes \<Rightarrow> nat \<Rightarrow> bool" where
  "met a k i \<equiv> state (slot a (probe (siphash k) i)) = STATE_OCCUPIED"

lemma home_facts:
  assumes "home_of a k j"
  shows "state (slot a (probe (siphash k) j)) = STATE_OCCUPIED" "fingerprint (slot a (probe (siphash k) j)) = siphash k"
    "read_key (slot a (probe (siphash k) j)) = k"
  using assms wf_fingerprint by (auto simp: home_of_def holds_def)

lemma home_path:
  assumes "home_of a k j" "i < j"
  shows "state (slot a (probe (siphash k) i)) \<noteq> STATE_EMPTY"
    "met a k i \<Longrightarrow> fingerprint (slot a (probe (siphash k) i)) \<noteq> siphash k"
proof -
  have wf: "arena_wf a" and j: "j < SLOT_COUNT" "holds a (probe (siphash k) j) k" and sep: "alone k a"
    using assms(1) by (simp_all add: home_of_def)
  show "state (slot a (probe (siphash k) i)) \<noteq> STATE_EMPTY" by (rule wf_chain [OF wf j(2,1) assms(2)])
  assume "met a k i"
  then have other: "holds a (probe (siphash k) i) (read_key (slot a (probe (siphash k) i)))" by (intro holds_occupied) simp_all
  show "fingerprint (slot a (probe (siphash k) i)) \<noteq> siphash k"
  proof
    assume "fingerprint (slot a (probe (siphash k) i)) = siphash k"
    then have "siphash (read_key (slot a (probe (siphash k) i))) = siphash k" using wf_fingerprint [OF wf other] by simp
    moreover have "entry a (read_key (slot a (probe (siphash k) i))) \<noteq> None" using entry_holds [OF wf other] by simp
    ultimately have "read_key (slot a (probe (siphash k) i)) = k" using sep by (auto simp: alone_def domIff)
    with other have "probe (siphash k) i = probe (siphash k) j" using wf_unique [OF wf _ j(2)] by simp
    with j(1) assms(2) show False by simp
  qed
qed

lemma beside_path:
  assumes "home_of a k j" "beside a b" "i < j"
  shows "state (slot b (probe (siphash k) i)) \<noteq> STATE_EMPTY"
    "state (slot b (probe (siphash k) i)) = STATE_OCCUPIED \<Longrightarrow> met a k i"
    "met a k i \<Longrightarrow> fingerprint (slot b (probe (siphash k) i)) \<noteq> siphash k"
  using home_path [OF assms(1,3)] assms(2) by (auto simp: beside_def dest!: spec [of _ "probe (siphash k) i"])

section \<open>The operations on their way\<close>

text \<open>
  Where a thread can be, and what its slot is then, by the slot \<open>h\<close> that its key has in \<open>a\<close>.
\<close>

fun get_tracks :: "arena \<Rightarrow> u64 \<Rightarrow> bytes \<Rightarrow> nat \<Rightarrow> slot \<Rightarrow> get_pc \<Rightarrow> slot \<Rightarrow> bool" where
  "get_tracks a now k j h (GetState i) s \<longleftrightarrow> i \<le> j \<and> s = h"
| "get_tracks a now k j h (GetFingerprint i) s \<longleftrightarrow> i \<le> j \<and> s = h \<and> met a k i"
| "get_tracks a now k j h (GetExpiry i) s \<longleftrightarrow> i = j \<and> s = h"
| "get_tracks a now k j h (GetEvict i) s \<longleftrightarrow> i = j \<and> s = h \<and> is_expired now h"
| "get_tracks a now k j h (GetKey i) s \<longleftrightarrow> i = j \<and> s = h \<and> \<not> is_expired now h"
| "get_tracks a now k j h (GetValue i) s \<longleftrightarrow> i = j \<and> s = h \<and> \<not> is_expired now h"
| "get_tracks a now k j h (GetDone r) s \<longleftrightarrow>
    (if is_expired now h then r = Expired \<and> s = h\<lparr>state := STATE_TOMBSTONE\<rparr> else r = Found (read_value h) \<and> s = h)"

fun set_tracks :: "arena \<Rightarrow> set_call \<Rightarrow> nat \<Rightarrow> slot \<Rightarrow> set_pc \<Rightarrow> slot \<Rightarrow> bool" where
  "set_tracks a c j h (LoadState i ft) s \<longleftrightarrow> i \<le> j \<and> s = h"
| "set_tracks a c j h (LoadFingerprint i ft) s \<longleftrightarrow> i \<le> j \<and> s = h \<and> met a (call_key c) i"
| "set_tracks a c j h (TestExpiry i ft) s \<longleftrightarrow> i = j \<and> s = h"
| "set_tracks a c j h (CompareKey i ft) s \<longleftrightarrow> i = j \<and> s = h"
| "set_tracks a c j h (UpdateValBuf p) s \<longleftrightarrow> p = probe (call_hash c) j \<and> s = h"
| "set_tracks a c j h (UpdateValLen p) s \<longleftrightarrow> p = probe (call_hash c) j \<and> s = store_val_buf (call_val c) h"
| "set_tracks a c j h (UpdateExpiry p) s \<longleftrightarrow> p = probe (call_hash c) j \<and> s = write_value (call_val c) h"
| "set_tracks a c j h (Done r) s \<longleftrightarrow> r = Updated \<and> s = update_slot (call_val c) (call_expiry c) h"
| "set_tracks a c j h _ s \<longleftrightarrow> False"

fun del_tracks :: "arena \<Rightarrow> bytes \<Rightarrow> nat \<Rightarrow> slot \<Rightarrow> del_pc \<Rightarrow> slot \<Rightarrow> bool" where
  "del_tracks a k j h (DelState i) s \<longleftrightarrow> i \<le> j \<and> s = h"
| "del_tracks a k j h (DelFingerprint i) s \<longleftrightarrow> i \<le> j \<and> s = h \<and> met a k i"
| "del_tracks a k j h (DelKey i) s \<longleftrightarrow> i = j \<and> s = h"
| "del_tracks a k j h (DelSwap i) s \<longleftrightarrow> i = j \<and> s = h"
| "del_tracks a k j h DelCount s \<longleftrightarrow> s = h\<lparr>state := STATE_TOMBSTONE\<rparr>"
| "del_tracks a k j h (DelDone r) s \<longleftrightarrow> r = Deleted \<and> s = h\<lparr>state := STATE_TOMBSTONE\<rparr>"

text \<open>A step keeps a thread on its way and changes no slot but its own.\<close>

definition only_at :: "nat \<Rightarrow> arena \<Rightarrow> arena \<Rightarrow> bool" where
  "only_at p b b' \<longleftrightarrow> (\<forall>q. q \<noteq> p \<longrightarrow> slot b' q = slot b q)"

lemma only_at_simps [simp]: "only_at p b b" "only_at p b (slot_mut p f b)" "only_at p b (add_used d b)"
  by (simp_all add: only_at_def arena_simps)

lemma tracks_next:
  "i \<le> j \<Longrightarrow> i \<noteq> j \<Longrightarrow> j < SLOT_COUNT \<Longrightarrow> get_tracks a now k j h (get_next (Suc i)) s \<longleftrightarrow> s = h"
  "i \<le> j \<Longrightarrow> i \<noteq> j \<Longrightarrow> j < SLOT_COUNT \<Longrightarrow> del_tracks a k j h (del_next (Suc i)) s \<longleftrightarrow> s = h"
  "i \<le> j \<Longrightarrow> i \<noteq> j \<Longrightarrow> j < SLOT_COUNT \<Longrightarrow> set_tracks a c j h (next_probe (Suc i) ft) s \<longleftrightarrow> s = h"
  by (auto simp: get_next_def del_next_def next_probe_def)

text \<open>What a thread meets: its own slot as it left it, and the others on its path.\<close>

lemma at_home:
  assumes "home_of a k j" "h = slot a (probe (siphash k) j)"
  shows "state h = STATE_OCCUPIED" "fingerprint h = siphash k" "read_key h = k" "j < SLOT_COUNT" "met a k j"
  using home_facts [OF assms(1)] assms by (simp_all add: home_of_def)

lemma get_tracks_step:
  assumes home: "home_of a k j" and env: "beside a b" and p: "p = probe (siphash k) j" and h: "h = slot a p"
    and track: "get_tracks a now k j h pc (slot b p)"
  shows "get_tracks a now k j h (fst (get_step now k (pc, b))) (slot (snd (get_step now k (pc, b))) p) \<and>
    only_at p b (snd (get_step now k (pc, b)))"
proof (cases pc)
  case (GetState i)
  with track at_home [OF home h [unfolded p]] beside_path [OF home env, of i] show ?thesis
    by (cases "i = j") (auto simp: Let_def p tracks_next)
next
  case (GetFingerprint i)
  with track at_home [OF home h [unfolded p]] beside_path [OF home env, of i] show ?thesis
    by (cases "i = j") (auto simp: p tracks_next)
next
  case (GetEvict i)
  with track at_home [OF home h [unfolded p]] show ?thesis
    by (simp add: p arena_simps compare_exchange_state_def)
qed (use track at_home [OF home h [unfolded p]] in \<open>auto simp: p\<close>)

lemma del_tracks_step:
  assumes home: "home_of a k j" and env: "beside a b" and p: "p = probe (siphash k) j" and h: "h = slot a p"
    and track: "del_tracks a k j h pc (slot b p)"
  shows "del_tracks a k j h (fst (del_step k (pc, b))) (slot (snd (del_step k (pc, b))) p) \<and>
    only_at p b (snd (del_step k (pc, b)))"
proof (cases pc)
  case (DelState i)
  with track at_home [OF home h [unfolded p]] beside_path [OF home env, of i] show ?thesis
    by (cases "i = j") (auto simp: Let_def p tracks_next)
next
  case (DelFingerprint i)
  with track at_home [OF home h [unfolded p]] beside_path [OF home env, of i] show ?thesis
    by (cases "i = j") (auto simp: p tracks_next)
next
  case (DelSwap i)
  with track at_home [OF home h [unfolded p]] show ?thesis
    by (simp add: p arena_simps compare_exchange_state_def Let_def)
qed (use track at_home [OF home h [unfolded p]] in \<open>auto simp: p arena_simps\<close>)

lemma set_tracks_step:
  assumes home: "home_of a k j" and env: "beside a b" and p: "p = probe (siphash k) j" and h: "h = slot a p"
    and track: "set_tracks a c j h pc (slot b p)" and call: "call_key c = k" "\<not> is_expired (call_now c) h"
  shows "set_tracks a c j h (fst (set_step c (pc, b))) (slot (snd (set_step c (pc, b))) p) \<and>
    only_at p b (snd (set_step c (pc, b)))"
proof -
  have hash: "call_hash c = siphash k" by (simp add: call_hash_def call(1))
  show ?thesis
  proof (cases pc)
    case (LoadState i ft)
    with track call(1) at_home [OF home h [unfolded p]] beside_path [OF home env, of i] show ?thesis
      by (cases "i = j") (auto simp: Let_def hash p tracks_next)
  next
    case (LoadFingerprint i ft)
    with track call(1) at_home [OF home h [unfolded p]] beside_path [OF home env, of i] show ?thesis
      by (cases "i = j") (auto simp: hash p tracks_next)
  next
    case (TestExpiry i ft)
    with track call at_home [OF home h [unfolded p]] show ?thesis by (simp add: hash p Let_def lazy_evict_result)
  qed (use track call at_home [OF home h [unfolded p]] in \<open>auto simp: hash p arena_simps write_value_stores update_slot_def\<close>)
qed

section \<open>Any operation\<close>

fun op_key :: "operation \<Rightarrow> bytes" where
  "op_key (Setting c) = call_key c"
| "op_key (Getting now k) = k"
| "op_key (Deleting k) = k"

fun op_ready :: "operation \<Rightarrow> slot \<Rightarrow> bool" where
  "op_ready (Setting c) h \<longleftrightarrow> \<not> is_expired (call_now c) h"
| "op_ready _ h \<longleftrightarrow> True"

fun tracks :: "arena \<Rightarrow> operation \<Rightarrow> nat \<Rightarrow> slot \<Rightarrow> place \<Rightarrow> slot \<Rightarrow> bool" where
  "tracks a (Getting now k) j h (AtGet pc) s \<longleftrightarrow> get_tracks a now k j h pc s"
| "tracks a (Setting c) j h (AtSet pc) s \<longleftrightarrow> set_tracks a c j h pc s"
| "tracks a (Deleting k) j h (AtDel pc) s \<longleftrightarrow> del_tracks a k j h pc s"
| "tracks a _ j h _ s \<longleftrightarrow> False"

lemma tracks_start: "tracks a oper j h (op_start oper) h"
  by (cases oper) (simp_all add: get_next_def del_next_def set_start_def next_probe_def)

lemma tracks_step:
  assumes "home_of a (op_key oper) j" "beside a b" "p = probe (siphash (op_key oper)) j" "op_ready oper (slot a p)"
    and "tracks a oper j (slot a p) pc (slot b p)" "op_step oper (pc, b) = (pc', b')"
  shows "tracks a oper j (slot a p) pc' (slot b' p) \<and> only_at p b b'"
  using assms get_tracks_step [OF assms(1-3) refl] del_tracks_step [OF assms(1-3) refl] set_tracks_step [OF assms(1-3) refl]
  by (cases oper; cases pc) (auto simp: case_prod_beta)

text \<open>On its way a slot keeps its key and its place in the probe chains.\<close>

lemma tracks_shape:
  assumes "tracks a oper j h pc s" "slot_wf h"
  shows "fingerprint s = fingerprint h" "state s = state h \<or> state s = STATE_TOMBSTONE" "read_key s = read_key h" "slot_wf s"
  using assms
  by (induction a oper j h pc s rule: tracks.induct;
      auto elim!: get_tracks.elims set_tracks.elims del_tracks.elims simp: slot_simps slot_wf_stores wf_intros split: if_splits)+

section \<open>All threads\<close>

definition spot :: "(nat \<Rightarrow> operation) \<Rightarrow> (nat \<Rightarrow> nat) \<Rightarrow> nat \<Rightarrow> nat" where
  "spot ops js t = probe (siphash (op_key (ops t))) (js t)"

definition apart :: "arena \<Rightarrow> (nat \<Rightarrow> operation) \<Rightarrow> (nat \<Rightarrow> nat) \<Rightarrow> nat set \<Rightarrow> (nat \<Rightarrow> place) \<times> arena \<Rightarrow> bool" where
  "apart a ops js T x \<longleftrightarrow> (\<forall>q. q \<notin> spot ops js ` T \<longrightarrow> slot (snd x) q = slot a q) \<and>
    (\<forall>t\<in>T. tracks a (ops t) (js t) (slot a (spot ops js t)) (fst x t) (slot (snd x) (spot ops js t)))"

definition settled_in :: "arena \<Rightarrow> (nat \<Rightarrow> operation) \<Rightarrow> (nat \<Rightarrow> nat) \<Rightarrow> nat set \<Rightarrow> bool" where
  "settled_in a ops js T \<longleftrightarrow> arena_wf a \<and> inj_on (\<lambda>t. op_key (ops t)) T \<and>
    (\<forall>t\<in>T. home_of a (op_key (ops t)) (js t) \<and> op_ready (ops t) (slot a (spot ops js t)))"

lemma spot_inj:
  assumes "settled_in a ops js T" "t \<in> T" "u \<in> T" "spot ops js t = spot ops js u"
  shows "t = u"
proof -
  have "holds a (spot ops js t) (op_key (ops t))" "holds a (spot ops js u) (op_key (ops u))"
    using assms(1-3) by (auto simp: settled_in_def home_of_def spot_def)
  then have "op_key (ops t) = op_key (ops u)" using assms(4) holds_key by metis
  with assms(1-3) show ?thesis by (auto simp: settled_in_def inj_on_def)
qed

lemma apart_shape:
  assumes "settled_in a ops js T" "apart a ops js T (pcs, b)" "t \<in> T"
  defines "p \<equiv> spot ops js t"
  shows "fingerprint (slot b p) = fingerprint (slot a p)" "state (slot a p) = STATE_OCCUPIED"
    "state (slot b p) = STATE_OCCUPIED \<or> state (slot b p) = STATE_TOMBSTONE"
    "read_key (slot b p) = op_key (ops t)" "slot_wf (slot b p)" "read_key (slot a p) = op_key (ops t)"
proof -
  have home: "home_of a (op_key (ops t)) (js t)" "arena_wf a" using assms(1,3) by (auto simp: settled_in_def)
  have "tracks a (ops t) (js t) (slot a p) (pcs t) (slot b p)" using assms(2,3) by (simp add: apart_def p_def)
  moreover have "slot_wf (slot a p)" using wf_slot [OF home(2)] by (simp add: p_def spot_def)
  ultimately show "fingerprint (slot b p) = fingerprint (slot a p)" "state (slot a p) = STATE_OCCUPIED"
    "state (slot b p) = STATE_OCCUPIED \<or> state (slot b p) = STATE_TOMBSTONE"
    "read_key (slot b p) = op_key (ops t)" "slot_wf (slot b p)" "read_key (slot a p) = op_key (ops t)"
    using tracks_shape [of a "ops t" "js t" "slot a p" "pcs t" "slot b p"] home_facts [OF home(1)]
    by (simp_all add: p_def spot_def)
qed

lemma apart_beside:
  assumes "settled_in a ops js T" "apart a ops js T (pcs, b)"
  shows "beside a b"
  unfolding beside_def
proof
  fix q
  show "fingerprint (slot b q) = fingerprint (slot a q) \<and>
    (state (slot b q) = state (slot a q) \<or> state (slot a q) = STATE_OCCUPIED \<and> state (slot b q) = STATE_TOMBSTONE)"
  proof (cases "q \<in> spot ops js ` T")
    case True
    then obtain t where "t \<in> T" "q = spot ops js t" by blast
    with apart_shape [OF assms this(1)] show ?thesis by auto
  next
    case False
    with assms(2) show ?thesis by (simp add: apart_def)
  qed
qed

lemma apart_step:
  assumes set: "settled_in a ops js T" and inv: "apart a ops js T (pcs, b)" and t: "t \<in> T"
    and step: "op_step (ops t) (pcs t, b) = (pc, b')"
  shows "apart a ops js T (pcs(t := pc), b')"
proof -
  let ?p = "spot ops js"
  have "tracks a (ops t) (js t) (slot a (?p t)) pc (slot b' (?p t)) \<and> only_at (?p t) b b'"
  proof (rule tracks_step [OF _ apart_beside [OF set inv] _ _ _ step])
    show "home_of a (op_key (ops t)) (js t)" "op_ready (ops t) (slot a (?p t))" using set t by (auto simp: settled_in_def)
    show "tracks a (ops t) (js t) (slot a (?p t)) (pcs t) (slot b (?p t))" using inv t by (simp add: apart_def)
  qed (simp add: spot_def)
  then have own: "tracks a (ops t) (js t) (slot a (?p t)) pc (slot b' (?p t))"
    and rest: "\<And>q. q \<noteq> ?p t \<Longrightarrow> slot b' q = slot b q" by (auto simp: only_at_def)
  have "slot b' q = slot a q" if "q \<notin> ?p ` T" for q
  proof -
    have "q \<noteq> ?p t" using that t by blast
    with rest [of q] inv that show ?thesis by (simp add: apart_def)
  qed
  moreover have "tracks a (ops u) (js u) (slot a (?p u)) ((pcs(t := pc)) u) (slot b' (?p u))" if u: "u \<in> T" for u
  proof (cases "u = t")
    case False
    then have "?p u \<noteq> ?p t" using spot_inj [OF set u t] by blast
    with rest [of "?p u"] inv u False show ?thesis by (simp add: apart_def)
  qed (use own in simp)
  ultimately show ?thesis by (simp add: apart_def)
qed

lemma apart_run:
  assumes "settled_in a ops js (List.set ts)" "run_threads ops ts (\<lambda>t. op_start (ops t), a) = (pcs, b)"
  shows "apart a ops js (List.set ts) (pcs, b)"
proof -
  have "apart a ops js (List.set ts) (run_threads ops ts (\<lambda>t. op_start (ops t), a))"
  proof (rule run_threads_invariant [where T = "List.set ts"])
    show "apart a ops js (List.set ts) (\<lambda>t. op_start (ops t), a)" by (simp add: apart_def tracks_start)
  qed (rule apart_step [OF assms(1)], assumption+, simp)
  then show ?thesis by (simp only: assms(2))
qed

lemma apart_wf:
  assumes set: "settled_in a ops js T" and inv: "apart a ops js T (pcs, b)"
  shows "arena_wf b"
proof -
  have wf: "arena_wf a" using set by (simp add: settled_in_def)
  have slots: "slot b q = slot a q \<or> (\<exists>t\<in>T. q = spot ops js t)" for q
    using inv by (auto simp: apart_def)
  show ?thesis
  proof (rule arena_wf_shrink [OF wf])
    show "slot_wf (slot b i)" if "i < SLOT_COUNT" for i
      using slots [of i] apart_shape(5) [OF set inv] wf_slot [OF wf that] by auto
    show "holds a i k \<and> fingerprint (slot b i) = fingerprint (slot a i)" if "holds b i k" for i k
      using slots [of i] apart_shape [OF set inv] that by (auto simp: holds_def)
    show "state (slot a i) = STATE_EMPTY" if "state (slot b i) = STATE_EMPTY" for i
      using slots [of i]
    proof (elim disjE bexE)
      fix t assume "t \<in> T" "i = spot ops js t"
      with apart_shape(3) [OF set inv this(1)] that show ?thesis by auto
    qed (use that in simp)
  qed
qed

section \<open>What is left when all are done\<close>

text \<open>The entry of the key after its operation.\<close>

fun op_entry :: "operation \<Rightarrow> (bytes \<times> u64) option \<Rightarrow> (bytes \<times> u64) option" where
  "op_entry (Setting c) e = Some (take MAX_VAL_LEN (call_val c), call_expiry c)"
| "op_entry (Getting now k) e = (case e of Some (v, x) \<Rightarrow> if expired_at now x then None else Some (v, x) | None \<Rightarrow> None)"
| "op_entry (Deleting k) e = None"

lemma tracks_finished:
  assumes "tracks a oper j h pc s" "finished pc" "state h = STATE_OCCUPIED"
  shows "op_entry oper (Some (read_value h, expires_at_ms h)) =
    (if state s = STATE_OCCUPIED then Some (read_value s, expires_at_ms s) else None)"
  using assms
  by (induction a oper j h pc s rule: tracks.induct) (auto simp: finished_def slot_simps is_expired_iff split: if_splits)

lemma apart_entry:
  assumes set: "settled_in a ops js T" and inv: "apart a ops js T (pcs, b)" and fin: "\<forall>t\<in>T. finished (pcs t)"
  shows "t \<in> T \<Longrightarrow> entry b (op_key (ops t)) = op_entry (ops t) (entry a (op_key (ops t)))"
    "k \<notin> (\<lambda>t. op_key (ops t)) ` T \<Longrightarrow> entry b k = entry a k"
proof -
  have wf: "arena_wf a" "arena_wf b" using set apart_wf [OF set inv] by (simp_all add: settled_in_def)
  have slots: "slot b q = slot a q \<or> (\<exists>t\<in>T. q = spot ops js t)" for q
    using inv by (auto simp: apart_def)
  note shape = apart_shape [OF set inv]
  have before: "holds b i k \<Longrightarrow> holds a i k" for i k
    using slots [of i] shape by (auto simp: holds_def)
  show "entry b (op_key (ops t)) = op_entry (ops t) (entry a (op_key (ops t)))" if t: "t \<in> T"
  proof -
    let ?p = "spot ops js t" and ?k = "op_key (ops t)"
    have here: "holds a ?p ?k" using shape(2,6) [OF t] by (simp add: holds_def spot_def)
    have own: "tracks a (ops t) (js t) (slot a ?p) (pcs t) (slot b ?p)" using inv t by (simp add: apart_def)
    from tracks_finished [OF own _ shape(2) [OF t]] fin t have left:
      "op_entry (ops t) (entry a ?k) = (if state (slot b ?p) = STATE_OCCUPIED
        then Some (read_value (slot b ?p), expires_at_ms (slot b ?p)) else None)"
      by (simp add: entry_holds [OF wf(1) here])
    show ?thesis
    proof (cases "state (slot b ?p) = STATE_OCCUPIED")
      case True
      then have "holds b ?p ?k" using shape(4) [OF t] by (simp add: holds_def spot_def)
      from entry_holds [OF wf(2) this] left True show ?thesis by simp
    next
      case False
      have "\<not> holds b i ?k" for i
        using before [of i ?k] wf_unique [OF wf(1) here, of i] False by (auto simp: holds_def)
      with left False show ?thesis by (simp add: entry_None_iff)
    qed
  qed
  show "entry b k = entry a k" if k: "k \<notin> (\<lambda>t. op_key (ops t)) ` T"
  proof (rule entry_cong)
    fix i
    have "slot b i = slot a i \<or> read_key (slot b i) \<noteq> k \<and> read_key (slot a i) \<noteq> k"
      using slots [of i]
    proof (elim disjE bexE)
      fix t assume t: "t \<in> T" "i = spot ops js t"
      then have "op_key (ops t) \<noteq> k" using k by blast
      with shape(4,6) [OF t(1)] t(2) show ?thesis by simp
    qed simp
    then show "holds b i k = holds a i k" "holds b i k \<Longrightarrow> read_value (slot b i) = read_value (slot a i) \<and>
        expires_at_ms (slot b i) = expires_at_ms (slot a i)"
      by (elim disjE; simp add: holds_def)+
  qed
qed

section \<open>One after the other\<close>

text \<open>The threads as operations of the abstract store, and their results.\<close>

fun performs :: "kv_op \<Rightarrow> operation \<Rightarrow> bool" where
  "performs (OGet now k) oper \<longleftrightarrow> oper = Getting now k"
| "performs (OSet now k v ttl) oper \<longleftrightarrow> oper = Setting (call_of now k v ttl)"
| "performs (ODel k) oper \<longleftrightarrow> oper = Deleting k"
| "performs OFlush oper \<longleftrightarrow> False"

fun result_at :: "place \<Rightarrow> kv_res option" where
  "result_at (AtGet (GetDone r)) = Some (RGet r)"
| "result_at (AtSet (Done r)) = Some (RSet r)"
| "result_at (AtDel (DelDone r)) = Some (RDel r)"
| "result_at _ = None"

text \<open>The key of the operation is stored, has a hash of its own, and is live if it is to be updated.\<close>

definition at_stored_key :: "arena \<Rightarrow> operation \<Rightarrow> bool" where
  "at_stored_key a oper \<longleftrightarrow> alone (op_key oper) a \<and> entry a (op_key oper) \<noteq> None \<and>
    (\<forall>c. oper = Setting c \<longrightarrow> live (call_now c) (entry a) (call_key c) \<noteq> None)"

lemma stored_home:
  assumes "arena_wf a" "at_stored_key a oper"
  shows "\<exists>j. home_of a (op_key oper) j \<and> op_ready oper (slot a (probe (siphash (op_key oper)) j))"
proof -
  obtain i where "holds a i (op_key oper)" using assms(2) by (auto simp: at_stored_key_def entry_None_iff)
  then obtain j where j: "j < SLOT_COUNT" "holds a (probe (siphash (op_key oper)) j) (op_key oper)"
    using holds_probe by metis
  then have "home_of a (op_key oper) j" using assms by (simp add: home_of_def at_stored_key_def)
  moreover have "op_ready oper (slot a (probe (siphash (op_key oper)) j))"
  proof (cases oper)
    case (Setting c)
    with assms(2) entry_holds [OF assms(1) j(2)] show ?thesis
      by (auto simp: at_stored_key_def live_def is_expired_iff split: if_splits)
  qed simp_all
  ultimately show ?thesis by blast
qed

text \<open>The result of a finished thread, and the specification of its operation on any map with its entry.\<close>

lemma finished_spec:
  assumes "tracks a oper j h pc s" "finished pc" "performs req oper"
    and "m (op_key oper) = Some (read_value h, expires_at_ms h)" "op_ready oper h"
  shows "\<exists>r. result_at pc = Some r \<and> spec_step m req r (m(op_key oper := op_entry oper (m (op_key oper))))"
proof (cases req)
  case (OGet now k)
  have "purge now k m = m(k := op_entry oper (m k))"
    using assms(3,4) by (auto simp: OGet purge_def fun_eq_iff)
  with assms spec_step.get [of m now k] show ?thesis
    by (cases pc) (auto simp: OGet finished_def is_expired_iff split: if_splits)
next
  case (OSet now k v ttl)
  have "live now m k \<noteq> None" using assms(3-5) by (simp add: OSet live_def is_expired_iff call_of_def)
  from spec_step.update [OF this] assms show ?thesis
    by (cases pc) (auto simp: OSet finished_def call_of_def)
next
  case (ODel k)
  with assms spec_step.del [of m k] show ?thesis
    by (cases pc) (auto simp: finished_def)
qed (use assms(3) in simp)

lemma spec_run_order:
  assumes "\<And>t m. t \<in> T \<Longrightarrow> m (key t) = e (key t) \<Longrightarrow> spec_step m (req t) (res t) (m(key t := new t (m (key t))))"
    and "inj_on key T" "distinct order" "List.set order \<subseteq> T" "\<forall>t\<in>List.set order. m (key t) = e (key t)"
  shows "\<exists>m'. spec_run m (map req order) (map res order) m' \<and>
    (\<forall>t\<in>List.set order. m' (key t) = new t (e (key t))) \<and> (\<forall>k. k \<notin> key ` List.set order \<longrightarrow> m' k = m k)"
  using assms(3-5)
proof (induction order arbitrary: m)
  case (Cons t order)
  define m1 where "m1 = m(key t := new t (m (key t)))"
  have t: "t \<in> T" using Cons.prems(2) by simp
  have other: "key u \<noteq> key t" if "u \<in> List.set order" for u
    using that assms(2) Cons.prems(1,2) t by (metis distinct.simps(2) inj_onD list.set_intros(2) subsetD)
  have "\<forall>u\<in>List.set order. m1 (key u) = e (key u)"
    using Cons.prems(3) other by (simp add: m1_def)
  with Cons.IH [of m1] Cons.prems(1,2) obtain m' where m': "spec_run m1 (map req order) (map res order) m'"
    "\<forall>u\<in>List.set order. m' (key u) = new u (e (key u))" "\<forall>k. k \<notin> key ` List.set order \<longrightarrow> m' k = m1 k"
    by auto
  have "spec_step m (req t) (res t) m1" unfolding m1_def using assms(1) [OF t] Cons.prems(3) by simp
  with m'(1) have "spec_run m (map req (t # order)) (map res (t # order)) m'" by (auto intro: spec_run.Cons)
  moreover have "key t \<notin> key ` List.set order" using other by force
  then have "m' (key t) = new t (e (key t))" using m'(3) Cons.prems(3) by (simp add: m1_def)
  ultimately show ?case using m'(2,3) by (auto simp: m1_def)
qed (auto intro: spec_run.Nil)

text \<open>
  C8: operations on different stored keys do not depend on each other.  Let any number of threads each
  run a GET, a DEL or an update of a stored key of its own (live, if it is updated), no other key
  with the same hash being stored, and let their accesses of the slots interleave in any way until
  all are done.  Then the arena is well-formed, and in whatever order the operations are put, the
  specification of the store allows them, one after the other, with the results the threads have
  and with the final content of the arena.
\<close>

theorem different_keys_in_any_order:
  assumes "arena_wf a" "inj_on (\<lambda>t. op_key (ops t)) (List.set ts)"
    and "\<forall>t\<in>List.set ts. performs (reqs t) (ops t) \<and> at_stored_key a (ops t)"
    and "run_threads ops ts (\<lambda>t. op_start (ops t), a) = (pcs, b)" "\<forall>t\<in>List.set ts. finished (pcs t)"
    and "distinct order" "List.set order = List.set ts"
  shows "arena_wf b \<and> (\<exists>res. (\<forall>t\<in>List.set ts. result_at (pcs t) = Some (res t)) \<and>
    spec_run (entry a) (map reqs order) (map res order) (entry b))"
proof -
  let ?T = "List.set ts" and ?key = "\<lambda>t. op_key (ops t)"
  obtain js where js: "\<forall>t\<in>?T. home_of a (?key t) (js t) \<and> op_ready (ops t) (slot a (spot ops js t))"
    using bchoice [of ?T "\<lambda>t j. home_of a (?key t) j \<and> op_ready (ops t) (slot a (probe (siphash (?key t)) j))"]
      stored_home [OF assms(1)] assms(3) by (auto simp: spot_def)
  with assms(1,2) have set: "settled_in a ops js ?T" by (simp add: settled_in_def)
  have inv: "apart a ops js ?T (pcs, b)" by (rule apart_run [OF set assms(4)])
  have here: "entry a (?key t) = Some (read_value (slot a (spot ops js t)), expires_at_ms (slot a (spot ops js t)))"
    if "t \<in> ?T" for t
    using js that entry_holds [OF assms(1)] by (auto simp: home_of_def spot_def)
  have spec: "\<exists>r. result_at (pcs t) = Some r \<and> spec_step m (reqs t) r (m(?key t := op_entry (ops t) (m (?key t))))"
    if t: "t \<in> ?T" "m (?key t) = entry a (?key t)" for t m
    using inv js assms(3,5) t here [OF t(1)]
    by (intro finished_spec [where a = a and j = "js t" and h = "slot a (spot ops js t)" and s = "slot b (spot ops js t)"])
      (simp_all add: apart_def)
  define res where "res t = the (result_at (pcs t))" for t
  have res: "result_at (pcs t) = Some (res t)" if "t \<in> ?T" for t
    using spec [where m = "entry a", OF that] by (auto simp: res_def)
  have step: "spec_step m (reqs t) (res t) (m(?key t := op_entry (ops t) (m (?key t))))"
    if "t \<in> ?T" "m (?key t) = entry a (?key t)" for t m
    using spec [where m = m, OF that] res [OF that(1)] by auto
  obtain m' where m': "spec_run (entry a) (map reqs order) (map res order) m'"
    "\<forall>t\<in>?T. m' (?key t) = op_entry (ops t) (entry a (?key t))" "\<forall>k. k \<notin> ?key ` ?T \<longrightarrow> m' k = entry a k"
    using spec_run_order [OF step assms(2,6), where m = "entry a" and e = "entry a"] assms(7) by auto
  have "m' = entry b"
    using m'(2,3) apart_entry [OF set inv assms(5)] by (intro ext) (case_tac "x \<in> ?key ` ?T"; auto)
  with m'(1) res apart_wf [OF set inv] show ?thesis by auto
qed

theorem different_keys_in_any_order_witness:
  "\<exists>pcs b rs. run_threads (\<lambda>t. if t = 0 then Deleting [1] else Getting 9 [2]) (concat (replicate STEP_BOUND [0, 1]))
      (\<lambda>t. op_start (if t = 0 then Deleting [1] else Getting 9 [2]),
        fst (hashmap_set 5 [2] [8] 0 (fst (hashmap_set 5 [1] [7] 0 (fresh_arena blank_arena))))) = (pcs, b) \<and>
    spec_run [[1] \<mapsto> ([7], 0), [2] \<mapsto> ([8], 0)] [OGet 9 [2], ODel [1]] rs (entry b)"
proof -
  let ?a1 = "fst (hashmap_set 5 [1] [7] 0 (fresh_arena blank_arena))"
  let ?a = "fst (hashmap_set 5 [2] [8] 0 ?a1)" and ?ops = "\<lambda>t. if t = 0 then Deleting [1] else Getting 9 [2]"
  let ?reqs = "\<lambda>t. if t = 0 then ODel [1] else OGet 9 [2]" and ?ts = "concat (replicate STEP_BOUND [0, 1 :: nat])"
  have hashes: "siphash [1] \<noteq> siphash [2]" by (simp add: siphash_eval)
  have wf1: "arena_wf ?a1" by (intro wf_hashmap_set wf_fresh_blank) (simp add: MAX_KEY_LEN_def)
  have e1: "entry ?a1 = [[1] \<mapsto> ([7], 0)]"
    using entry_set_fresh [of "[1]" 5 "[7]" 0] by (simp add: MAX_KEY_LEN_def MAX_VAL_LEN_def ttl_to_expiry_def)
  have "has_room ?a1"
    by (rule room_by_counting [OF wf1 states_ok_set, of "{[1]}"])
      (simp_all add: wf_fresh_blank e1 SLOT_COUNT_def MAX_KEY_LEN_def states_ok_def arena_simps slot_simps)
  then have e: "entry ?a = [[1] \<mapsto> ([7], 0), [2] \<mapsto> ([8], 0)]"
    using hashmap_set_entries [OF wf1, of "[2]" 5 "[8]" 0] set_room [OF wf1 _ , of "[2]"] hashes
    by (auto simp: e1 MAX_KEY_LEN_def MAX_VAL_LEN_def ttl_to_expiry_def)
  have wf: "arena_wf ?a" by (intro wf_hashmap_set wf1) (simp add: MAX_KEY_LEN_def)
  have count: "count_list (concat (replicate n [0, 1])) t = (n :: nat)" if "t \<in> {0, 1 :: nat}" for n t
    using that by (induction n) auto
  obtain pcs b where run: "run_threads ?ops ?ts (\<lambda>t. op_start (?ops t), ?a) = (pcs, b)" by fastforce
  have ts: "List.set ?ts = {0, 1}" by (simp add: STEP_BOUND_def)
  have fin: "\<forall>t\<in>List.set ?ts. finished (pcs t)"
    using finished_in_time [OF run] count [of _ STEP_BOUND] unfolding ts by (metis order_refl)
  have keys: "inj_on (\<lambda>t. op_key (?ops t)) (List.set ?ts)" unfolding ts by (simp add: inj_on_def)
  have stored: "\<forall>t\<in>List.set ?ts. performs (?reqs t) (?ops t) \<and> at_stored_key ?a (?ops t)"
    unfolding ts using hashes by (auto simp: at_stored_key_def alone_def e)
  from different_keys_in_any_order [OF wf keys stored run fin, of "[1, 0]"] run show ?thesis
    unfolding ts e by auto
qed

end
