(* ===== verification/Flushing.thy ===== *)
theory Flushing
  imports Contention
begin

text \<open>
  FLUSHALL among other threads.  \<open>flush_all\<close> of \<open>src/hashmap.rs\<close> is taken apart into its stores, and
  any number of threads run any of the four operations on one arena.  Whatever they do, no slot
  index and no recorded length leaves its bounds; but a flush that meets a deletion or an insertion
  leaves a wrong counter or a lost key behind.
\<close>

section \<open>FLUSHALL in steps\<close>

datatype flush_pc =
    FlushState nat | FlushFingerprint nat | FlushExpiry nat | FlushKeyLen nat | FlushValLen nat
  | FlushCount | FlushDone

definition flush_next :: "nat \<Rightarrow> flush_pc" where
  "flush_next i = (if i < SLOT_COUNT then FlushState i else FlushCount)"

fun flush_step :: "flush_pc \<times> arena \<Rightarrow> flush_pc \<times> arena" where
  "flush_step (FlushState i, a) = (FlushFingerprint i, slot_mut i (\<lambda>s. s\<lparr>state := STATE_EMPTY\<rparr>) a)"
| "flush_step (FlushFingerprint i, a) = (FlushExpiry i, slot_mut i (\<lambda>s. s\<lparr>fingerprint := 0\<rparr>) a)"
| "flush_step (FlushExpiry i, a) = (FlushKeyLen i, slot_mut i (\<lambda>s. s\<lparr>expires_at_ms := 0\<rparr>) a)"
| "flush_step (FlushKeyLen i, a) = (FlushValLen i, slot_mut i (\<lambda>s. s\<lparr>key_len := 0\<rparr>) a)"
| "flush_step (FlushValLen i, a) = (flush_next (Suc i), slot_mut i (\<lambda>s. s\<lparr>val_len := 0\<rparr>) a)"
| "flush_step (FlushCount, a) = (FlushDone, a\<lparr>header := (header a)\<lparr>used_count := 0\<rparr>\<rparr>)"
| "flush_step (FlushDone, a) = (FlushDone, a)"

section \<open>Threads with any of the four operations\<close>

datatype thread_op = OnKey operation | Flushing

datatype thread_at = AtKey place | AtFlush flush_pc

fun thread_start :: "thread_op \<Rightarrow> thread_at" where
  "thread_start (OnKey oper) = AtKey (op_start oper)"
| "thread_start Flushing = AtFlush (flush_next 0)"

fun thread_step :: "thread_op \<Rightarrow> thread_at \<times> arena \<Rightarrow> thread_at \<times> arena" where
  "thread_step (OnKey oper) (AtKey p, a) = (case op_step oper (p, a) of (p', a') \<Rightarrow> (AtKey p', a'))"
| "thread_step Flushing (AtFlush pc, a) = (case flush_step (pc, a) of (pc', a') \<Rightarrow> (AtFlush pc', a'))"
| "thread_step _ x = x"

fun interleave :: "(nat \<Rightarrow> thread_op) \<Rightarrow> nat list \<Rightarrow> (nat \<Rightarrow> thread_at) \<times> arena \<Rightarrow> (nat \<Rightarrow> thread_at) \<times> arena" where
  "interleave ops [] (ps, a) = (ps, a)"
| "interleave ops (t # ts) (ps, a) =
    (case thread_step (ops t) (ps t, a) of (p, a') \<Rightarrow> interleave ops ts (ps(t := p), a'))"

lemma interleave_append: "interleave ops (ts @ us) x = interleave ops us (interleave ops ts x)"
  by (induction ops ts x rule: interleave.induct) (simp_all split: prod.split)

text \<open>A thread that runs alone for a while.\<close>

lemma interleave_alone:
  "interleave ops (replicate n t) (ps, a) =
    (ps(t := fst ((thread_step (ops t) ^^ n) (ps t, a))), snd ((thread_step (ops t) ^^ n) (ps t, a)))"
proof (induction n arbitrary: ps a)
  case (Suc n)
  obtain p b where step: "thread_step (ops t) (ps t, a) = (p, b)" by fastforce
  show ?case
    using Suc.IH [of "ps(t := p)" b] by (simp add: funpow_Suc_right step fun_upd_def del: funpow.simps(2) cong: if_cong)
qed simp

lemma interleave_reaches:
  assumes "reaches (thread_step (ops t)) (ps t, a) (p, b)"
  shows "\<exists>n. interleave ops (replicate n t) (ps, a) = (ps(t := p), b)"
  using assms unfolding reaches_def by (metis interleave_alone fst_conv snd_conv)

lemma interleave_invariant:
  assumes "\<And>ps b t p b'. Q (ps, b) \<Longrightarrow> thread_step (ops t) (ps t, b) = (p, b') \<Longrightarrow> Q (ps(t := p), b')"
    and "Q x"
  shows "Q (interleave ops ts x)"
  using assms(2)
proof (induction ts arbitrary: x)
  case Nil
  then show ?case by (cases x) simp
next
  case (Cons t ts)
  obtain ps b where x: "x = (ps, b)" by fastforce
  obtain p b' where step: "thread_step (ops t) (ps t, b) = (p, b')" by fastforce
  have "Q (ps(t := p), b')" using assms(1) Cons.prems step by (simp add: x)
  from Cons.IH [OF this] show ?case by (simp add: x step)
qed

section \<open>The steps are the operation\<close>

lemma flush_slot_stores:
  "flush_slot = (\<lambda>s. s\<lparr>state := STATE_EMPTY\<rparr>\<lparr>fingerprint := 0\<rparr>\<lparr>expires_at_ms := 0\<rparr>\<lparr>key_len := 0\<rparr>\<lparr>val_len := 0\<rparr>)"
  by (simp add: flush_slot_def fun_eq_iff)

lemma flush_slot_reaches:
  "reaches flush_step (FlushState i, a) (flush_next (Suc i), slot_mut i flush_slot a)"
  unfolding reaches_def
  by (rule exI [of _ "Suc (Suc (Suc (Suc (Suc 0))))"]) (simp add: slot_mut_slot_mut flush_slot_stores)

lemma reaches_trans: "reaches f x y \<Longrightarrow> reaches f y z \<Longrightarrow> reaches f x z"
  unfolding reaches_def by (metis funpow_add add.commute o_apply)

lemma flush_slots_reaches:
  "reaches flush_step (flush_next i, a) (FlushCount, fold (\<lambda>i. slot_mut i flush_slot) [i..<SLOT_COUNT] a)"
proof (induction "SLOT_COUNT - i" arbitrary: i a)
  case 0
  then show ?case by (simp add: flush_next_def reaches_refl)
next
  case (Suc n)
  then have i: "i < SLOT_COUNT" "flush_next i = FlushState i" "[i..<SLOT_COUNT] = i # [Suc i..<SLOT_COUNT]"
    by (simp_all add: flush_next_def upt_conv_Cons)
  from Suc.hyps have "reaches flush_step (flush_next (Suc i), slot_mut i flush_slot a)
      (FlushCount, fold (\<lambda>i. slot_mut i flush_slot) [Suc i..<SLOT_COUNT] (slot_mut i flush_slot a))"
    by simp
  from reaches_trans [OF flush_slot_reaches this] show ?case by (simp add: i)
qed

lemma flush_reaches: "reaches flush_step (flush_next 0, a) (FlushDone, flush_all a)"
  by (rule reaches_trans [OF flush_slots_reaches reaches_one]) (simp add: flush_all_def Let_def)

lemma thread_reaches_flush:
  "reaches (thread_step Flushing) (AtFlush (flush_next 0), a) (AtFlush FlushDone, flush_all a)"
  using reaches_map [OF flush_reaches [of a], of "thread_step Flushing" "\<lambda>(pc, b). (AtFlush pc, b)"]
  by (simp add: case_prod_beta)

lemma thread_reaches_key:
  "reaches (op_step oper) (p, a) (p', b) \<Longrightarrow> reaches (thread_step (OnKey oper)) (AtKey p, a) (AtKey p', b)"
  using reaches_map [of "op_step oper" "(p, a)" "(p', b)" "thread_step (OnKey oper)" "\<lambda>(p, b). (AtKey p, b)"]
  by (simp add: case_prod_beta)

section \<open>Bounds under every interleaving\<close>

text \<open>The slot that the next step of a thread reads or writes.\<close>

fun set_accesses :: "u64 \<Rightarrow> set_pc \<Rightarrow> nat option" where
  "set_accesses h (LoadState i ft) = Some (probe h i)"
| "set_accesses h (LoadFingerprint i ft) = Some (probe h i)"
| "set_accesses h (TestExpiry i ft) = Some (probe h i)"
| "set_accesses h (CompareKey i ft) = Some (probe h i)"
| "set_accesses h (UpdateValBuf t) = Some t"
| "set_accesses h (UpdateValLen t) = Some t"
| "set_accesses h (UpdateExpiry t) = Some t"
| "set_accesses h (ClaimKeyBuf t n) = Some t"
| "set_accesses h (ClaimKeyLen t n) = Some t"
| "set_accesses h (ClaimValBuf t n) = Some t"
| "set_accesses h (ClaimValLen t n) = Some t"
| "set_accesses h (ClaimFingerprint t n) = Some t"
| "set_accesses h (ClaimExpiry t n) = Some t"
| "set_accesses h (ClaimState t n) = Some t"
| "set_accesses h AddUsed = None"
| "set_accesses h (Done r) = None"

fun get_accesses :: "u64 \<Rightarrow> get_pc \<Rightarrow> nat option" where
  "get_accesses h (GetState i) = Some (probe h i)"
| "get_accesses h (GetFingerprint i) = Some (probe h i)"
| "get_accesses h (GetExpiry i) = Some (probe h i)"
| "get_accesses h (GetEvict i) = Some (probe h i)"
| "get_accesses h (GetKey i) = Some (probe h i)"
| "get_accesses h (GetValue i) = Some (probe h i)"
| "get_accesses h (GetDone r) = None"

fun del_accesses :: "u64 \<Rightarrow> del_pc \<Rightarrow> nat option" where
  "del_accesses h (DelState i) = Some (probe h i)"
| "del_accesses h (DelFingerprint i) = Some (probe h i)"
| "del_accesses h (DelKey i) = Some (probe h i)"
| "del_accesses h (DelSwap i) = Some (probe h i)"
| "del_accesses h DelCount = None"
| "del_accesses h (DelDone r) = None"

fun flush_accesses :: "flush_pc \<Rightarrow> nat option" where
  "flush_accesses (FlushState i) = Some i"
| "flush_accesses (FlushFingerprint i) = Some i"
| "flush_accesses (FlushExpiry i) = Some i"
| "flush_accesses (FlushKeyLen i) = Some i"
| "flush_accesses (FlushValLen i) = Some i"
| "flush_accesses FlushCount = None"
| "flush_accesses FlushDone = None"

fun accesses :: "thread_op \<Rightarrow> thread_at \<Rightarrow> nat option" where
  "accesses (OnKey (Setting c)) (AtKey (AtSet pc)) = set_accesses (call_hash c) pc"
| "accesses (OnKey (Getting now key)) (AtKey (AtGet pc)) = get_accesses (siphash key) pc"
| "accesses (OnKey (Deleting key)) (AtKey (AtDel pc)) = del_accesses (siphash key) pc"
| "accesses Flushing (AtFlush pc) = flush_accesses pc"
| "accesses _ _ = None"

text \<open>
  \<open>accesses\<close> tells the truth: a step changes no other slot, and what it does to its own place and to
  the slot depends on no other.
\<close>

lemma slot_header: "slot (b\<lparr>header := h\<rparr>) i = slot b i"
  by (simp add: slot_def)

lemma op_step_elsewhere:
  assumes "accesses (OnKey oper) (AtKey p) \<noteq> Some i"
  shows "slot (snd (op_step oper (p, b))) i = slot b i"
proof (cases "(oper, (p, b))" rule: op_step.cases)
  case (1 c pc b')
  with assms show ?thesis by (cases pc) (auto simp: Let_def arena_simps)
next
  case (2 now key pc b')
  with assms show ?thesis by (cases pc) (auto simp: Let_def arena_simps)
next
  case (3 key pc b')
  with assms show ?thesis by (cases pc) (auto simp: Let_def arena_simps)
qed simp_all

lemma step_elsewhere:
  assumes "accesses oper p \<noteq> Some i"
  shows "slot (snd (thread_step oper (p, b))) i = slot b i"
proof (cases "(oper, (p, b))" rule: thread_step.cases)
  case (1 kop q b')
  with assms op_step_elsewhere [of kop q i b] show ?thesis by (simp add: case_prod_beta)
next
  case (2 pc b')
  with assms show ?thesis by (cases pc) (auto simp: arena_simps slot_header)
qed simp_all

lemma op_step_looks:
  assumes "\<And>i. accesses (OnKey oper) (AtKey p) = Some i \<Longrightarrow> slot b' i = slot b i"
  shows "fst (op_step oper (p, b')) = fst (op_step oper (p, b))"
proof (cases "(oper, (p, b))" rule: op_step.cases)
  case (1 c pc d)
  with assms show ?thesis by (cases pc) (simp_all add: Let_def)
next
  case (2 now key pc d)
  with assms show ?thesis by (cases pc) (simp_all add: Let_def)
next
  case (3 key pc d)
  with assms show ?thesis by (cases pc) (simp_all add: Let_def)
qed simp_all

lemma step_looks:
  assumes "\<And>i. accesses oper p = Some i \<Longrightarrow> slot b' i = slot b i"
  shows "fst (thread_step oper (p, b')) = fst (thread_step oper (p, b))"
proof (cases "(oper, (p, b))" rule: thread_step.cases)
  case (1 kop q d)
  with assms op_step_looks [of kop q b' b] show ?thesis by (simp add: case_prod_beta)
next
  case (2 pc d)
  then show ?thesis by (cases pc) simp_all
qed simp_all

text \<open>The slot that a SET remembers as the first tombstone.\<close>

fun set_remembers :: "set_pc \<Rightarrow> nat option" where
  "set_remembers (LoadState i ft) = ft"
| "set_remembers (LoadFingerprint i ft) = ft"
| "set_remembers (TestExpiry i ft) = ft"
| "set_remembers (CompareKey i ft) = ft"
| "set_remembers _ = None"

definition in_array :: "nat option \<Rightarrow> bool" where
  "in_array x = (case x of None \<Rightarrow> True | Some i \<Rightarrow> i < SLOT_COUNT)"

lemma in_array_simps [simp]: "in_array None" "in_array (Some i) \<longleftrightarrow> i < SLOT_COUNT"
  by (simp_all add: in_array_def)

fun remembers :: "thread_at \<Rightarrow> nat option" where
  "remembers (AtKey (AtSet pc)) = set_remembers pc"
| "remembers _ = None"

text \<open>The value a thread hands out.\<close>

fun value_out :: "thread_at \<Rightarrow> bytes" where
  "value_out (AtKey (AtGet (GetDone (Found v)))) = v"
| "value_out _ = []"

text \<open>
  What every step keeps of the region: slots whose recorded lengths fit the buffers and whose state
  is one of the three, and everything that is neither a slot nor the counter.
\<close>

definition sound_slot :: "slot \<Rightarrow> bool" where
  "sound_slot s \<longleftrightarrow> slot_wf s \<and> state s \<in> {STATE_EMPTY, STATE_OCCUPIED, STATE_TOMBSTONE}"

definition region_kept :: "arena \<Rightarrow> arena \<Rightarrow> bool" where
  "region_kept a b \<longleftrightarrow> (\<forall>i<SLOT_COUNT. sound_slot (slot b i)) \<and> (\<forall>i\<ge>SLOT_COUNT. slot b i = slot a i) \<and>
    magic (header b) = magic (header a) \<and> version (header b) = version (header a) \<and>
    slot_count (header b) = slot_count (header a)"

definition thread_bounded :: "thread_op \<Rightarrow> thread_at \<Rightarrow> bool" where
  "thread_bounded oper p \<longleftrightarrow> in_array (accesses oper p) \<and> in_array (remembers p) \<and> length (value_out p) \<le> MAX_VAL_LEN"

lemma region_kept_slot_mut:
  assumes "region_kept a b" "i < SLOT_COUNT" "\<And>s. sound_slot s \<Longrightarrow> sound_slot (f s)"
  shows "region_kept a (slot_mut i f b)"
  using assms by (simp add: region_kept_def arena_simps)

lemma region_kept_count: "region_kept a b \<Longrightarrow> region_kept a (b\<lparr>header := (header b)\<lparr>used_count := n\<rparr>\<rparr>)"
  by (simp add: region_kept_def slot_header)

lemma region_kept_add_used: "region_kept a b \<Longrightarrow> region_kept a (add_used n b)"
  unfolding add_used_def by (rule region_kept_count)

lemma region_kept_slot: "region_kept a b \<Longrightarrow> i < SLOT_COUNT \<Longrightarrow> sound_slot (slot b i)"
  by (simp add: region_kept_def)

lemma sound_slot_stores [simp]:
  "sound_slot s \<Longrightarrow> sound_slot (store_key_buf key s)" "sound_slot s \<Longrightarrow> sound_slot (store_key_len key s)"
  "sound_slot s \<Longrightarrow> sound_slot (store_val_buf val s)" "sound_slot s \<Longrightarrow> sound_slot (store_val_len val s)"
  "sound_slot s \<Longrightarrow> sound_slot (s\<lparr>fingerprint := h\<rparr>)" "sound_slot s \<Longrightarrow> sound_slot (s\<lparr>expires_at_ms := e\<rparr>)"
  "sound_slot s \<Longrightarrow> sound_slot (s\<lparr>key_len := 0\<rparr>)" "sound_slot s \<Longrightarrow> sound_slot (s\<lparr>val_len := 0\<rparr>)"
  "sound_slot s \<Longrightarrow> st \<in> {STATE_EMPTY, STATE_OCCUPIED, STATE_TOMBSTONE} \<Longrightarrow> sound_slot (s\<lparr>state := st\<rparr>)"
  by (auto simp: sound_slot_def slot_wf_def store_key_buf_def store_key_len_def store_val_buf_def store_val_len_def
      min_of_nat_u64 MAX_KEY_LEN_def MAX_VAL_LEN_def)

lemma sound_slot_swap [simp]:
  "sound_slot s \<Longrightarrow> sound_slot (fst (compare_exchange_state STATE_OCCUPIED STATE_TOMBSTONE s))"
  "sound_slot s \<Longrightarrow> sound_slot (fst (lazy_evict_if_expired now s))"
  by (simp_all add: compare_exchange_state_def lazy_evict_if_expired_def)

lemma length_read_value: "sound_slot s \<Longrightarrow> length (read_value s) \<le> MAX_VAL_LEN"
  by (simp add: sound_slot_def slot_wf_def read_value_def)

lemma in_array_next [simp]:
  "in_array (set_accesses h (next_probe i ft)) \<longleftrightarrow> i < SLOT_COUNT \<or> in_array ft"
  "in_array (set_remembers (next_probe i ft)) \<longleftrightarrow> SLOT_COUNT \<le> i \<or> in_array ft"
  "in_array (get_accesses h (get_next i))" "in_array (del_accesses h (del_next i))" "in_array (flush_accesses (flush_next i))"
  by (auto simp: next_probe_def get_next_def del_next_def flush_next_def split: option.split)

lemma in_array_first_some [simp]: "in_array ft \<Longrightarrow> i < SLOT_COUNT \<Longrightarrow> in_array (first_some ft i)"
  by (cases ft) (simp_all add: first_some_def)

text \<open>Every step of every operation, one lemma for each.\<close>

lemma set_step_bounded:
  assumes "region_kept a b" "in_array (set_accesses (call_hash c) pc)" "in_array (set_remembers pc)"
  shows "region_kept a (snd (set_step c (pc, b)))"
    "in_array (set_accesses (call_hash c) (fst (set_step c (pc, b))))" "in_array (set_remembers (fst (set_step c (pc, b))))"
  using assms
  by (cases pc; auto simp: Let_def intro!: region_kept_slot_mut region_kept_add_used split: option.split)+

lemma get_step_bounded:
  assumes "region_kept a b"
  shows "region_kept a (snd (get_step now key (pc, b)))" "in_array (get_accesses (siphash key) (fst (get_step now key (pc, b))))"
  using assms
  by (cases pc; auto simp: Let_def intro!: region_kept_slot_mut)+

lemma del_step_bounded:
  assumes "region_kept a b"
  shows "region_kept a (snd (del_step key (pc, b)))" "in_array (del_accesses (siphash key) (fst (del_step key (pc, b))))"
  using assms
  by (cases pc; auto simp: Let_def intro!: region_kept_slot_mut region_kept_add_used)+

lemma flush_step_bounded:
  assumes "region_kept a b" "in_array (flush_accesses pc)"
  shows "region_kept a (snd (flush_step (pc, b)))" "in_array (flush_accesses (fst (flush_step (pc, b))))"
  using assms
  by (cases pc; auto intro!: region_kept_slot_mut region_kept_count)+

lemma get_step_value:
  assumes "region_kept a b" "length (value_out (AtKey (AtGet pc))) \<le> MAX_VAL_LEN"
  shows "length (value_out (AtKey (AtGet (fst (get_step now key (pc, b)))))) \<le> MAX_VAL_LEN"
  using assms
  by (cases pc) (auto simp: Let_def get_next_def region_kept_slot length_read_value)

lemma op_step_bounded:
  assumes "region_kept a b" "thread_bounded (OnKey oper) (AtKey p)"
  shows "region_kept a (snd (op_step oper (p, b)))" "thread_bounded (OnKey oper) (AtKey (fst (op_step oper (p, b))))"
proof -
  have "region_kept a (snd (op_step oper (p, b))) \<and> thread_bounded (OnKey oper) (AtKey (fst (op_step oper (p, b))))"
  proof (cases "(oper, (p, b))" rule: op_step.cases)
    case (1 c pc b')
    with assms set_step_bounded [of a b c pc] show ?thesis
      by (simp add: thread_bounded_def case_prod_beta)
  next
    case (2 now key pc b')
    with assms get_step_bounded [where a = a and b = b and now = now and key = key and pc = pc] get_step_value [where a = a and b = b and now = now and key = key and pc = pc] show ?thesis
      by (simp add: thread_bounded_def case_prod_beta)
  next
    case (3 key pc b')
    with assms del_step_bounded [where a = a and b = b and key = key and pc = pc] show ?thesis
      by (simp add: thread_bounded_def case_prod_beta)
  qed (use assms in simp_all)
  then show "region_kept a (snd (op_step oper (p, b)))" "thread_bounded (OnKey oper) (AtKey (fst (op_step oper (p, b))))"
    by simp_all
qed

lemma thread_step_bounded:
  assumes "region_kept a b" "thread_bounded oper p" "thread_step oper (p, b) = (p', b')"
  shows "region_kept a b' \<and> thread_bounded oper p'"
  using assms
proof (cases "(oper, (p, b))" rule: thread_step.cases)
  case (1 kop q c)
  with assms op_step_bounded [of a b kop q] show ?thesis by (auto simp: case_prod_beta)
next
  case (2 pc c)
  with assms flush_step_bounded [of a b pc] show ?thesis by (auto simp: thread_bounded_def case_prod_beta)
qed auto

lemma thread_start_bounded: "thread_bounded oper (thread_start oper)"
proof (cases oper)
  case (OnKey kop)
  then show ?thesis by (cases kop) (auto simp: thread_bounded_def set_start_def get_next_def split: option.split)
qed (simp add: thread_bounded_def)

definition all_bounded :: "(nat \<Rightarrow> thread_op) \<Rightarrow> arena \<Rightarrow> (nat \<Rightarrow> thread_at) \<times> arena \<Rightarrow> bool" where
  "all_bounded ops a x \<longleftrightarrow> region_kept a (snd x) \<and> (\<forall>t. thread_bounded (ops t) (fst x t))"

lemma all_bounded_run:
  assumes "\<forall>i<SLOT_COUNT. sound_slot (slot a i)"
  shows "all_bounded ops a (interleave ops ts (\<lambda>t. thread_start (ops t), a))"
proof (rule interleave_invariant)
  fix ps b t p b'
  assume "all_bounded ops a (ps, b)" "thread_step (ops t) (ps t, b) = (p, b')"
  then show "all_bounded ops a (ps(t := p), b')"
    using thread_step_bounded [of a b "ops t" "ps t" p b'] by (auto simp: all_bounded_def)
qed (use assms in \<open>simp add: all_bounded_def region_kept_def thread_start_bounded\<close>)

text \<open>
  C11: no interleaving leaves the bounds.  Any number of threads run GET, SET, DEL and FLUSHALL in any
  interleaving of their loads and stores, torn entries included: the slot that a thread is about to
  read or write is one of the array, a value handed out has at most 1024 bytes, the recorded lengths
  of every slot fit its buffers, so that no slice of a buffer panics, every state is one of the
  three, and nothing outside the slots and the counter is written.
\<close>

theorem threads_stay_in_bounds:
  assumes "\<forall>i<SLOT_COUNT. sound_slot (slot a i)"
    and "interleave ops ts (\<lambda>t. thread_start (ops t), a) = (ps, b)"
  shows "in_array (accesses (ops t) (ps t)) \<and> length (value_out (ps t)) \<le> MAX_VAL_LEN \<and>
    (\<forall>i<SLOT_COUNT. sound_slot (slot b i)) \<and> (\<forall>i\<ge>SLOT_COUNT. slot b i = slot a i) \<and>
    magic (header b) = magic (header a) \<and> version (header b) = version (header a) \<and>
    slot_count (header b) = slot_count (header a)"
  using all_bounded_run [OF assms(1), of ops ts] assms(2)
  by (simp add: all_bounded_def region_kept_def thread_bounded_def)

text \<open>A SET, a GET and a FLUSHALL in turns on a fresh arena.\<close>

definition one_of_each :: "nat \<Rightarrow> thread_op" where
  "one_of_each = (\<lambda>_. OnKey (Deleting [1]))(0 := OnKey (Setting (call_of 5 [1] [2] 0)), 1 := OnKey (Getting 6 [1]), 2 := Flushing)"

theorem threads_stay_in_bounds_witness:
  "length (value_out (fst (interleave one_of_each (concat (replicate 9 [0, 1, 2, 3]))
    (\<lambda>t. thread_start (one_of_each t), fresh_arena blank_arena)) 1)) \<le> MAX_VAL_LEN"
proof -
  have "\<forall>i<SLOT_COUNT. sound_slot (slot (fresh_arena blank_arena) i)"
    by (simp add: sound_slot_def wf_slot [OF wf_fresh_blank] arena_simps)
  from threads_stay_in_bounds [OF this prod.collapse [symmetric]] show ?thesis by blast
qed

section \<open>FLUSHALL beside a DEL\<close>

lemma deleted_counts_last:
  "(del_step key ^^ n) (pc, a) = (DelDone Deleted, b) \<Longrightarrow> pc \<noteq> DelDone Deleted \<Longrightarrow>
   \<exists>m c. (del_step key ^^ m) (pc, a) = (DelCount, c)"
proof (induction n arbitrary: b)
  case (Suc n)
  obtain pc' c where before: "(del_step key ^^ n) (pc, a) = (pc', c)" by fastforce
  with Suc.prems(1) have "del_step key (pc', c) = (DelDone Deleted, b)" by simp
  then have "pc' = DelCount \<or> pc' = DelDone Deleted"
    by (cases pc') (auto simp: Let_def del_next_def split: if_splits)
  with before Suc.IH Suc.prems(2) show ?case by blast
qed simp

lemma del_reaches_count:
  assumes "snd (hashmap_del key a) = Deleted"
  shows "\<exists>c. reaches (op_step (Deleting key)) (op_start (Deleting key), a) (AtDel DelCount, c)"
proof -
  obtain n b where "(del_step key ^^ n) (del_next 0, a) = (DelDone Deleted, b)"
    using del_reaches [of key 0 a] assms by (auto simp: reaches_def hashmap_del_def case_prod_beta)
  from deleted_counts_last [OF this] obtain c where "reaches (del_step key) (del_next 0, a) (DelCount, c)"
    by (auto simp: reaches_def del_next_def)
  from reaches_map [OF this, of "op_step (Deleting key)" "\<lambda>(pc, b). (AtDel pc, b)"] show ?thesis
    by (auto simp: case_prod_beta)
qed

definition key_and_flush :: "operation \<Rightarrow> nat \<Rightarrow> thread_op" where
  "key_and_flush oper = (\<lambda>_. Flushing)(0 := OnKey oper)"

lemma key_and_flush_simps [simp]:
  "key_and_flush oper 0 = OnKey oper" "key_and_flush oper (Suc 0) = Flushing" "key_and_flush oper 1 = Flushing"
  by (simp_all add: key_and_flush_def)

text \<open>Thread 0 runs to a place of its own, then thread 1 flushes the arena from beginning to end.\<close>

lemma flush_in_between:
  assumes "reaches (op_step oper) (op_start oper, a) (p, c)"
  shows "\<exists>ts ps. interleave (key_and_flush oper) ts (\<lambda>t. thread_start (key_and_flush oper t), a) = (ps, flush_all c) \<and>
    ps 0 = AtKey p \<and> ps 1 = AtFlush FlushDone"
proof -
  let ?ops = "key_and_flush oper" and ?ps = "\<lambda>t. thread_start (key_and_flush oper t)"
  obtain n where n: "interleave ?ops (replicate n 0) (?ps, a) = (?ps(0 := AtKey p), c)"
    using interleave_reaches [of ?ops 0 ?ps a "AtKey p" c] thread_reaches_key [OF assms] by auto
  obtain m where "interleave ?ops (replicate m 1) (?ps(0 := AtKey p), c) = (?ps(0 := AtKey p, 1 := AtFlush FlushDone), flush_all c)"
    using interleave_reaches [of ?ops 1 "?ps(0 := AtKey p)" c "AtFlush FlushDone" "flush_all c"] thread_reaches_flush [of c]
    by auto
  with n have "interleave ?ops (replicate n 0 @ replicate m 1) (?ps, a) = (?ps(0 := AtKey p, 1 := AtFlush FlushDone), flush_all c)"
    by (simp add: interleave_append)
  then show ?thesis by fastforce
qed

text \<open>
  The counter of a flushed arena can be the largest u64.  A DEL takes its entry; before it decrements
  the counter a FLUSHALL empties all slots and stores 0; the decrement then wraps.  The cache is
  empty and reports 18446744073709551615 keys, until the next flush.
\<close>

theorem flush_beside_del_wraps_counter:
  assumes "snd (hashmap_del key a) = Deleted"
  shows "\<exists>ts ps b. interleave (key_and_flush (Deleting key)) ts
      (\<lambda>t. thread_start (key_and_flush (Deleting key) t), a) = (ps, b) \<and>
    ps 0 = AtKey (AtDel (DelDone Deleted)) \<and> ps 1 = AtFlush FlushDone \<and>
    (\<forall>i<SLOT_COUNT. state (slot b i) = STATE_EMPTY) \<and> hashmap_used_count b = 18446744073709551615"
proof -
  obtain c where "reaches (op_step (Deleting key)) (op_start (Deleting key), a) (AtDel DelCount, c)"
    using del_reaches_count [OF assms] by blast
  from flush_in_between [OF this] obtain ts ps where
    run: "interleave (key_and_flush (Deleting key)) ts (\<lambda>t. thread_start (key_and_flush (Deleting key) t), a) = (ps, flush_all c)"
    and at: "ps 0 = AtKey (AtDel DelCount)" "ps 1 = AtFlush FlushDone" by blast
  have "interleave (key_and_flush (Deleting key)) (ts @ [0]) (\<lambda>t. thread_start (key_and_flush (Deleting key) t), a) =
      (ps(0 := AtKey (AtDel (DelDone Deleted))), add_used (- 1) (flush_all c))"
    by (simp add: interleave_append run at)
  moreover have "hashmap_used_count (add_used (- 1) (flush_all c)) = 18446744073709551615"
    by (simp add: hashmap_used_count_def add_used_def flush_all_def Let_def)
  moreover have "\<forall>i<SLOT_COUNT. state (slot (add_used (- 1) (flush_all c)) i) = STATE_EMPTY"
    by (simp add: arena_simps slot_simps)
  ultimately show ?thesis
    by (intro exI [of _ "ts @ [0]"] exI [of _ "ps(0 := AtKey (AtDel (DelDone Deleted)))"]
        exI [of _ "add_used (- 1) (flush_all c)"]) (simp add: at [unfolded One_nat_def])
qed

theorem flush_beside_del_wraps_counter_witness:
  "\<exists>ts ps b. interleave (key_and_flush (Deleting [1])) ts
      (\<lambda>t. thread_start (key_and_flush (Deleting [1]) t), fst (hashmap_set 5 [1] [2] 0 (fresh_arena blank_arena))) = (ps, b) \<and>
    hashmap_used_count b = 18446744073709551615"
proof -
  let ?a = "fst (hashmap_set 5 [1] [2] 0 (fresh_arena blank_arena))"
  have "del_hits (siphash [1]) [1] (slot ?a (probe (siphash [1]) 0))"
    by (simp add: set_fresh del_hits_def arena_simps slot_simps MAX_KEY_LEN_def)
  then have "snd (hashmap_del [1] ?a) = Deleted"
    by (simp add: hashmap_del_def del_loop_hit)
  from flush_beside_del_wraps_counter [OF this] show ?thesis by blast
qed

section \<open>FLUSHALL beside a SET\<close>

text \<open>A SET that has chosen the second slot of its chain, because another key is in the first.\<close>

lemma set_reaches_second_slot:
  assumes "state (slot a (probe (siphash k) 0)) = STATE_OCCUPIED" "fingerprint (slot a (probe (siphash k) 0)) \<noteq> siphash k"
    and "state (slot a (probe (siphash k) 1)) = STATE_EMPTY"
  shows "reaches (op_step (Setting (call_of now k v 0))) (op_start (Setting (call_of now k v 0)), a)
    (AtSet (ClaimKeyBuf (probe (siphash k) 1) True), a)"
  unfolding reaches_def
  by (rule exI [of _ "Suc (Suc (Suc 0))"])
    (use assms one_lt_SLOT_COUNT in \<open>simp add: set_start_def next_probe_def call_of_def call_hash_def Let_def\<close>)

lemma claim_reaches:
  "reaches (op_step (Setting c)) (AtSet (ClaimKeyBuf t True), a) (AtSet (Done Inserted), add_used 1
    (slot_mut t (claim_slot (call_hash c) (call_key c) (call_val c) (call_expiry c)) a))"
proof -
  have "reaches (set_step c) (ClaimKeyBuf t True, a) (Done Inserted, add_used 1
      (slot_mut t (claim_slot (call_hash c) (call_key c) (call_val c) (call_expiry c)) a))"
    using leads_claim_empty by (simp add: leads_def reaches_def)
  from reaches_map [OF this, of "op_step (Setting c)" "\<lambda>(pc, b). (AtSet pc, b)"] show ?thesis
    by (simp add: case_prod_beta)
qed

text \<open>
  C26: a key that was flushed comes back.  A SET has chosen its slot behind that of another key when a
  FLUSHALL empties the arena from end to end; then it fills its slot.  A GET does not find the key,
  as its first slot is empty; the slot and the counter stay taken.  After a SET of any key with the
  same first slot, the GET answers the old value, with no SET of its key in between.
\<close>

theorem flushed_key_reappears:
  fixes k x v w :: bytes and now t :: u64
  assumes "state (slot a (probe (siphash k) 0)) = STATE_OCCUPIED" "fingerprint (slot a (probe (siphash k) 0)) \<noteq> siphash k"
    and "state (slot a (probe (siphash k) 1)) = STATE_EMPTY" "length k \<le> MAX_KEY_LEN" "length v \<le> MAX_VAL_LEN"
    and "probe_start (siphash x) = probe_start (siphash k)" "siphash x \<noteq> siphash k"
  defines "ops \<equiv> key_and_flush (Setting (call_of now k v 0))"
  shows "\<exists>ts ps b. interleave ops ts (\<lambda>t. thread_start (ops t), a) = (ps, b) \<and>
    ps 0 = AtKey (AtSet (Done Inserted)) \<and> ps 1 = AtFlush FlushDone \<and> hashmap_used_count b = 1 \<and>
    snd (hashmap_get t k b) = NotFound \<and> snd (hashmap_del k b) = DelNotFound \<and>
    snd (hashmap_get t k (fst (hashmap_set t x w 0 b))) = Found v"
proof -
  let ?t = "probe (siphash k) 1"
  define b where "b = add_used 1 (slot_mut ?t (claim_slot (siphash k) k v 0) (flush_all a))"
  from flush_in_between [OF set_reaches_second_slot [OF assms(1-3), of now v], folded ops_def]
  obtain ts ps where run: "interleave ops ts (\<lambda>t. thread_start (ops t), a) = (ps, flush_all a)"
    and at: "ps 0 = AtKey (AtSet (ClaimKeyBuf ?t True))" "ps 1 = AtFlush FlushDone" by blast
  have "reaches (thread_step (ops 0)) (ps 0, flush_all a) (AtKey (AtSet (Done Inserted)), b)"
    using thread_reaches_key [OF claim_reaches [of "call_of now k v 0" ?t "flush_all a"]]
    by (simp add: ops_def at b_def call_of_def call_hash_def ttl_to_expiry_def)
  then obtain n where "interleave ops (replicate n 0) (ps, flush_all a) = (ps(0 := AtKey (AtSet (Done Inserted))), b)"
    using interleave_reaches by blast
  then have run: "interleave ops (ts @ replicate n 0) (\<lambda>t. thread_start (ops t), a) = (ps(0 := AtKey (AtSet (Done Inserted))), b)"
    by (simp add: interleave_append run)
  have home: "state (slot b (probe (siphash k) 0)) = STATE_EMPTY"
    using probe_0_1 [of "siphash k"] by (simp add: b_def arena_simps slot_simps)
  have "hashmap_used_count b = 1"
    by (simp add: b_def hashmap_used_count_def add_used_def flush_all_def Let_def arena_simps)
  moreover have "snd (hashmap_get t k b) = NotFound" "snd (hashmap_del k b) = DelNotFound"
    using home by (simp_all add: hashmap_get_def hashmap_del_def get_loop_empty del_loop_empty)
  moreover have "snd (hashmap_get t k (fst (hashmap_set t x w 0 b))) = Found v"
  proof -
    define d where "d = add_used 1 (slot_mut (probe (siphash k) 0) (claim_slot (siphash x) x w (ttl_to_expiry t 0)) b)"
    have x: "probe (siphash x) 0 = probe (siphash k) 0" using assms(6) by (simp add: probe_def)
    then have "fst (hashmap_set t x w 0 b) = d"
      using home by (simp add: hashmap_set_def set_loop_empty d_def)
    moreover have "get_passes t (siphash k) k (slot d (probe (siphash k) 0))"
      using assms(7) by (simp add: d_def get_passes_def arena_simps slot_simps)
    moreover have "get_loop t (siphash k) k 1 d = (d, Found v)"
      using probe_0_1 [of "siphash k"] one_lt_SLOT_COUNT assms(4,5)
      by (subst get_loop_found) (simp_all add: d_def b_def arena_simps slot_simps is_expired_def)
    ultimately show ?thesis by (simp add: hashmap_get_def get_loop_pass)
  qed
  ultimately show ?thesis
    using run at by (intro exI [of _ "ts @ replicate n 0"] exI [of _ "ps(0 := AtKey (AtSet (Done Inserted)))"] exI [of _ b]) simp
qed

theorem flushed_key_reappears_witness:
  "\<exists>ts ps b. interleave (key_and_flush (Setting (call_of 6 [0, 118] [2] 0))) ts
      (\<lambda>t. thread_start (key_and_flush (Setting (call_of 6 [0, 118] [2] 0)) t),
       fst (hashmap_set 5 [0, 111] [1] 0 (fresh_arena blank_arena))) = (ps, b) \<and>
    snd (hashmap_get 9 [0, 118] b) = NotFound \<and>
    snd (hashmap_get 9 [0, 118] (fst (hashmap_set 9 [0, 111] [3] 0 b))) = Found [2]"
proof -
  let ?a = "fst (hashmap_set 5 [0, 111] [1] 0 (fresh_arena blank_arena))"
  have same: "probe_start (siphash [0, 111]) = probe_start (siphash [0, 118])"
    by (simp add: siphash_pair probe_start_mod SLOT_COUNT_def)
  then have "probe (siphash [0, 118]) i = probe (siphash [0, 111]) i" for i by (simp add: probe_def)
  moreover have "siphash [0, 111] \<noteq> siphash [0, 118]" by (simp add: siphash_pair)
  ultimately show ?thesis
    using flushed_key_reappears [of ?a "[0, 118]" "[2]" "[0, 111]" 6 9 "[3]"] same probe_0_1 [of "siphash [0, 111]"]
    by (fastforce simp: set_fresh arena_simps slot_simps MAX_KEY_LEN_def MAX_VAL_LEN_def)
qed

section \<open>FLUSHALL beside GETs\<close>

lemma get_runs:
  "reaches (op_step (Getting now key)) (op_start (Getting now key), a)
    (AtGet (GetDone (snd (hashmap_get now key a))), fst (hashmap_get now key a))"
  using reaches_map [OF get_reaches [of now key 0 a], of "op_step (Getting now key)" "\<lambda>(pc, b). (AtGet pc, b)"]
  by (simp add: hashmap_get_def case_prod_beta)

text \<open>A slot of which some fields have been cleared, and an arena of such slots.\<close>

definition fading :: "slot \<Rightarrow> slot \<Rightarrow> bool" where
  "fading s s' \<longleftrightarrow> (state s' = state s \<or> state s' = STATE_EMPTY) \<and> (fingerprint s' = fingerprint s \<or> fingerprint s' = 0) \<and>
    (expires_at_ms s' = expires_at_ms s \<or> expires_at_ms s' = 0) \<and> (key_len s' = key_len s \<or> key_len s' = 0) \<and>
    (val_len s' = val_len s \<or> val_len s' = 0) \<and> key_buf s' = key_buf s \<and> val_buf s' = val_buf s"

definition all_fading :: "arena \<Rightarrow> arena \<Rightarrow> bool" where
  "all_fading a b \<longleftrightarrow> (\<forall>i. fading (slot a i) (slot b i))"

lemma all_fading_refl [simp]: "all_fading a a"
  by (simp add: all_fading_def fading_def)

lemma fading_slot: "all_fading a b \<Longrightarrow> fading (slot a i) (slot b i)"
  by (simp add: all_fading_def)

lemma fading_read_key: "fading s s' \<Longrightarrow> read_key s' = read_key s \<or> read_key s' = []"
  by (auto simp: fading_def read_key_def Let_def)

lemma fading_read_value: "fading s s' \<Longrightarrow> read_value s' = read_value s \<or> read_value s' = []"
  by (auto simp: fading_def read_value_def Let_def)

lemma fading_live: "fading s s' \<Longrightarrow> \<not> is_expired now s \<Longrightarrow> \<not> is_expired now s'"
  by (auto simp: fading_def is_expired_iff)

lemma all_fading_slot_mut:
  assumes "all_fading a b" "\<And>s s'. fading s s' \<Longrightarrow> fading s (f s')"
  shows "all_fading a (slot_mut i f b)"
  using assms by (simp add: all_fading_def arena_simps)

lemma fading_clears:
  assumes "fading s s'"
  shows "fading s (s'\<lparr>state := STATE_EMPTY\<rparr>)" "fading s (s'\<lparr>fingerprint := 0\<rparr>)" "fading s (s'\<lparr>expires_at_ms := 0\<rparr>)"
    "fading s (s'\<lparr>key_len := 0\<rparr>)" "fading s (s'\<lparr>val_len := 0\<rparr>)"
  using assms by (simp_all add: fading_def)

lemma all_fading_header: "all_fading a (b\<lparr>header := h\<rparr>) = all_fading a b"
  by (simp add: all_fading_def slot_header)

lemma flush_step_fading: "all_fading a b \<Longrightarrow> all_fading a (snd (flush_step (pc, b)))"
  by (cases pc) (auto intro!: all_fading_slot_mut fading_clears simp: all_fading_header)

text \<open>
  A GET of a key that arena \<open>a\<close> holds with value \<open>v\<close>: what it has seen of a slot was true of \<open>a\<close>, and
  its answer is one of three.
\<close>

definition flush_answers :: "bytes \<Rightarrow> get_result set" where
  "flush_answers v = {Found v, Found [], NotFound}"

fun reads_fading :: "arena \<Rightarrow> bytes \<Rightarrow> bytes \<Rightarrow> get_pc \<Rightarrow> bool" where
  "reads_fading a key v (GetState i) \<longleftrightarrow> True"
| "reads_fading a key v (GetFingerprint i) \<longleftrightarrow> state (slot a (probe (siphash key) i)) = STATE_OCCUPIED"
| "reads_fading a key v (GetExpiry i) \<longleftrightarrow> holds a (probe (siphash key) i) key"
| "reads_fading a key v (GetEvict i) \<longleftrightarrow> False"
| "reads_fading a key v (GetKey i) \<longleftrightarrow> holds a (probe (siphash key) i) key"
| "reads_fading a key v (GetValue i) \<longleftrightarrow> holds a (probe (siphash key) i) key"
| "reads_fading a key v (GetDone r) \<longleftrightarrow> r \<in> flush_answers v"

lemma reads_fading_next [simp]: "reads_fading a key v (get_next i)"
  by (simp add: get_next_def flush_answers_def)

text \<open>The arena before the flush: the key is there, has not expired, and its hash is its own.\<close>

definition stored_alone :: "u64 \<Rightarrow> bytes \<Rightarrow> bytes \<Rightarrow> arena \<Rightarrow> bool" where
  "stored_alone now key v a \<longleftrightarrow> arena_wf a \<and> alone key a \<and> siphash key \<noteq> 0 \<and>
    (\<exists>e. entry a key = Some (v, e) \<and> \<not> expired_at now e)"

lemma stored_alone_slot:
  assumes "stored_alone now key v a" "holds a i key"
  shows "read_value (slot a i) = v" "\<not> is_expired now (slot a i)"
  using assms entry_holds [of a i key] by (auto simp: stored_alone_def is_expired_iff)

lemma stored_alone_holds:
  assumes "stored_alone now key v a" "i < SLOT_COUNT" "state (slot a i) = STATE_OCCUPIED" "fingerprint (slot a i) = siphash key"
  shows "holds a i key"
proof -
  let ?k = "read_key (slot a i)"
  have wf: "arena_wf a" "alone key a" using assms(1) by (simp_all add: stored_alone_def)
  have held: "holds a i ?k" using assms(2,3) by (simp add: holds_def)
  then have "siphash ?k = siphash key" using wf_fingerprint [OF wf(1) held] assms(4) by simp
  moreover have "?k \<in> dom (entry a)" using entry_holds [OF wf(1) held] by auto
  ultimately have "?k = key" using wf(2) by (simp add: alone_def)
  with held show ?thesis by simp
qed

lemma get_step_fading:
  assumes stored: "stored_alone now key v a" and fade: "all_fading a b" and pc: "reads_fading a key v pc"
  shows "snd (get_step now key (pc, b)) = b \<and> reads_fading a key v (fst (get_step now key (pc, b)))"
proof (cases pc)
  case (GetState i)
  then show ?thesis using fading_slot [OF fade, of "probe (siphash key) i"]
    by (auto simp: Let_def fading_def flush_answers_def)
next
  case (GetFingerprint i)
  have "siphash key \<noteq> 0" using stored by (simp add: stored_alone_def)
  then show ?thesis
    using pc GetFingerprint fading_slot [OF fade, of "probe (siphash key) i"] stored_alone_holds [OF stored, of "probe (siphash key) i"]
    by (auto simp: fading_def)
next
  case (GetExpiry i)
  then show ?thesis
    using pc fading_live [OF fading_slot [OF fade]] stored_alone_slot(2) [OF stored] by simp
next
  case (GetValue i)
  then show ?thesis
    using pc fading_read_value [OF fading_slot [OF fade], of "probe (siphash key) i"] stored_alone_slot(1) [OF stored]
    by (auto simp: flush_answers_def)
qed (use pc in simp_all)

text \<open>Threads of which each reads the key or flushes the arena.\<close>

definition readers_and_flushers :: "u64 \<Rightarrow> bytes \<Rightarrow> nat set \<Rightarrow> nat \<Rightarrow> thread_op" where
  "readers_and_flushers now key R t = (if t \<in> R then OnKey (Getting now key) else Flushing)"

definition fading_run :: "arena \<Rightarrow> bytes \<Rightarrow> bytes \<Rightarrow> nat set \<Rightarrow> (nat \<Rightarrow> thread_at) \<times> arena \<Rightarrow> bool" where
  "fading_run a key v R x \<longleftrightarrow> all_fading a (snd x) \<and>
    (\<forall>t\<in>R. \<exists>pc. fst x t = AtKey (AtGet pc) \<and> reads_fading a key v pc) \<and> (\<forall>t. t \<notin> R \<longrightarrow> (\<exists>pc. fst x t = AtFlush pc))"

lemma fading_run_step:
  assumes "stored_alone now key v a" "fading_run a key v R (ps, b)"
    and "thread_step (readers_and_flushers now key R t) (ps t, b) = (p, b')"
  shows "fading_run a key v R (ps(t := p), b')"
proof (cases "t \<in> R")
  case True
  with assms(2) obtain pc where "ps t = AtKey (AtGet pc)" "reads_fading a key v pc" "all_fading a b"
    by (auto simp: fading_run_def)
  with get_step_fading [OF assms(1) this(3,2)] assms(2,3) True show ?thesis
    by (auto simp: fading_run_def readers_and_flushers_def case_prod_beta)
next
  case False
  with assms(2) obtain pc where "ps t = AtFlush pc" "all_fading a b" by (auto simp: fading_run_def)
  with flush_step_fading [OF this(2), of pc] assms(2,3) False show ?thesis
    by (auto simp: fading_run_def readers_and_flushers_def case_prod_beta)
qed

lemma fading_run_all:
  assumes "stored_alone now key v a"
  shows "fading_run a key v R (interleave (readers_and_flushers now key R) ts
    (\<lambda>t. thread_start (readers_and_flushers now key R t), a))"
proof (rule interleave_invariant)
  show "fading_run a key v R (\<lambda>t. thread_start (readers_and_flushers now key R t), a)"
    by (simp add: fading_run_def readers_and_flushers_def)
qed (rule fading_run_step [OF assms])

text \<open>
  A GET can answer an empty value that nobody stored.  It has compared the key when a FLUSHALL clears the
  slot, the length of the value included; then it copies no bytes and reports that it found them.
\<close>

lemma found_reads_last:
  "(get_step now key ^^ n) (pc, a) = (GetDone (Found v), b) \<Longrightarrow> \<forall>r. pc \<noteq> GetDone r \<Longrightarrow>
   \<exists>m i c. (get_step now key ^^ m) (pc, a) = (GetValue i, c)"
proof (induction n arbitrary: b)
  case (Suc n)
  obtain pc' c where before: "(get_step now key ^^ n) (pc, a) = (pc', c)" by fastforce
  with Suc.prems(1) have "get_step now key (pc', c) = (GetDone (Found v), b)" by simp
  then have "(\<exists>i. pc' = GetValue i) \<or> pc' = GetDone (Found v)"
    by (cases pc') (auto simp: Let_def get_next_def split: if_splits)
  with before Suc.IH Suc.prems(2) show ?case by blast
qed simp

theorem get_beside_flush_reads_nothing:
  assumes "snd (hashmap_get now key a) = Found v"
  shows "\<exists>ts ps b. interleave (key_and_flush (Getting now key)) ts
      (\<lambda>t. thread_start (key_and_flush (Getting now key) t), a) = (ps, b) \<and>
    ps 0 = AtKey (AtGet (GetDone (Found []))) \<and> ps 1 = AtFlush FlushDone"
proof -
  let ?ops = "key_and_flush (Getting now key)"
  have first: "get_next 0 = GetState 0" by (simp add: get_next_def)
  obtain n b where "(get_step now key ^^ n) (get_next 0, a) = (GetDone (Found v), b)"
    using get_reaches [of now key 0 a] assms by (auto simp: reaches_def hashmap_get_def case_prod_beta)
  from found_reads_last [OF this] obtain i c where "reaches (get_step now key) (get_next 0, a) (GetValue i, c)"
    by (auto simp: reaches_def first)
  from reaches_map [OF this, of "op_step (Getting now key)" "\<lambda>(pc, b). (AtGet pc, b)"]
  have "reaches (op_step (Getting now key)) (op_start (Getting now key), a) (AtGet (GetValue i), c)"
    by (simp add: case_prod_beta)
  from flush_in_between [OF this] obtain ts ps where
    run: "interleave ?ops ts (\<lambda>t. thread_start (?ops t), a) = (ps, flush_all c)"
    and at: "ps 0 = AtKey (AtGet (GetValue i))" "ps 1 = AtFlush FlushDone" by blast
  have "interleave ?ops (ts @ [0]) (\<lambda>t. thread_start (?ops t), a) = (ps(0 := AtKey (AtGet (GetDone (Found [])))), flush_all c)"
    by (simp add: interleave_append run at arena_simps slot_simps)
  then show ?thesis
    by (intro exI [of _ "ts @ [0]"] exI [of _ "ps(0 := AtKey (AtGet (GetDone (Found []))))"] exI [of _ "flush_all c"])
      (simp add: at [unfolded One_nat_def])
qed

theorem get_beside_flush_reads_nothing_witness:
  "\<exists>ts. fst (interleave (key_and_flush (Getting 6 [1])) ts
      (\<lambda>t. thread_start (key_and_flush (Getting 6 [1]) t), fst (hashmap_set 5 [1] [2] 0 (fresh_arena blank_arena)))) 0 =
    AtKey (AtGet (GetDone (Found [])))"
proof -
  let ?a = "fst (hashmap_set 5 [1] [2] 0 (fresh_arena blank_arena))"
  have "snd (hashmap_get 6 [1] ?a) = Found [2]"
    by (simp add: hashmap_get_def get_loop_found set_fresh arena_simps slot_simps MAX_KEY_LEN_def MAX_VAL_LEN_def is_expired_def)
  from get_beside_flush_reads_nothing [OF this] obtain ts ps b where
    "interleave (key_and_flush (Getting 6 [1])) ts (\<lambda>t. thread_start (key_and_flush (Getting 6 [1]) t), ?a) = (ps, b)"
    "ps 0 = AtKey (AtGet (GetDone (Found [])))" by blast
  then show ?thesis by (intro exI [of _ ts]) simp
qed

text \<open>
  C12: what a GET beside FLUSHALLs can answer.  Any number of threads read a key that the arena holds,
  any others flush the arena: every GET that returns answers the value as it was stored, an empty
  value, or that there is no such key; it never answers a part of the value, another key's value, or
  that the key has expired.
\<close>

theorem get_beside_flushes:
  assumes "stored_alone now key v a"
    and "interleave (readers_and_flushers now key R) ts (\<lambda>t. thread_start (readers_and_flushers now key R t), a) = (ps, b)"
    and "ps t = AtKey (AtGet (GetDone r))"
  shows "r \<in> {Found v, Found [], NotFound}"
proof -
  have run: "fading_run a key v R (ps, b)" using fading_run_all [OF assms(1), of R ts] assms(2) by simp
  then have "t \<in> R" using assms(3) unfolding fading_run_def by fastforce
  with run assms(3) show ?thesis by (fastforce simp: fading_run_def flush_answers_def)
qed

theorem get_beside_flushes_witness:
  "\<exists>ts r. fst (interleave (readers_and_flushers 6 [1] {0}) ts (\<lambda>t. thread_start (readers_and_flushers 6 [1] {0} t),
      fst (hashmap_set 5 [1] [2] 0 (fresh_arena blank_arena)))) 0 = AtKey (AtGet (GetDone r)) \<and>
    r \<in> {Found [2], Found [], NotFound}"
proof -
  let ?a = "fst (hashmap_set 5 [1] [2] 0 (fresh_arena blank_arena))"
  have get: "snd (hashmap_get 6 [1] ?a) = Found [2]"
    by (simp add: hashmap_get_def get_loop_found set_fresh arena_simps slot_simps MAX_KEY_LEN_def MAX_VAL_LEN_def is_expired_def)
  have ops: "readers_and_flushers 6 [1] {0} = key_and_flush (Getting 6 [1])"
    by (simp add: fun_eq_iff readers_and_flushers_def key_and_flush_def)
  have "reaches (thread_step (readers_and_flushers 6 [1] {0} 0)) (thread_start (readers_and_flushers 6 [1] {0} 0), ?a)
      (AtKey (AtGet (GetDone (Found [2]))), fst (hashmap_get 6 [1] ?a))"
    using thread_reaches_key [OF get_runs [of 6 "[1]" ?a]] get by (simp add: ops)
  from interleave_reaches [where ops = "readers_and_flushers 6 [1] {0}" and t = 0
      and ps = "\<lambda>t. thread_start (readers_and_flushers 6 [1] {0} t)", OF this]
  obtain n where n: "interleave (readers_and_flushers 6 [1] {0}) (replicate n 0) (\<lambda>t. thread_start (readers_and_flushers 6 [1] {0} t), ?a) =
      ((\<lambda>t. thread_start (readers_and_flushers 6 [1] {0} t))(0 := AtKey (AtGet (GetDone (Found [2])))), fst (hashmap_get 6 [1] ?a))"
    by blast
  have "arena_wf ?a" by (intro wf_hashmap_set wf_fresh_blank) (simp add: MAX_KEY_LEN_def)
  moreover have "entry ?a k = (if k = [1] then Some ([2], 0) else None)" for k
    using entry_set_fresh [of "[1]" 5 "[2]" 0] by (simp add: MAX_KEY_LEN_def MAX_VAL_LEN_def ttl_to_expiry_def)
  moreover have "siphash [1] \<noteq> 0" by (simp add: siphash_eval)
  ultimately have "stored_alone 6 [1] [2] ?a" by (auto simp: stored_alone_def alone_def split: if_splits)
  from get_beside_flushes [OF this n, of 0 "Found [2]"] n show ?thesis
    by (intro exI [of _ "replicate n 0"] exI [of _ "Found [2]"]) simp
qed

end
