(* ===== verification/Utf8.thy ===== *)
theory Utf8
  imports Replies
begin

text \<open>
  Strings are UTF-8.  The model keeps a Rust \<open>String\<close> as the list of its bytes, so that Rust's guarantee
  about its content has to be shown: validity of the pieces of a string, of lossy decoding and of the
  case conversions, and from these of every string that the parser and the dispatcher of
  \<open>src/server/\<close> make from the bytes of a client, whatever they are.
\<close>

section \<open>Characters and what follows them\<close>

lemma byte_at_append: "byte_at (xs @ ys) n = (if n < length xs then byte_at xs n else byte_at ys (n - length xs))"
  by (induction xs n rule: byte_at.induct) auto

lemma byte_at_beyond: "length xs \<le> n \<Longrightarrow> byte_at xs n = 0"
  by (induction xs n rule: byte_at.induct) auto

lemma byte_at_take: "n < m \<Longrightarrow> byte_at (take m xs) n = byte_at xs n"
proof (induction xs n arbitrary: m rule: byte_at.induct)
  case (3 b bs n)
  then show ?case by (cases m) auto
qed (auto simp: take_Cons split: nat.split)

lemma zero_no_continuation [simp]: "\<not> is_cont 0" "\<not> second_ok b 0"
  by (simp_all add: is_cont_def second_ok_def between_def)

text \<open>A character that starts a string is a prefix of it, and starts every string with that prefix.\<close>

lemma utf8_step_bytes:
  assumes "utf8_step bs = (True, n)" "\<forall>i<n. byte_at cs i = byte_at bs i"
  shows "utf8_step cs = (True, n)"
  using assms by (auto simp: utf8_step_def Let_def split: if_splits)

lemma utf8_step_length:
  assumes "utf8_step bs = (True, n)" "bs \<noteq> []"
  shows "n \<le> length bs"
proof (rule ccontr)
  assume "\<not> n \<le> length bs"
  moreover have "1 \<le> length bs" using assms(2) by (cases bs) simp_all
  moreover have "byte_at bs (n - 1) \<noteq> 0" if "1 < n"
    using assms(1) that by (auto simp: utf8_step_def Let_def split: if_splits)
  ultimately show False using byte_at_beyond [of bs "n - 1"] by (cases "1 < n") (fastforce, linarith)
qed

lemma utf8_step_prefix:
  assumes "utf8_step bs = (True, n)" "bs \<noteq> []"
  shows "utf8_step (take n bs @ ys) = (True, n)"
  using utf8_step_length [OF assms]
  by (intro utf8_step_bytes [OF assms(1)]) (simp add: byte_at_append byte_at_take min_def)

lemma valid_utf8_char_append:
  assumes "utf8_step bs = (True, n)" "bs \<noteq> []"
  shows "valid_utf8 (take n bs @ ys) = valid_utf8 ys"
proof -
  have "0 < n" using utf8_step_pos [of bs] assms(1) by simp
  then have "take n bs @ ys \<noteq> []" using assms(2) by simp
  then show ?thesis
    using utf8_step_prefix [OF assms, of ys] utf8_step_length [OF assms]
    by (subst valid_utf8.simps) simp
qed

lemma valid_utf8_cases:
  assumes "valid_utf8 s" "s \<noteq> []"
  obtains n where "utf8_step s = (True, n)" "valid_utf8 (drop n s)"
  using assms valid_utf8.simps [of s] by (cases "utf8_step s") simp

lemma valid_utf8_append: "valid_utf8 xs \<Longrightarrow> valid_utf8 (xs @ ys) = valid_utf8 ys"
proof (induction xs rule: valid_utf8.induct)
  case (1 xs)
  show ?case
  proof (cases "xs = []")
    case False
    obtain n where step: "utf8_step xs = (True, n)" "valid_utf8 (drop n xs)"
      using 1(2) False by (rule valid_utf8_cases)
    with 1(1) [OF False] have "valid_utf8 (drop n xs @ ys) = valid_utf8 ys" by simp
    moreover have "xs @ ys = take n xs @ (drop n xs @ ys)" by simp
    ultimately show ?thesis using valid_utf8_char_append [OF step(1) False] by metis
  qed simp
qed

lemma valid_utf8_concat: "\<forall>x\<in>List.set xs. valid_utf8 x \<Longrightarrow> valid_utf8 (concat xs)"
  by (induction xs) (simp_all add: valid_utf8_append)

section \<open>Lossy decoding and case conversion\<close>

lemma valid_replacement: "valid_utf8 replacement_char"
proof -
  have "byte_at replacement_char 2 = 0xBD" by (simp add: replacement_char_def numeral_2_eq_2)
  then have "utf8_step replacement_char = (True, 3)"
    by (simp add: utf8_step_def replacement_char_def between_def second_ok_def is_cont_def)
  then show ?thesis by (subst valid_utf8.simps) (simp add: replacement_char_def)
qed

lemma valid_from_utf8_lossy: "valid_utf8 (from_utf8_lossy bs)"
proof (induction bs rule: from_utf8_lossy.induct)
  case (1 bs)
  show ?case
  proof (cases "bs = []")
    case False
    obtain b n where step: "utf8_step bs = (b, n)" by fastforce
    have "valid_utf8 (from_utf8_lossy (drop n bs))" using 1 [OF False] step by simp
    with False step show ?thesis
      using valid_utf8_char_append [of bs n] valid_utf8_append [OF valid_replacement]
      by (subst from_utf8_lossy.simps) simp
  qed simp
qed

lemma valid_chars: "valid_utf8 s \<Longrightarrow> c \<in> List.set (chars s) \<Longrightarrow> valid_utf8 c"
proof (induction s rule: chars.induct)
  case (1 s)
  show ?case
  proof (cases "s = []")
    case False
    obtain n where step: "utf8_step s = (True, n)" "valid_utf8 (drop n s)"
      using 1(2) False by (rule valid_utf8_cases)
    have "valid_utf8 (take n s)" using valid_utf8_char_append [OF step(1) False, of "[]"] by simp
    moreover have "c = take n s \<or> c \<in> List.set (chars (drop n s))"
      using 1(3) False step(1) by (simp add: chars.simps [of s])
    ultimately show ?thesis using 1(1) [OF False] step by auto
  qed (use 1 in simp)
qed

text \<open>What is asked of the Unicode tables of the standard library: they map strings to strings.\<close>

definition keeps_utf8 :: "(bytes \<Rightarrow> bytes) \<Rightarrow> bool" where
  "keeps_utf8 f \<longleftrightarrow> (\<forall>s. valid_utf8 s \<longrightarrow> valid_utf8 (f s))"

lemma valid_single: "valid_utf8 [b] \<Longrightarrow> b < 0x80"
  using valid_utf8.simps [of "[b]"] by (auto simp: utf8_step_def Let_def split: if_splits)

lemma upper_byte_ascii: "b < 0x80 \<Longrightarrow> upper_byte b < 0x80"
  by (simp add: upper_byte_def between_def) unat_arith

lemma lower_byte_ascii: "b < 0x80 \<Longrightarrow> lower_byte b < 0x80"
  by (simp add: lower_byte_def between_def) unat_arith

lemma valid_upper_char:
  assumes "keeps_utf8 uc" "valid_utf8 c"
  shows "valid_utf8 (upper_char uc c)"
proof (cases "\<exists>b. c = [b]")
  case True
  then show ?thesis using assms(2) valid_single upper_byte_ascii by (auto simp: upper_char_def)
next
  case False
  then have "upper_char uc c = uc c" by (auto simp: upper_char_def split: list.split)
  with assms show ?thesis by (simp add: keeps_utf8_def)
qed

lemma valid_to_uppercase: "keeps_utf8 uc \<Longrightarrow> valid_utf8 s \<Longrightarrow> valid_utf8 (to_uppercase uc s)"
  unfolding to_uppercase_def by (rule valid_utf8_concat) (auto intro: valid_upper_char valid_chars)

lemma valid_to_lowercase:
  assumes "keeps_utf8 lc" "valid_utf8 s"
  shows "valid_utf8 (to_lowercase lc s)"
proof (cases "\<forall>b\<in>List.set s. b < 0x80")
  case True
  then have "is_ascii (map lower_byte s)" by (auto simp: is_ascii_def lower_byte_ascii)
  with True show ?thesis by (simp add: to_lowercase_def is_ascii_valid)
next
  case False
  then have "to_lowercase lc s = lc s" by (auto simp: to_lowercase_def)
  with assms show ?thesis by (simp add: keeps_utf8_def)
qed

section \<open>Parsed values\<close>

text \<open>The strings in a value, those of its items included; bulk data are bytes.\<close>

fun strings_utf8 :: "resp_value \<Rightarrow> bool" where
  "strings_utf8 (SimpleString s) \<longleftrightarrow> valid_utf8 s"
| "strings_utf8 (ErrorV s) \<longleftrightarrow> valid_utf8 s"
| "strings_utf8 (Array vs) \<longleftrightarrow> list_all strings_utf8 vs"
| "strings_utf8 _ \<longleftrightarrow> True"

text \<open>The strings in the outcome of a parse: in its value, or its error as a reply shows it.\<close>

definition outcome_utf8 :: "parse_result \<Rightarrow> bool" where
  "outcome_utf8 r \<longleftrightarrow> (\<forall>v n. r = Ok (Some (v, n)) \<longrightarrow> strings_utf8 v) \<and> (\<forall>e. r = Err e \<longrightarrow> valid_utf8 (show_resp_error e))"

lemma outcome_utf8_simps [simp]:
  "outcome_utf8 (Ok None)" "outcome_utf8 Panic" "outcome_utf8 (Ok (Some (v, n))) \<longleftrightarrow> strings_utf8 v"
  "outcome_utf8 (Err e) \<longleftrightarrow> valid_utf8 (show_resp_error e)"
  by (simp_all add: outcome_utf8_def)

lemma parse_line_utf8:
  "parse_line buf = Ok (line, n) \<Longrightarrow> valid_utf8 line"
  "parse_line buf = Err e \<Longrightarrow> valid_utf8 (show_resp_error e)"
  by (auto simp: parse_line_def show_resp_error_def ascii_def split: option.splits if_splits)

lemma shown_protocol [simp]: "valid_utf8 (show_resp_error (Protocol m)) \<longleftrightarrow> valid_utf8 m"
  by (simp add: show_resp_error_def ascii_def)

lemma flat_utf8:
  "outcome_utf8 (parse_simple_string buf)" "outcome_utf8 (parse_error buf)"
  "outcome_utf8 (parse_integer buf)" "outcome_utf8 (parse_bulk_string buf)"
  by (auto simp: parse_simple_string_def parse_error_def parse_integer_def parse_bulk_string_def Let_def
      ascii_def dest: parse_line_utf8 split: rresult.split resp_error.split option.split)

lemma hex_digit_ascii: "d < 16 \<Longrightarrow> hex_digit d < 0x80"
  by (simp add: hex_digit_def) unat_arith

lemma hex_byte_ascii: "is_ascii (hex_byte b)"
proof -
  have "unat b < 256" using unsigned_less [of b] by simp
  then have "b div 16 < 16" by (simp add: word_less_nat_alt unat_div less_mult_imp_div_less)
  moreover have "b mod 16 < 16" by (simp add: word_less_nat_alt unat_mod)
  ultimately show ?thesis by (simp add: hex_byte_def hex_digit_ascii)
qed

lemma parse_utf8:
  "outcome_utf8 (parse al buf)"
  "outcome_utf8 (parse_array al buf)"
  "list_all strings_utf8 items \<Longrightarrow> outcome_utf8 (parse_items al n items offset buf)"
proof (induction al buf and al buf and al n items offset buf rule: parse_parse_array_parse_items.induct)
  case (1 al buf)
  then show ?case
    by (subst parse.simps) (auto simp: flat_utf8 ascii_def is_ascii_valid hex_byte_ascii split: list.split)
next
  case (2 al buf)
  then show ?case
    by (subst parse_array.simps)
      (auto simp: ascii_def dest: parse_line_utf8 split: rresult.split resp_error.split option.split)
next
  case (3 al items offset buf)
  then show ?case by (simp add: parse_items.simps)
next
  case (4 al n items offset buf)
  then show ?case
    by (subst parse_items.simps) (auto split: rresult.split option.split)
qed

section \<open>Replies\<close>

lemma valid_client_error: "operation_error e \<Longrightarrow> valid_utf8 (show_client_error e)"
  by (cases e) (simp_all add: operation_error_def show_client_error_def ascii_def em_dash_def is_ascii_valid)

lemma strings_err [simp]: "strings_utf8 (err m) \<longleftrightarrow> valid_utf8 m"
  by (simp add: err_def ascii_def)

lemma strings_wrong_args:
  assumes "keeps_utf8 lc" "valid_utf8 c"
  shows "strings_utf8 (wrong_args lc c)"
  using valid_to_lowercase [OF assms] by (simp add: wrong_args_def ascii_def valid_utf8_append)

lemma strings_unknown:
  assumes "keeps_utf8 lc" "valid_utf8 c"
  shows "strings_utf8 (unknown_command lc c)"
  using valid_to_lowercase [OF assms] by (simp add: unknown_command_def ascii_def valid_utf8_append)

lemma strings_reply:
  assumes "(\<exists>x. r = Ok x) \<or> (\<exists>e. r = Err e \<and> operation_error e)" "\<And>x. strings_utf8 (f x)"
  shows "strings_utf8 (reply_or_err f r)"
  using assms by (auto simp: reply_or_err_def valid_client_error)

lemma strings_flat [simp]: "strings_utf8 ok" "strings_utf8 pong" "strings_utf8 nil" "strings_utf8 (integer n)" "strings_utf8 (bulk b)"
  by (simp_all add: ok_def pong_def nil_def integer_def bulk_def ascii_def is_ascii_valid)

lemma strings_optional [simp]: "strings_utf8 (case v of Some v \<Rightarrow> bulk v | None \<Rightarrow> nil)"
  by (simp split: option.split)

lemma valid_ascii_name [simp]: "is_ascii (ascii s) \<Longrightarrow> valid_utf8 (ascii s)"
  by (rule is_ascii_valid)

text \<open>The operations the dispatcher calls answer a value or an error of a connected client.\<close>

lemma answers:
  assumes "arena_wf a"
  shows "(\<exists>x. snd (client_get now key a) = Ok x) \<or> (\<exists>e. snd (client_get now key a) = Err e \<and> operation_error e)"
    "(\<exists>x. snd (client_mget clk ks a) = Ok x) \<or> (\<exists>e. snd (client_mget clk ks a) = Err e \<and> operation_error e)"
    "(\<exists>x. snd (client_mset clk ps ttl a) = Ok x) \<or> (\<exists>e. snd (client_mset clk ps ttl a) = Err e \<and> operation_error e)"
    "(\<exists>x. snd (client_incr now1 now2 key a) = Ok x) \<or> (\<exists>e. snd (client_incr now1 now2 key a) = Err e \<and> operation_error e)"
    "(\<exists>x. snd (client_decr now1 now2 key a) = Ok x) \<or> (\<exists>e. snd (client_decr now1 now2 key a) = Err e \<and> operation_error e)"
    "(\<exists>x. snd (client_flush a) = Ok x) \<or> (\<exists>e. snd (client_flush a) = Err e \<and> operation_error e)"
proof -
  show "(\<exists>x. snd (client_get now key a) = Ok x) \<or> (\<exists>e. snd (client_get now key a) = Err e \<and> operation_error e)"
    using client_get_safe(2) [OF assms, of now key] by blast
  show "(\<exists>x. snd (client_mget clk ks a) = Ok x) \<or> (\<exists>e. snd (client_mget clk ks a) = Err e \<and> operation_error e)"
    using client_mget_safe [OF assms, of clk ks] by blast
  show "(\<exists>x. snd (client_mset clk ps ttl a) = Ok x) \<or> (\<exists>e. snd (client_mset clk ps ttl a) = Err e \<and> operation_error e)"
    using mset_loop_safe [OF assms, of clk ps ttl 0] unfolding client_mset_def by blast
  show "(\<exists>x. snd (client_incr now1 now2 key a) = Ok x) \<or> (\<exists>e. snd (client_incr now1 now2 key a) = Err e \<and> operation_error e)"
    "(\<exists>x. snd (client_decr now1 now2 key a) = Ok x) \<or> (\<exists>e. snd (client_decr now1 now2 key a) = Err e \<and> operation_error e)"
    unfolding incr_store_number decr_store_number using store_number_safe [OF assms, of _ now1 now2 key] by blast+
qed (simp add: client_flush_def)

lemma dispatch_utf8:
  assumes "keeps_utf8 lc" "arena_wf a" "valid_utf8 (name cmd)"
  shows "strings_utf8 (snd (dispatch uc lc clk cmd a))"
  unfolding dispatch_def Let_def case_prod_beta
  using assms
  by (auto intro!: strings_reply strings_wrong_args strings_unknown answers client_set_safe(2) simp: list_all_iff is_ascii_valid ascii_def)

lemma bulk_args_error: "bulk_args items = Err e \<Longrightarrow> valid_utf8 e"
  by (induction items arbitrary: e rule: bulk_args.induct) (auto simp: ascii_def is_ascii_valid split: rresult.splits)

lemma extract_utf8:
  assumes "keeps_utf8 uc"
  shows "extract_command uc v = Ok cmd \<Longrightarrow> valid_utf8 (name cmd)" "extract_command uc v = Err e \<Longrightarrow> valid_utf8 e"
  using valid_to_uppercase [OF assms]
  by (auto simp: extract_command_def ascii_def is_ascii_valid dest: bulk_args_error
      split: resp_value.splits list.splits if_splits rresult.splits)

text \<open>
  C19: strings are UTF-8.  Whatever bytes a client sends: the simple strings and errors in a parsed value
  and the text of a protocol error, the simple strings and errors in the reply to a value, and the
  name under which a command is counted are valid UTF-8, as their Rust types promise, provided the
  Unicode case tables map strings to strings.
\<close>

theorem strings_are_utf8:
  assumes "keeps_utf8 uc" "keeps_utf8 lc" "arena_wf a"
  shows "outcome_utf8 (parse al buf) \<and> strings_utf8 (snd (dispatch_command uc lc clk v a)) \<and> valid_utf8 (command_name uc v)"
proof (intro conjI)
  show "outcome_utf8 (parse al buf)" by (rule parse_utf8)
  show "strings_utf8 (snd (dispatch_command uc lc clk v a))"
    using extract_utf8 [OF assms(1), of v] dispatch_utf8 [OF assms(2,3)]
    by (cases "extract_command uc v") (simp_all add: dispatch_command_def)
  show "valid_utf8 (command_name uc v)"
    using valid_to_uppercase [OF assms(1) valid_from_utf8_lossy]
    by (simp add: command_name_def ascii_def is_ascii_valid split: resp_value.split list.split)
qed

text \<open>A name that is no UTF-8 is refused and counted with the replacement character.\<close>

theorem strings_are_utf8_witness:
  "strings_utf8 (snd (dispatch_command id id (\<lambda>_. 9) (Array [BulkString [0xC3, 0x28]]) (fresh_arena blank_arena))) \<and>
   valid_utf8 (command_name id (Array [BulkString [0xC3, 0x28]]))"
  using strings_are_utf8 [of id id "fresh_arena blank_arena" "\<lambda>_. True" "[]" "\<lambda>_. 9" "Array [BulkString [0xC3, 0x28]]"]
  by (simp only: wf_fresh_blank keeps_utf8_def id_apply simp_thms)

end
