(* ===== verification/Spec2Isabelle.thy ===== *)
theory Spec2Isabelle
  imports Benchmarks Ffi Serial Linearize Percentiles Independence Flushing Utf8
begin

text \<open>
  MemLane: a key-value cache in a named shared-memory region, used directly by Rust and C programs
  and, through a server that speaks the Redis protocol, by any Redis client.

  \<^bold>\<open>The program.\<close>  A region of one header page and 65536 fixed-size slots (\<open>src/shm.rs\<close>,
  \<open>src/slot.rs\<close>) holds an open-addressing hash map with linear probing and tombstones
  (\<open>src/hashmap.rs\<close>); entries carry an absolute expiry that is looked at when they are met
  (\<open>src/ttl.rs\<close>).  The client (\<open>src/client.rs\<close>) checks sizes and adds batch operations and counters;
  the C interface (\<open>src/lib.rs\<close>) wraps the client behind pointers.  The server
  (\<open>src/server/mod.rs\<close>) parses RESP frames (\<open>src/server/resp.rs\<close>) from each connection, dispatches
  them to the client and reports every command to the metrics bridge
  (\<open>src/server/ws_bridge.rs\<close>), which aggregates one-second windows for a dashboard.

  \<^bold>\<open>The theories\<close>, each importing the components it calls:
  \<^item> \<open>Memlane_Prelude\<close>: machine integers, byte strings, slices, the result type with its panic.
  \<^item> \<open>Slot\<close>, \<open>Ttl\<close>, \<open>Shm\<close>: records for \<open>Slot\<close>, \<open>ArenaHeader\<close> and \<open>Arena\<close> with their operations; layout
    of the \<open>repr(C)\<close> structures; \<open>create_arena\<close>, \<open>open_arena\<close> and \<open>Drop\<close> with their system calls, their
    variants for Windows, and the lines that \<open>build.rs\<close> prints.
  \<^item> \<open>SipHash\<close>: the hash on 64-bit words; equal to reference SipHash-1-3.
  \<^item> \<open>Hashmap\<close>: \<open>get\<close>, \<open>set\<close>, \<open>del\<close>, \<open>exists\<close>, \<open>flush_all\<close> as recursive loops over the slot array.
  \<^item> \<open>ArenaInv\<close>: the invariant \<open>arena_wf\<close> (fingerprints, unbroken probe chains, no duplicate key) and the
    map \<open>entry\<close> an arena stands for; the effect of the elementary changes of a slot on both.
  \<^item> \<open>KvStore\<close>: the contract of a store as the locale \<open>kv_store\<close>, its specification as a step relation
    on finite maps, and what follows from the laws: refinement of operation sequences, read your
    writes.  \<open>HashmapProofs\<close> analyses the loops; \<open>Store\<close> interprets the locale with the hash map.
  \<^item> \<open>RustStr\<close>: UTF-8 validation and lossy decoding, ASCII case conversion, decimal printing and
    parsing, with the locale \<open>decimal\<close> of number formats interpreted for \<open>u64\<close> and \<open>i64\<close>.
    \<open>F64\<close>: the floating-point operations behind the fill ratio and the percentiles.
  \<^item> \<open>Client\<close>: the client's operations and errors; their effect on the abstract map (\<open>client_ok\<close>,
    \<open>has_room\<close>); counters, batches.
  \<^item> \<open>Resp\<close>: parser, encoder, command extraction; the locale \<open>framing\<close> of what a connection needs of a
    wire format, interpreted with \<open>parse\<close> and the encoding.
  \<^item> \<open>WsBridge\<close>: aggregation of a window and the bounded channel with its consumer as a step relation.
    \<open>Dashboard\<close>: the aggregator task, the accept loop of \<open>run_ws_server\<close> and \<open>handle_ws_client\<close>, over
    the values that \<open>select!\<close> delivers and the outcomes of the sends.  \<open>Percentiles\<close>: the indices computed
    in floating point are the exact nearest ranks.
  \<^item> \<open>Server\<close>: the dispatcher and the loop of a connection over the reads it makes.  \<open>Replies\<close>: the kind
    of reply each command has (the relation \<open>reply_typed\<close>) and the reply stream as the client parses it.
    \<open>Utf8\<close>: every string made from a client's bytes is valid UTF-8.
  \<^item> \<open>Connections\<close>: \<open>run_server\<close>: \<open>handle_client\<close> taken apart at its \<open>await\<close>s into a task (\<open>task_step\<close>),
    and the accept loop with any number of tasks on one arena (\<open>server_step\<close>).  The locale \<open>ladder\<close> states
    what makes a task reach a goal within its own turns while others run; it is interpreted for
    coming back to the socket and for answering every request.
  \<^item> \<open>System\<close>: \<open>start_all\<close>: the server and the bridge composed; its steps are turns of the server,
    receptions of the aggregator and ticks.
  \<^item> \<open>KeySpace\<close>: clients whose keys are known.  The locale \<open>key_space\<close> states when no SET can fail (fewer
    keys than slots) and what holds of entries that never expire; \<open>script\<close> adds keys without
    collisions, on which every operation of the client is the operation of a map.
  \<^item> \<open>Commands\<close>: what the commands mean: a request is a \<open>call\<close> with an \<open>effect\<close> and an \<open>answer\<close> on a finite
    map; the dispatcher refines these.  \<open>Serial\<close>: the log of the frames a run of the server executed;
    the run equals the sequential execution of its log, and so a run of the abstract map.
  \<^item> \<open>BasicUsage\<close>: the demonstration program \<open>examples/basic_usage.rs\<close>, with \<open>script\<close> interpreted for its
    keys.  \<open>Benchmarks\<close>: the suite \<open>benches/throughput.rs\<close>, with \<open>key_space\<close> interpreted for its keys; how
    often Criterion runs a closure is a parameter.
  \<^item> \<open>Ffi\<close>: the C functions on a process with its boxed clients and one shared object.
  \<^item> \<open>Concurrency\<close>: \<open>set\<close> taken apart into its accesses of the slots, interleavings of several threads,
    and the interleaved halves of INCR.  \<open>Interleaving\<close>: \<open>get\<close> and \<open>del\<close> taken apart in the same way and
    threads that run any of the three; the locale \<open>quiet\<close> states what a reader needs of an operation
    beside it, and is interpreted for all three.  \<open>Atomicity\<close>: a reader of the key that is being
    inserted or deleted (locale \<open>watched\<close>).  \<open>Contention\<close>: a bound on the steps of every operation, many
    deletions of one key, readers among themselves.  \<open>Linearize\<close>: the moments at which GETs take
    effect beside a writer (locale \<open>steady\<close>, interpreted for insertion and deletion).  \<open>Independence\<close>:
    threads on different stored keys.  \<open>Flushing\<close>: \<open>flush_all\<close> in its stores, threads that run any of the
    four operations, and what a flush does to a GET, a SET or a DEL that it meets.

  \<^bold>\<open>What is shown.\<close>  For the map: any sequence of operations gives the results and the content that
  the finite-map specification allows, as long as no two keys in use share a 64-bit hash; the
  invariant holds in every reachable arena; when SET fails; what the counter counts.  For the
  client and the C interface: values read back, limits, counters, persistence.  For the wire
  format: encoder and parser are inverse, answers are stable, no slice is out of range.  For the
  server: every command does on the arena what it means on the map; the cutting of the stream into
  reads does not matter, SET then GET end to end, recovery after protocol errors, the kind of every
  reply and the order of the replies.  For many connections: every run is equivalent to one sequence
  of the requests, in which those of a connection keep their order, and with it to a run of the
  abstract map; the tasks refine the handler, the arena stays well-formed and no task panics, every
  complete request is answered, and a failing connection harms no other.  For the bridge: conservation of
  events from the commands executed to the snapshots published, the statistics of a window, what a
  dashboard receives and when its task ends.  For concurrency: the steps implement the operations,
  an operation does not disturb readers of other keys, any number of readers of the key that is
  inserted or deleted linearize with it, every operation ends within five of its own steps per slot
  whatever others do, of many deletions of a key one succeeds, operations
  on different stored keys are serializable in every order, and no interleaving of any operations
  leaves the bounds of the slots and their buffers.  The demonstration and the
  benchmarks run through and show what they announce.  Theorems whose text tells of lost keys, torn
  values, wrapped numbers or leaked descriptors describe what the code does in cases its comments
  do not mention.

  \<^bold>\<open>Modelling choices.\<close>  Integers are words of their width and wrap as in a release build; lengths and
  indices (\<open>usize\<close>) are natural numbers.  A clock reading is an argument of the operation that takes
  it; one reading serves a whole map operation.  Values that come from outside are parameters: the
  results of system calls, whether an allocation succeeds, whether a write succeeds, the Unicode
  case tables beyond ASCII, the branch a \<open>select!\<close> takes, the text of a serialised snapshot.  That a
  broadcast receiver gets the messages sent after it subscribed, in order and with the number of
  those it missed, is a named hypothesis (\<open>broadcast_delivers\<close>).  Tasks are interleaved at their
  \<open>await\<close>s in any order.  All loops are total functions: probing is bounded by the number of
  slots, the parser and the connection loop by the bytes that are left, so no fuel is used.
  Strings are lists of their UTF-8 bytes, shown to be valid for whatever a client sends.

  \<^bold>\<open>Not modelled.\<close>  Memory orders weaker than interleaving; the stack used by deeply nested arrays; the
  sockets, the scheduler and the channels of tokio beyond the values they deliver; the JSON text
  (\<open>serde_json\<close>) and the WebSocket protocol (\<open>tokio_tungstenite\<close>); the size of the read buffer, which only
  bounds the reads; the addresses the listeners bind to; tracing; the times that the demonstration and
  the benchmarks measure, and the dashboard's own code in JavaScript.
\<close>

end
